(* ===== verification/Prelude.thy ===== *)
theory Prelude
  imports Main "HOL-Library.Word"
begin

text \<open>
  The shared vocabulary of the development: the types the component theories use for the
  bytes, byte slices and integers of the Go code, the fact collections the components extend,
  the sequencing of runs that may stop early, and the generic lemmas about lists, folds and bytes that more than one component needs.

  A Go \<open>byte\<close> is an \<open>8 word\<close> and a \<open>uint64\<close> a \<open>64 word\<close>, so their wrap-around is the
  machine's. A Go \<open>int\<close> is an HOL \<open>int\<close> (or a \<open>nat\<close> where it is an index or a length):
  every place where the code's values could leave 64 bits has a bound stated as a lemma.
\<close>

unbundle bit_operations_syntax

type_synonym byte = "8 word"
type_synonym bytes = "8 word list"

section \<open>Fact collections\<close>

named_theorems len_simps \<open>lengths of the lists the operations build\<close>
named_theorems nth_simps \<open>elements of the lists the operations build\<close>
named_theorems frame_simps \<open>what an operation leaves unchanged\<close>

section \<open>Runs that may stop early\<close>

text \<open>\<open>Inl\<close> is an error, a panic or another reason to stop; what follows runs on \<open>Inr\<close> only.\<close>

fun bind :: "'stop + 'x \<Rightarrow> ('x \<Rightarrow> 'stop + 'y) \<Rightarrow> 'stop + 'y" where
  "bind (Inl stopped) rest = Inl stopped"
| "bind (Inr x) rest = rest x"

lemma bind_Inr: "bind m f = Inr y \<longleftrightarrow> (\<exists>x. m = Inr x \<and> f x = Inr y)"
  by (cases m) auto

lemma bind_cong:
  "m = m' \<Longrightarrow> (\<And>x. m' = Inr x \<Longrightarrow> f x = f' x) \<Longrightarrow> bind m f = bind m' f'"
  by (cases m') simp_all

section \<open>Pointwise combination of lists\<close>

lemma nth_map2 [nth_simps]:
  "i < length xs \<Longrightarrow> i < length ys \<Longrightarrow> map2 f xs ys ! i = f (xs ! i) (ys ! i)"
  by simp

lemma list_eq_nthI:
  "length xs = length ys \<Longrightarrow> (\<And>i. i < length ys \<Longrightarrow> xs ! i = ys ! i) \<Longrightarrow> xs = ys"
  by (simp add: list_eq_iff_nth_eq)

section \<open>Folds that carry an invariant\<close>

text \<open>A loop over a range is a \<open>foldl\<close> over the indices; these are its Hoare rules.\<close>

lemma foldl_invariant:
  assumes "P s" "\<And>s x. P s \<Longrightarrow> x \<in> set xs \<Longrightarrow> P (f s x)"
  shows "P (foldl f s xs)"
  using assms by (induction xs arbitrary: s) auto

lemma foldl_upt_invariant:
  assumes "P 0 s" "\<And>i s. i < n \<Longrightarrow> P i s \<Longrightarrow> P (Suc i) (f s i)"
  shows "P n (foldl f s [0..<n])"
  using assms by (induction n) auto

lemma foldl_frame:
  assumes "\<And>s x. g (f s x) = g s"
  shows "g (foldl f s xs) = g s"
  using assms by (induction xs arbitrary: s) auto

lemma foldl_cong_set:
  assumes "\<And>s x. x \<in> set xs \<Longrightarrow> f s x = g s x"
  shows "foldl f s xs = foldl g s xs"
  using assms by (induction xs arbitrary: s) auto

text \<open>A double loop over the rows and columns of a square whose side the body does not change.\<close>

lemma foldl_nested_size:
  assumes "\<And>s p. sz (f s p) = sz s"
  shows "foldl (\<lambda>s y. foldl (\<lambda>s x. f s (y, x)) s [0..<sz s]) s ys =
    foldl f s (List.product ys [0..<sz s])"
proof (induction ys arbitrary: s)
  case (Cons y ys)
  have "sz (foldl (\<lambda>s x. f s (y, x)) s xs) = sz s" for xs :: "nat list"
    by (rule foldl_frame) (rule assms)
  then show ?case by (simp add: Cons.IH foldl_map)
qed simp

section \<open>Exclusive or on bytes\<close>

lemma xor_cancel_left [simp]: "(a :: 'a::len word) XOR (a XOR b) = b"
  by (simp flip: xor.assoc)

lemma xor_eq_zero_iff [simp]: "(a :: 'a::len word) XOR b = 0 \<longleftrightarrow> a = b"
proof
  assume "a XOR b = 0"
  then have "a XOR (a XOR b) = a" by simp
  then show "a = b" by simp
qed simp

lemmas xor_ac_simps = xor.assoc xor.commute xor.left_commute

end
