(* ===== verification/Byte_Ring.thy ===== *)
theory Byte_Ring
  imports Prelude
begin

text \<open>
  The interface between the field of the QR encoder and the Reed-Solomon code built on it:
  a multiplication of bytes that is commutative, associative, distributes over XOR and has 1
  as its unit. Inside the locale polynomials are evaluated by Horner's rule, and one step of
  the division shift register is shown to keep the remainder modulo every root of a monic
  generator.
\<close>

definition poly_eval :: "(byte \<Rightarrow> byte \<Rightarrow> byte) \<Rightarrow> bytes \<Rightarrow> byte \<Rightarrow> byte" where
  "poly_eval mul p x = foldl (\<lambda>acc c. mul acc x XOR c) 0 p"

definition byte_pow :: "(byte \<Rightarrow> byte \<Rightarrow> byte) \<Rightarrow> byte \<Rightarrow> nat \<Rightarrow> byte" where
  "byte_pow mul x n = (mul x ^^ n) 1"

locale byte_ring =
  fixes mul :: "byte \<Rightarrow> byte \<Rightarrow> byte"
  assumes mul_commute: "mul a b = mul b a"
    and mul_assoc: "mul (mul a b) c = mul a (mul b c)"
    and mul_xor: "mul a (b XOR c) = mul a b XOR mul a c"
    and mul_one: "mul 1 a = a"
begin

abbreviation ev :: "bytes \<Rightarrow> byte \<Rightarrow> byte" where
  "ev \<equiv> poly_eval mul"

abbreviation pw :: "byte \<Rightarrow> nat \<Rightarrow> byte" where
  "pw \<equiv> byte_pow mul"

lemma mul_zero: "mul a 0 = 0" "mul 0 a = 0"
proof -
  have "mul a 0 = mul a 0 XOR mul a 0" using mul_xor [of a 0 0] by simp
  then show "mul a 0 = 0" by simp
  then show "mul 0 a = 0" by (simp add: mul_commute)
qed

lemma mul_xor_left: "mul (b XOR c) a = mul b a XOR mul c a"
  by (simp add: mul_commute [of _ a] mul_xor)

lemma mul_left_commute: "mul a (mul b c) = mul b (mul a c)"
  by (metis mul_assoc mul_commute)

lemmas mul_ac = mul_assoc mul_commute mul_left_commute

lemma pw_0: "pw x 0 = 1" and pw_Suc: "pw x (Suc n) = mul x (pw x n)"
  by (simp_all add: byte_pow_def)

lemma pw_add: "pw x (m + n) = mul (pw x m) (pw x n)"
  by (induction m) (simp_all add: pw_0 pw_Suc mul_one mul_assoc)

lemma ev_Nil: "ev [] x = 0" and ev_snoc: "ev (p @ [c]) x = mul (ev p x) x XOR c"
  by (simp_all add: poly_eval_def)

lemma ev_Cons: "ev (c # p) x = mul c (pw x (length p)) XOR ev p x"
proof (induction p rule: rev_induct)
  case Nil
  show ?case by (simp add: poly_eval_def pw_0 mul_zero mul_commute [of _ 1] mul_one)
next
  case (snoc d p)
  have "ev (c # p @ [d]) x = mul (ev (c # p) x) x XOR d"
    using ev_snoc [of "c # p"] by simp
  also have "\<dots> = mul c (pw x (length (p @ [d]))) XOR (mul (ev p x) x XOR d)"
    by (simp add: snoc.IH mul_xor_left mul_assoc pw_Suc mul_commute [of x] xor.assoc)
  finally show ?case by (simp add: ev_snoc)
qed

lemma ev_append: "ev (p @ q) x = mul (ev p x) (pw x (length q)) XOR ev q x"
  by (induction p) (simp_all add: ev_Nil mul_zero ev_Cons mul_xor_left mul_assoc xor.assoc pw_add)

lemma ev_xor: "length p = length q \<Longrightarrow> ev (map2 (XOR) p q) x = ev p x XOR ev q x"
  by (induction p q rule: list_induct2) (simp_all add: ev_Nil ev_Cons mul_xor_left xor_ac_simps)

lemma ev_scale: "ev (map (\<lambda>h. mul h f) p) x = mul (ev p x) f"
  by (induction p) (simp_all add: ev_Nil mul_zero ev_Cons mul_xor mul_ac)

lemma ev_replicate_zero: "ev (replicate n 0) x = 0"
  by (induction n) (simp_all add: ev_Nil ev_Cons mul_zero)

text \<open>Multiplying by \<open>x + a\<close> shifts the polynomial and adds \<open>a\<close> times it.\<close>

lemma ev_times_linear:
  "ev (map2 (XOR) (p @ [0]) (0 # map (\<lambda>c. mul c a) p)) x = mul (ev p x) (x XOR a)"
  by (simp add: ev_xor ev_snoc ev_Cons mul_zero ev_scale mul_xor)

text \<open>One step of the division by a monic generator of degree \<open>n\<close>, at a root of it.\<close>

lemma ev_division_step:
  assumes "length r = n" "0 < n" "length g = Suc n" "hd g = 1" "ev g x = 0"
  shows "ev (map2 (XOR) (tl r @ [0]) (map (\<lambda>h. mul h (c XOR hd r)) (tl g))) x =
    mul (ev r x) x XOR mul c (pw x n)"
proof -
  obtain r0 rs where r: "r = r0 # rs" and rs: "Suc (length rs) = n"
    using assms(1,2) by (cases r) auto
  obtain gs where g: "g = 1 # gs" and gs: "length gs = n"
    using assms(3,4) by (cases g) auto
  have "ev gs x = pw x n"
    using assms(5) gs by (simp add: g ev_Cons mul_one xor.commute)
  then have scaled: "ev (map (\<lambda>h. mul h f) gs) x = mul (pw x n) f" for f
    by (simp add: ev_scale)
  have pw: "pw x n = mul x (pw x (length rs))"
    using pw_Suc [of x "length rs"] rs by simp
  have "ev (map2 (XOR) (rs @ [0]) (map (\<lambda>h. mul h (c XOR r0)) gs)) x =
      mul (ev rs x) x XOR mul (pw x n) (c XOR r0)"
    using rs gs by (simp add: ev_xor ev_snoc scaled)
  also have "\<dots> = mul (ev r x) x XOR mul c (pw x n)"
    by (simp add: r ev_Cons pw mul_xor_left mul_xor mul_ac xor_ac_simps)
  finally show ?thesis by (simp only: r g list.sel)
qed

end

end
