(* ===== verification/QR_Field.thy ===== *)
theory QR_Field
  imports Byte_Ring
begin

text \<open>
  The field of the QR encoder, \<open>src/pkg/encoding/qr/reed_solomon.go\<close> lines 1 to 36: the
  exponent and logarithm tables the package's \<open>init\<close> fills, and \<open>multiply\<close>, which reads a
  product out of them. The tables are proved to hold the powers of the generator and their
  discrete logarithms, and \<open>multiply\<close> is proved equal to shift-and-add multiplication modulo
  the field polynomial, hence commutative, associative, distributive over XOR, with inverses.
\<close>

section \<open>The tables and the product\<close>

definition fieldPolynomial :: int where
  "fieldPolynomial = 0x11d"

record field_tables =
  exponents :: bytes
  logarithms :: "int list"

text \<open>The loop of \<open>init\<close>: \<open>init_double\<close> is its last four lines.\<close>

definition init_double :: "int \<Rightarrow> int" where
  "init_double value =
     (let value = push_bit 1 value
      in if value AND 0x100 \<noteq> 0 then value XOR fieldPolynomial else value)"

definition init_step :: "int \<times> field_tables \<Rightarrow> nat \<Rightarrow> int \<times> field_tables" where
  "init_step s pow = (case s of (value, t) \<Rightarrow>
     (init_double value,
      t\<lparr>exponents := (exponents t)[pow := word_of_int value, pow + 255 := word_of_int value],
        logarithms := (logarithms t)[nat value := int pow]\<rparr>))"

definition field_init :: field_tables where
  "field_init = snd (foldl init_step
     (1, \<lparr>exponents = replicate 510 0, logarithms = replicate 256 0\<rparr>) [0..<255])"

definition multiply :: "byte \<Rightarrow> byte \<Rightarrow> byte" where
  "multiply a b =
     (if a = 0 \<or> b = 0 then 0
      else exponents field_init !
        nat (logarithms field_init ! unat a + logarithms field_init ! unat b))"

section \<open>The reference product\<close>

text \<open>
  Multiplication by the generator \<open>x\<close> and by an arbitrary byte, without tables: the
  shift-and-add product of polynomials over GF(2), reduced at every shift.
\<close>

definition xtime :: "byte \<Rightarrow> byte" where
  "xtime w = push_bit 1 w XOR (if bit w 7 then 0x1d else 0)"

fun shift_add :: "nat \<Rightarrow> byte \<Rightarrow> byte \<Rightarrow> byte" where
  "shift_add 0 a b = 0"
| "shift_add (Suc n) a b =
     (if bit b 0 then a else 0) XOR shift_add n (xtime a) (drop_bit 1 b)"

definition gf_mul :: "byte \<Rightarrow> byte \<Rightarrow> byte" where
  "gf_mul a b = shift_add 8 a b"

definition apow :: "nat \<Rightarrow> byte" where
  "apow k = (xtime ^^ k) 1"

lemma xtime_xor: "xtime (a XOR b) = xtime a XOR xtime b"
  by (simp add: xtime_def push_bit_xor bit_xor_iff xor_ac_simps)

lemma xtime_zero [simp]: "xtime 0 = 0"
  by (simp add: xtime_def)

lemma shift_add_xor_left: "shift_add n (a XOR a') b = shift_add n a b XOR shift_add n a' b"
  by (induction n arbitrary: a a' b) (auto simp: xtime_xor xor_ac_simps)

lemma shift_add_xor_right: "shift_add n a (b XOR b') = shift_add n a b XOR shift_add n a b'"
proof (induction n arbitrary: a b b')
  case (Suc n)
  have "drop_bit 1 (b XOR b') = drop_bit 1 b XOR drop_bit 1 b'" by simp
  then show ?case
    by (auto simp: Suc.IH bit_xor_iff xor_ac_simps)
qed simp

lemma shift_add_xtime: "shift_add n (xtime a) b = xtime (shift_add n a b)"
  by (induction n arbitrary: a b) (auto simp: xtime_xor)

lemma shift_add_zero: "shift_add n 0 b = 0" "shift_add n a 0 = 0"
  by (induction n arbitrary: a b) auto

lemma gf_mul_zero [simp]: "gf_mul 0 b = 0" "gf_mul a 0 = 0"
  by (simp_all add: gf_mul_def shift_add_zero)

lemma gf_mul_xor_left: "gf_mul (a XOR a') b = gf_mul a b XOR gf_mul a' b"
  by (simp add: gf_mul_def shift_add_xor_left)

lemma gf_mul_xor_right: "gf_mul a (b XOR b') = gf_mul a b XOR gf_mul a b'"
  by (simp add: gf_mul_def shift_add_xor_right)

lemma gf_mul_funpow: "gf_mul ((xtime ^^ k) a) b = (xtime ^^ k) (gf_mul a b)"
  by (induction k) (simp_all add: gf_mul_def shift_add_xtime)

lemma all_bytes: "(\<forall>b \<in> set (map of_nat [0..<256]). P b) \<Longrightarrow> P (b :: byte)"
proof -
  assume all: "\<forall>b \<in> set (map of_nat [0..<256]). P b"
  have "b = of_nat (unat b)" by simp
  moreover have "unat b < 2 ^ LENGTH(8)" by (rule unsigned_less)
  then have "unat b < 256" by simp
  ultimately have "b \<in> set (map of_nat [0..<256])" by (metis (no_types) atLeastLessThan_iff atLeastLessThan_upt image_eqI list.set_map zero_le)
  with all show "P b" by blast
qed

lemma gf_mul_one_left: "gf_mul 1 b = b"
  by (rule all_bytes) code_simp

section \<open>The powers of the generator\<close>

fun xtime_orbit :: "nat \<Rightarrow> byte \<Rightarrow> bytes" where
  "xtime_orbit 0 v = []"
| "xtime_orbit (Suc n) v = v # xtime_orbit n (xtime v)"

lemma xtime_orbit_eq: "xtime_orbit n v = map (\<lambda>k. (xtime ^^ k) v) [0..<n]"
  by (induction n arbitrary: v) (simp_all add: upt_conv_Cons map_Suc_upt [symmetric] funpow_swap1 del: upt_Suc)

lemma apow_period: "apow 255 = 1"
proof -
  have "last (xtime_orbit 256 1) = 1" by code_simp
  then show ?thesis by (simp add: xtime_orbit_eq apow_def last_map)
qed

lemma apow_not_one: "0 < k \<Longrightarrow> k < 255 \<Longrightarrow> apow k \<noteq> 1"
proof -
  assume k: "0 < k" "k < 255"
  have "1 \<notin> set (xtime_orbit 254 (xtime 1))" by code_simp
  moreover have "apow k = (xtime ^^ (k - 1)) (xtime 1)"
    using k by (cases k) (simp_all add: apow_def funpow_swap1)
  ultimately show ?thesis using k by (auto simp: xtime_orbit_eq)
qed

lemma apow_0 [simp]: "apow 0 = 1"
  by (simp add: apow_def)

lemma apow_Suc: "apow (Suc k) = xtime (apow k)"
  by (simp add: apow_def)

lemma gf_mul_apow: "gf_mul (apow i) (apow j) = apow (i + j)"
  by (simp add: apow_def gf_mul_funpow gf_mul_one_left funpow_add)

lemma apow_add_period: "apow (i + 255) = apow i"
  using gf_mul_apow [of 255 i] by (simp add: apow_period gf_mul_one_left add.commute)

lemma apow_nonzero: "apow i \<noteq> 0"
proof
  assume "apow i = 0"
  then have "apow (i + k) = 0" for k
    using gf_mul_apow [of i k] by simp
  moreover have "apow (i + (254 * i)) = 1"
  proof (induction i)
    case (Suc i)
    then show ?case using apow_add_period [of "i + 254 * i"] by (simp add: algebra_simps)
  qed simp
  ultimately show False by (metis zero_neq_one)
qed

lemma apow_inj: "apow i = apow j \<Longrightarrow> i < 255 \<Longrightarrow> j < 255 \<Longrightarrow> i = j"
proof (induction i j rule: linorder_wlog)
  case (le i j)
  have "255 - i + j = (j - i) + 255" using le.prems le.hyps by simp
  then have "apow (j - i) = gf_mul (apow (255 - i)) (apow j)"
    by (metis gf_mul_apow apow_add_period)
  also have "\<dots> = gf_mul (apow (255 - i)) (apow i)" using le.prems by simp
  also have "\<dots> = apow 255" using le.prems by (metis gf_mul_apow le_add_diff_inverse2 less_imp_le)
  also have "\<dots> = 1" by (rule apow_period)
  finally show ?case using apow_not_one [of "j - i"] le by (cases "i < j") auto
next
  case (sym i j)
  then show ?case by metis
qed

lemma apow_surj:
  assumes "a \<noteq> 0"
  obtains i where "i < 255" "apow i = a"
proof -
  have inj: "inj_on apow {..<255}"
    by (auto intro!: inj_onI apow_inj)
  have "apow ` {..<255} \<subseteq> UNIV - {0}" using apow_nonzero by auto
  moreover have "card (UNIV - {0 :: byte}) = 255"
  proof -
    have "card (UNIV :: byte set) = 256" by (simp only: card_word) simp
    then show ?thesis by (simp only: card_Diff_singleton UNIV_I)
  qed
  moreover have "card (apow ` {..<255}) = 255" using inj by (simp add: card_image)
  ultimately have "apow ` {..<255} = UNIV - {0}" by (simp add: card_subset_eq)
  then have "a \<in> apow ` {..<255}" using assms by blast
  then show ?thesis using that by blast
qed

section \<open>The tables hold the powers and their logarithms\<close>

lemma init_double_byte: "init_double (uint w) = uint (xtime w)"
  by (rule all_bytes) code_simp

definition tables_ok :: "nat \<Rightarrow> int \<times> field_tables \<Rightarrow> bool" where
  "tables_ok k s \<longleftrightarrow> (case s of (value, t) \<Rightarrow>
     value = uint (apow k) \<and>
     length (exponents t) = 510 \<and> length (logarithms t) = 256 \<and>
     (\<forall>i < k. exponents t ! i = apow i \<and> exponents t ! (i + 255) = apow i \<and>
        logarithms t ! unat (apow i) = int i))"

lemma unat_byte_less: "unat (w :: byte) < 256"
proof -
  have "unat w < 2 ^ LENGTH(8)" by (rule unsigned_less)
  then show ?thesis by simp
qed

lemma init_step_tables_ok:
  assumes "k < 255" "tables_ok k s"
  shows "tables_ok (Suc k) (init_step s k)"
proof -
  obtain v t where s: "s = (v, t)" by (cases s)
  have v: "nat v = unat (apow k)" "word_of_int v = apow k"
    using assms(2) by (simp_all add: s tables_ok_def)
  have neq: "unat (apow i) \<noteq> unat (apow k)" if "i < k" for i
  proof -
    have "i < 255" "i \<noteq> k" using that assms(1) by simp_all
    then have "apow i \<noteq> apow k" using apow_inj assms(1) by blast
    then show ?thesis by (simp only: word_unat_eq_iff not_False_eq_True)
  qed
  have old: "i < k \<Longrightarrow> exponents t ! i = apow i \<and> exponents t ! (i + 255) = apow i \<and>
      logarithms t ! unat (apow i) = int i" for i
    using assms(2) by (auto simp: tables_ok_def s)
  have len: "length (exponents t) = 510" "length (logarithms t) = 256"
    and w: "v = uint (apow k)"
    using assms(2) by (auto simp: tables_ok_def s)
  have new: "exponents t' ! i = apow i \<and> exponents t' ! (i + 255) = apow i \<and>
      logarithms t' ! unat (apow i) = int i"
    if t': "t' = snd (init_step s k)" and i: "i < Suc k" for t' i
  proof (cases "i = k")
    case True
    then show ?thesis
      using assms(1) len unat_byte_less [of "apow k"] v by (simp add: t' s init_step_def)
  next
    case False
    then have "i < k" using i by simp
    then show ?thesis
      using assms(1) old [of i] neq [of i] v by (simp add: t' s init_step_def)
  qed
  show ?thesis
    using new [OF refl] by (simp add: tables_ok_def init_step_def s len w init_double_byte apow_Suc)
qed

lemma field_init_ok: "\<exists>value. tables_ok 255 (value, field_init)"
proof -
  let ?s = "(1, \<lparr>exponents = replicate 510 0, logarithms = replicate 256 0\<rparr>)"
  have "tables_ok 255 (foldl init_step ?s [0..<255])"
    by (rule foldl_upt_invariant) (simp add: tables_ok_def, rule init_step_tables_ok)
  then show ?thesis unfolding field_init_def by (metis prod.collapse)
qed

lemma exponents_nth: "i < 255 \<Longrightarrow> exponents field_init ! i = apow i"
  using field_init_ok by (auto simp: tables_ok_def)

lemma exponents_nth_high: "i < 510 \<Longrightarrow> exponents field_init ! i = apow i"
proof -
  assume i: "i < 510"
  show ?thesis
  proof (cases "i < 255")
    case False
    define j where "j = i - 255"
    have "j < 255" "i = j + 255" using False i by (auto simp: j_def)
    then show ?thesis using field_init_ok by (auto simp: tables_ok_def apow_add_period)
  qed (simp add: exponents_nth)
qed

lemma logarithms_nth: "i < 255 \<Longrightarrow> logarithms field_init ! unat (apow i) = int i"
  using field_init_ok by (auto simp: tables_ok_def)

lemma logarithm_range:
  "(a :: byte) \<noteq> 0 \<Longrightarrow> 0 \<le> logarithms field_init ! unat a \<and> logarithms field_init ! unat a < 255"
proof -
  assume "a \<noteq> 0"
  then obtain i where "i < 255" "a = apow i" by (metis apow_surj)
  then show ?thesis by (simp add: logarithms_nth)
qed

section \<open>The table product is the field product\<close>

lemma multiply_eq_gf_mul: "multiply a b = gf_mul a b"
proof (cases "a = 0 \<or> b = 0")
  case False
  then obtain i j where ij: "i < 255" "j < 255" "a = apow i" "b = apow j"
    by (metis apow_surj)
  then have "nat (logarithms field_init ! unat a + logarithms field_init ! unat b) = i + j"
    by (simp add: logarithms_nth)
  with False ij show ?thesis
    by (simp add: multiply_def exponents_nth_high gf_mul_apow)
qed (auto simp: multiply_def)

lemma multiply_commute: "multiply a b = multiply b a"
proof (cases "a = 0 \<or> b = 0")
  case False
  then obtain i j where "a = apow i" "b = apow j" by (metis apow_surj)
  then show ?thesis by (simp add: multiply_eq_gf_mul gf_mul_apow add.commute)
qed (auto simp: multiply_eq_gf_mul)

lemma multiply_assoc: "multiply (multiply a b) c = multiply a (multiply b c)"
proof (cases "a = 0 \<or> b = 0 \<or> c = 0")
  case False
  then obtain i j k where "a = apow i" "b = apow j" "c = apow k" by (metis apow_surj)
  then show ?thesis by (simp add: multiply_eq_gf_mul gf_mul_apow add.assoc)
qed (auto simp: multiply_eq_gf_mul)

lemma multiply_one: "multiply 1 b = b" "multiply b 1 = b"
proof -
  show "multiply 1 b = b" by (simp add: multiply_eq_gf_mul gf_mul_one_left)
  then show "multiply b 1 = b" by (simp add: multiply_commute [of b])
qed

lemma multiply_zero [simp]: "multiply 0 b = 0" "multiply b 0 = 0"
  by (simp_all add: multiply_def)

lemma multiply_xor_right: "multiply a (b XOR c) = multiply a b XOR multiply a c"
  by (simp add: multiply_eq_gf_mul gf_mul_xor_right)

lemma multiply_xor_left: "multiply (b XOR c) a = multiply b a XOR multiply c a"
  by (simp add: multiply_eq_gf_mul gf_mul_xor_left)

lemma multiply_inverse: "a \<noteq> 0 \<Longrightarrow> \<exists>b. multiply a b = 1"
proof -
  assume "a \<noteq> 0"
  then obtain i where "i < 255" "a = apow i" by (metis apow_surj)
  then have "multiply a (apow (255 - i)) = 1"
    by (simp add: multiply_eq_gf_mul gf_mul_apow apow_period)
  then show ?thesis ..
qed

text \<open>The product read from the tables provides the interface the Reed-Solomon code uses.\<close>

interpretation gf: byte_ring multiply
  by unfold_locales (rule multiply_commute multiply_assoc multiply_xor_right multiply_one)+

end
