(* ===== verification/QR_Codewords.thy ===== *)
theory QR_Codewords
  imports QR_Field
begin

text \<open>
  From bytes to codewords: \<open>src/pkg/encoding/qr/tables.go\<close>, the second half of
  \<open>reed_solomon.go\<close>, and of \<open>qr.go\<close> the version choice, the bit writer, \<open>dataCodewords\<close> and
  \<open>interleave\<close>. The lemmas show that the bits written can be read back, that a block followed
  by its error correction vanishes at every root of the generator, and where interleaving
  puts each codeword.
\<close>

section \<open>The tables\<close>

definition MaxVersion :: nat where
  "MaxVersion = 10"

record block_spec =
  ecPerBlock :: nat
  group1Blocks :: nat
  group1Data :: nat
  group2Blocks :: nat
  group2Data :: nat

definition spec_dataCodewords :: "block_spec \<Rightarrow> nat" where
  "spec_dataCodewords spec =
     group1Blocks spec * group1Data spec + group2Blocks spec * group2Data spec"

definition spec_totalCodewords :: "block_spec \<Rightarrow> nat" where
  "spec_totalCodewords spec =
     spec_dataCodewords spec + (group1Blocks spec + group2Blocks spec) * ecPerBlock spec"

definition bspec :: "nat \<times> nat \<times> nat \<times> nat \<times> nat \<Rightarrow> block_spec" where
  "bspec t = (case t of (e, b1, d1, b2, d2) \<Rightarrow>
     \<lparr>ecPerBlock = e, group1Blocks = b1, group1Data = d1, group2Blocks = b2, group2Data = d2\<rparr>)"

definition blockSpecs :: "block_spec list list" where
  "blockSpecs = map (map bspec) [
     [(0, 0, 0, 0, 0), (0, 0, 0, 0, 0), (0, 0, 0, 0, 0), (0, 0, 0, 0, 0)],
     [(7, 1, 19, 0, 0), (10, 1, 16, 0, 0), (13, 1, 13, 0, 0), (17, 1, 9, 0, 0)],
     [(10, 1, 34, 0, 0), (16, 1, 28, 0, 0), (22, 1, 22, 0, 0), (28, 1, 16, 0, 0)],
     [(15, 1, 55, 0, 0), (26, 1, 44, 0, 0), (18, 2, 17, 0, 0), (22, 2, 13, 0, 0)],
     [(20, 1, 80, 0, 0), (18, 2, 32, 0, 0), (26, 2, 24, 0, 0), (16, 4, 9, 0, 0)],
     [(26, 1, 108, 0, 0), (24, 2, 43, 0, 0), (18, 2, 15, 2, 16), (22, 2, 11, 2, 12)],
     [(18, 2, 68, 0, 0), (16, 4, 27, 0, 0), (24, 4, 19, 0, 0), (28, 4, 15, 0, 0)],
     [(20, 2, 78, 0, 0), (18, 4, 31, 0, 0), (18, 2, 14, 4, 15), (26, 4, 13, 1, 14)],
     [(24, 2, 97, 0, 0), (22, 2, 38, 2, 39), (22, 4, 18, 2, 19), (26, 4, 14, 2, 15)],
     [(30, 2, 116, 0, 0), (22, 3, 36, 2, 37), (20, 4, 16, 4, 17), (24, 4, 12, 4, 13)],
     [(18, 2, 68, 2, 69), (26, 4, 43, 1, 44), (24, 6, 19, 2, 20), (28, 6, 15, 2, 16)]]"

definition totalCodewords :: "nat list" where
  "totalCodewords = [0, 26, 44, 70, 100, 134, 172, 196, 242, 292, 346]"

definition alignmentCenters :: "nat list list" where
  "alignmentCenters = [[], [], [6, 18], [6, 22], [6, 26], [6, 30], [6, 34],
     [6, 22, 38], [6, 24, 42], [6, 26, 46], [6, 28, 50]]"

definition characterCountBits :: "nat \<Rightarrow> nat" where
  "characterCountBits version = (if version \<le> 9 then 8 else 16)"

section \<open>Levels and the version choice\<close>

text \<open>\<open>Level\<close> is a Go \<open>int\<close>, so a value outside the four constants is representable.\<close>

type_synonym Level = int

definition LevelL :: Level where "LevelL = 0"
definition LevelM :: Level where "LevelM = 1"
definition LevelQ :: Level where "LevelQ = 2"
definition LevelH :: Level where "LevelH = 3"

definition formatBits :: "Level \<Rightarrow> int" where
  "formatBits level =
     (if level = LevelL then 1
      else if level = LevelM then 0
      else if level = LevelQ then 3
      else if level = LevelH then 2
      else -1)"

definition level_valid :: "Level \<Rightarrow> bool" where
  "level_valid level \<longleftrightarrow> level \<ge> LevelL \<and> level \<le> LevelH"

datatype qr_error = NotALevel Level | NotAMask int | ErrDataTooLong nat Level

definition spec_of :: "nat \<Rightarrow> Level \<Rightarrow> block_spec" where
  "spec_of version level = blockSpecs ! version ! nat level"

definition chooseVersion :: "bytes \<Rightarrow> Level \<Rightarrow> qr_error + nat" where
  "chooseVersion data level =
     (if \<not> level_valid level then Inl (NotALevel level)
      else case List.find (\<lambda>version.
              4 + characterCountBits version + 8 * length data
                \<le> spec_dataCodewords (spec_of version level) * 8) [1..<Suc MaxVersion] of
          Some version \<Rightarrow> Inr version
        | None \<Rightarrow> Inl (ErrDataTooLong (length data) level))"

section \<open>The bit writer\<close>

record bit_writer =
  wbytes :: bytes
  wcount :: nat

definition empty_writer :: bit_writer where
  "empty_writer = \<lparr>wbytes = [], wcount = 0\<rparr>"

text \<open>One iteration of the loop of \<open>write\<close>, and the loop from the top bit down.\<close>

definition write_bit :: "int \<Rightarrow> bit_writer \<Rightarrow> nat \<Rightarrow> bit_writer" where
  "write_bit val writer i =
     (let bs = (if wcount writer mod 8 = 0 then wbytes writer @ [0] else wbytes writer);
          bs = (if drop_bit i val AND 1 = 1
                then bs[length bs - 1 := bs ! (length bs - 1) OR drop_bit (wcount writer mod 8) 0x80]
                else bs)
      in \<lparr>wbytes = bs, wcount = Suc (wcount writer)\<rparr>)"

definition bw_write :: "bit_writer \<Rightarrow> int \<Rightarrow> nat \<Rightarrow> bit_writer" where
  "bw_write writer val width = foldl (write_bit val) writer (rev [0..<width])"

lemma length_write_bit:
  "length (wbytes (write_bit v w i)) = length (wbytes w) + (if wcount w mod 8 = 0 then 1 else 0)"
  by (simp add: write_bit_def Let_def)

lemma wcount_write_bit [simp]: "wcount (write_bit v w i) = Suc (wcount w)"
  by (simp add: write_bit_def Let_def)

lemma wcount_foldl_write_bit [simp]: "wcount (foldl (write_bit v) w is) = wcount w + length is"
  by (induction "is" arbitrary: w) simp_all

lemma wcount_write [simp]: "wcount (bw_write w v n) = wcount w + n"
  by (simp add: bw_write_def)

lemma bytes_needed_Suc: "(c + 8) div 8 = (c + 7) div 8 + (if c mod 8 = 0 then 1 else 0 :: nat)"
proof (cases "c mod 8 = 0")
  case True
  then obtain q where "c = 8 * q" by (metis mod_0_imp_dvd dvdE)
  then have "(c + 8) div 8 = q + 1" "(c + 7) div 8 = q" by (auto intro: div_nat_eqI)
  with True show ?thesis by simp
next
  case False
  define q where "q = c div 8"
  have "8 * q \<le> c" "c < 8 * q + 8"
    by (auto simp: q_def dividend_less_times_div)
  moreover have "c \<noteq> 8 * q" using False by (metis mod_mult_self1_is_0)
  ultimately have "(c + 8) div 8 = q + 1" "(c + 7) div 8 = q + 1" by (auto intro: div_nat_eqI)
  with False show ?thesis by simp
qed

lemma length_foldl_write_bit:
  "length (wbytes (foldl (write_bit v) w is)) + (wcount w + 7) div 8 =
   length (wbytes w) + (wcount w + length is + 7) div 8"
proof (induction "is" arbitrary: w)
  case (Cons i "is")
  have "(wcount w + 8) div 8 = (wcount w + 7) div 8 + (if wcount w mod 8 = 0 then 1 else 0)"
    by (rule bytes_needed_Suc)
  with Cons.IH [of "write_bit v w i"] show ?case
    by (simp add: length_write_bit)
qed simp

lemma length_write:
  "length (wbytes (bw_write w v n)) + (wcount w + 7) div 8 =
   length (wbytes w) + (wcount w + n + 7) div 8"
  using length_foldl_write_bit [of v w "rev [0..<n]"] by (simp add: bw_write_def)

lemma length_write_8 [simp]: "length (wbytes (bw_write w v 8)) = Suc (length (wbytes w))"
  using length_write [of w v 8] by simp

text \<open>The padding loop of \<open>dataCodewords\<close>: every pass appends one byte, so it ends.\<close>

function pad_codewords :: "nat \<Rightarrow> nat \<Rightarrow> bit_writer \<Rightarrow> bit_writer" where
  "pad_codewords capacity pad writer =
     (if length (wbytes writer) < capacity
      then pad_codewords capacity (Suc pad) (bw_write writer (if pad mod 2 = 0 then 0xec else 0x11) 8)
      else writer)"
  by pat_completeness auto
termination
  by (relation "measure (\<lambda>(capacity, pad, writer). capacity - length (wbytes writer))") auto

declare pad_codewords.simps [simp del]

definition dataCodewords :: "bytes \<Rightarrow> nat \<Rightarrow> block_spec \<Rightarrow> bytes" where
  "dataCodewords data version spec =
     (let capacity = spec_dataCodewords spec;
          writer = bw_write empty_writer 0b0100 4;
          writer = bw_write writer (int (length data)) (characterCountBits version);
          writer = foldl (\<lambda>writer b. bw_write writer (uint b) 8) writer data;
          writer = bw_write writer 0 (min 4 (capacity * 8 - wcount writer));
          writer = (if wcount writer mod 8 \<noteq> 0
                    then bw_write writer 0 (8 - wcount writer mod 8) else writer)
      in wbytes (pad_codewords capacity 0 writer))"

section \<open>Error correction\<close>

text \<open>
  Multiplication of a polynomial, highest power first, by \<open>x + a\<close>: the inner loop of
  \<open>generatorPolynomial\<close>.
\<close>

definition times_linear :: "bytes \<Rightarrow> byte \<Rightarrow> bytes" where
  "times_linear polynomial a = foldl
     (\<lambda>nxt j. let nxt = nxt[j := nxt ! j XOR polynomial ! j]
              in nxt[j + 1 := nxt ! (j + 1) XOR multiply (polynomial ! j) a])
     (replicate (length polynomial + 1) 0) [0..<length polynomial]"

definition generatorPolynomial :: "nat \<Rightarrow> bytes" where
  "generatorPolynomial degree =
     foldl (\<lambda>polynomial i. times_linear polynomial (exponents field_init ! i)) [1] [0..<degree]"

definition correction_step :: "bytes \<Rightarrow> nat \<Rightarrow> bytes \<Rightarrow> byte \<Rightarrow> bytes" where
  "correction_step generator n remainder codeword =
     (let factor = codeword XOR remainder ! 0;
          remainder = (tl remainder @ [last remainder])[n - 1 := 0]
      in map (\<lambda>i. remainder ! i XOR multiply (generator ! (i + 1)) factor) [0..<n])"

definition errorCorrection :: "bytes \<Rightarrow> nat \<Rightarrow> bytes" where
  "errorCorrection data n =
     foldl (correction_step (generatorPolynomial n) n) (replicate n 0) data"

section \<open>Interleaving\<close>

text \<open>\<open>data[offset:offset+n]\<close>, for the \<open>blocks\<close> blocks of one group.\<close>

fun split_blocks :: "bytes \<Rightarrow> nat \<Rightarrow> nat \<Rightarrow> nat \<Rightarrow> bytes list" where
  "split_blocks data offset n 0 = []"
| "split_blocks data offset n (Suc blocks) =
     take n (drop offset data) # split_blocks data (offset + n) n blocks"

definition blocks_of :: "bytes \<Rightarrow> block_spec \<Rightarrow> bytes list" where
  "blocks_of data spec =
     split_blocks data 0 (group1Data spec) (group1Blocks spec) @
     split_blocks data (group1Blocks spec * group1Data spec) (group2Data spec) (group2Blocks spec)"

definition interleave :: "bytes \<Rightarrow> block_spec \<Rightarrow> bytes" where
  "interleave data spec =
     (let blocks = blocks_of data spec;
          corrections = map (\<lambda>block. errorCorrection block (ecPerBlock spec)) blocks
      in concat (map (\<lambda>i. concat (map (\<lambda>block. if i < length block then [block ! i] else []) blocks))
           [0..<max (group1Data spec) (group2Data spec)]) @
         concat (map (\<lambda>i. map (\<lambda>correction. correction ! i) corrections) [0..<ecPerBlock spec]))"

section \<open>The generator and the error correction of a block\<close>

lemma times_linear_eq:
  "times_linear p a = map2 (XOR) (p @ [0]) (0 # map (\<lambda>c. multiply c a) p)"
proof -
  let ?f = "\<lambda>nxt j. let nxt = nxt[j := nxt ! j XOR p ! j]
              in nxt[j + 1 := nxt ! (j + 1) XOR multiply (p ! j) a]"
  define Q where "Q k nxt \<longleftrightarrow> length nxt = Suc (length p) \<and>
    (\<forall>i \<le> length p. nxt ! i = (if i < k then p ! i else 0) XOR
       (if 0 < i \<and> i \<le> k then multiply (p ! (i - 1)) a else 0))" for k and nxt :: bytes
  have "Q (length p) (foldl ?f (replicate (length p + 1) 0) [0..<length p])"
  proof (rule foldl_upt_invariant)
    fix k nxt assume "k < length p" "Q k nxt"
    then show "Q (Suc k) (?f nxt k)"
      by (auto simp: Q_def Let_def nth_list_update le_Suc_eq xor_ac_simps)
  qed (auto simp: Q_def)
  then show ?thesis
    unfolding times_linear_def Q_def
    by (intro list_eq_nthI) (auto simp: nth_append nth_Cons' less_Suc_eq_le)
qed

lemma length_times_linear [simp]: "length (times_linear p a) = Suc (length p)"
  by (simp add: times_linear_eq)

lemma hd_times_linear: "p \<noteq> [] \<Longrightarrow> hd (times_linear p a) = hd p"
  by (cases p) (simp_all add: times_linear_eq)

lemma generatorPolynomial_Suc:
  "generatorPolynomial (Suc d) = times_linear (generatorPolynomial d) (exponents field_init ! d)"
  by (simp add: generatorPolynomial_def)

lemma length_generatorPolynomial [simp]: "length (generatorPolynomial d) = Suc d"
  by (induction d) (simp_all add: generatorPolynomial_def)

lemma generatorPolynomial_not_Nil [simp]: "generatorPolynomial d \<noteq> []"
  using length_generatorPolynomial [of d] by fastforce

lemma hd_generatorPolynomial: "hd (generatorPolynomial d) = 1"
proof (induction d)
  case (Suc d)
  then show ?case by (simp add: generatorPolynomial_Suc hd_times_linear)
qed (simp add: generatorPolynomial_def)

abbreviation gf_eval :: "bytes \<Rightarrow> byte \<Rightarrow> byte" where
  "gf_eval \<equiv> poly_eval multiply"

lemma generatorPolynomial_root:
  "i < d \<Longrightarrow> d \<le> 255 \<Longrightarrow> gf_eval (generatorPolynomial d) (apow i) = 0"
proof (induction d)
  case (Suc d)
  have "gf_eval (generatorPolynomial (Suc d)) (apow i) =
      multiply (gf_eval (generatorPolynomial d) (apow i)) (apow i XOR apow d)"
    using Suc.prems by (simp add: generatorPolynomial_Suc times_linear_eq gf.ev_times_linear exponents_nth)
  then show ?case using Suc by (cases "i = d") auto
qed simp

lemma correction_step_eq:
  assumes "length r = n" "0 < n" "length g = Suc n"
  shows "correction_step g n r c = map2 (XOR) (tl r @ [0]) (map (\<lambda>h. multiply h (c XOR hd r)) (tl g))"
proof -
  obtain r0 rs where "r = r0 # rs" using assms by (cases r) auto
  moreover obtain g0 gs where "g = g0 # gs" using assms by (cases g) auto
  moreover have "(rs @ [x])[length rs := 0] = rs @ [0]" for x :: byte and rs by simp
  ultimately show ?thesis
    using assms
    by (intro list_eq_nthI) (auto simp: correction_step_def Let_def)
qed

lemma length_correction_step [simp]: "length (correction_step g n r c) = n"
  by (simp add: correction_step_def Let_def)

lemma length_foldl_correction:
  "length r = n \<Longrightarrow> length (foldl (correction_step g n) r data) = n"
  by (rule foldl_invariant) auto

lemma length_errorCorrection [simp]: "length (errorCorrection data n) = n"
  by (simp add: errorCorrection_def length_foldl_correction)

lemma errorCorrection_remainder:
  assumes "0 < n" "i < n" "n \<le> 255"
  shows "gf_eval (errorCorrection data n) (apow i) =
    multiply (gf_eval data (apow i)) (byte_pow multiply (apow i) n)"
proof (induction data rule: rev_induct)
  case Nil
  then show ?case by (simp add: errorCorrection_def gf.ev_replicate_zero gf.ev_Nil)
next
  case (snoc c data)
  let ?r = "errorCorrection data n" and ?g = "generatorPolynomial n"
  have "errorCorrection (data @ [c]) n = correction_step ?g n ?r c"
    by (simp add: errorCorrection_def)
  also have "\<dots> = map2 (XOR) (tl ?r @ [0]) (map (\<lambda>h. multiply h (c XOR hd ?r)) (tl ?g))"
    using assms by (intro correction_step_eq) auto
  finally show ?case
    using assms generatorPolynomial_root [of i n] gf.ev_division_step [of ?r n ?g "apow i" c]
    by (simp add: hd_generatorPolynomial snoc.IH gf.ev_snoc gf.mul_ac gf.mul_xor)
qed

text \<open>A block followed by its error correction is a codeword: every syndrome is zero.\<close>

lemma codeword_syndromes:
  assumes "i < n" "n \<le> 255"
  shows "gf_eval (data @ errorCorrection data n) (apow i) = 0"
  using assms errorCorrection_remainder [of n i data] by (simp add: gf.ev_append)

section \<open>The bit stream a writer holds\<close>

definition stream_bit :: "bytes \<Rightarrow> nat \<Rightarrow> bool" where
  "stream_bit bs i = bit (bs ! (i div 8)) (7 - i mod 8)"

definition stream_bits :: "bytes \<Rightarrow> nat \<Rightarrow> nat \<Rightarrow> bool list" where
  "stream_bits bs from n = map (\<lambda>k. stream_bit bs (from + k)) [0..<n]"

definition writer_bits :: "bit_writer \<Rightarrow> bool list" where
  "writer_bits w = map (stream_bit (wbytes w)) [0..<wcount w]"

definition writer_ok :: "bit_writer \<Rightarrow> bool" where
  "writer_ok w \<longleftrightarrow> length (wbytes w) = (wcount w + 7) div 8 \<and>
     (\<forall>i. wcount w \<le> i \<longrightarrow> i < 8 * length (wbytes w) \<longrightarrow> \<not> stream_bit (wbytes w) i)"

definition int_bits :: "int \<Rightarrow> nat \<Rightarrow> bool list" where
  "int_bits v n = map (bit v) (rev [0..<n])"

lemma bit_drop_and_one: "drop_bit i (v :: int) AND 1 = 1 \<longleftrightarrow> bit v i"
  by (simp add: and_one_eq bit_iff_odd_drop_bit odd_iff_mod_2_eq_one)

lemma bit_0x80: "bit (0x80 :: byte) k \<longleftrightarrow> k = 7"
proof -
  have "bit (push_bit 7 (1 :: byte)) k \<longleftrightarrow> k = 7"
    by (simp only: bit_push_bit_iff bit_1_iff) auto
  moreover have "push_bit 7 (1 :: byte) = 0x80" by simp
  ultimately show ?thesis by (simp only:)
qed

lemma bit_0x80_shift: "r < 8 \<Longrightarrow> j < 8 \<Longrightarrow> bit (drop_bit r (0x80 :: byte)) j \<longleftrightarrow> j = 7 - r"
  by (simp only: bit_drop_bit_eq o_apply bit_0x80) linarith

text \<open>One bit written: the stream grows by it, and stays zero beyond the count.\<close>

lemma stream_bit_append: "i < 8 * length bs \<Longrightarrow> stream_bit (bs @ cs) i = stream_bit bs i"
  by (simp add: stream_bit_def nth_append div_less_iff_less_mult mult.commute)

lemma write_bit_stream:
  assumes "writer_ok w" "i < 8 * length (wbytes (write_bit v w k))"
  shows "stream_bit (wbytes (write_bit v w k)) i =
    (if i = wcount w then bit v k else if i < wcount w then stream_bit (wbytes w) i else False)"
proof -
  define c where "c = wcount w"
  define bs where "bs = (if c mod 8 = 0 then wbytes w @ [0] else wbytes w)"
  have lenw: "length (wbytes w) = (c + 7) div 8"
    using assms(1) by (simp add: writer_ok_def c_def)
  have len: "length bs = (c + 8) div 8"
    using bytes_needed_Suc [of c] lenw by (simp add: bs_def)
  have last: "length bs - 1 = c div 8" using len by simp
  have cl: "c < 8 * length bs" using len by (simp add: dividend_less_times_div)
  have old: "stream_bit bs j = (j < c \<and> stream_bit (wbytes w) j)" if "j < 8 * length bs" for j
  proof (cases "j < 8 * length (wbytes w)")
    case True
    then have "stream_bit bs j = stream_bit (wbytes w) j" by (simp add: bs_def stream_bit_append)
    moreover have "\<not> stream_bit (wbytes w) j" if "c \<le> j"
      using assms(1) True that by (auto simp: writer_ok_def c_def)
    ultimately show ?thesis by (meson not_le)
  next
    case False
    then have "c mod 8 = 0" using that by (auto simp: bs_def split: if_splits)
    moreover have "j div 8 = length (wbytes w)"
      using False that calculation by (intro div_nat_eqI) (auto simp: bs_def)
    moreover have "c \<le> 8 * length (wbytes w)" using lenw by auto
    ultimately show ?thesis using False by (simp add: stream_bit_def bs_def)
  qed
  have wb: "wbytes (write_bit v w k) = (if bit v k
      then bs[c div 8 := bs ! (c div 8) OR drop_bit (c mod 8) 0x80] else bs)"
    by (simp add: write_bit_def Let_def bs_def [symmetric] c_def [symmetric] bit_drop_and_one last [simplified])
  have i: "i < 8 * length bs" using assms(2) wb by (auto split: if_splits)
  have "stream_bit (bs[c div 8 := bs ! (c div 8) OR drop_bit (c mod 8) 0x80]) i =
      (stream_bit bs i \<or> i = c)"
  proof (cases "i div 8 = c div 8")
    case True
    moreover have "c div 8 < length bs" using len by simp
    moreover have "7 - i mod 8 = 7 - c mod 8 \<longleftrightarrow> i = c"
    proof -
      have "i mod 8 < 8" "c mod 8 < 8" by simp_all
      then have "7 - i mod 8 = 7 - c mod 8 \<longleftrightarrow> i mod 8 = c mod 8" by linarith
      also have "\<dots> \<longleftrightarrow> i = c" using True by (metis mult_div_mod_eq)
      finally show ?thesis .
    qed
    ultimately show ?thesis by (simp add: stream_bit_def bit_or_iff bit_0x80_shift)
  next
    case False
    then have "i \<noteq> c" by auto
    with False show ?thesis by (simp add: stream_bit_def)
  qed
  then show ?thesis
    using old [OF i] by (auto simp: wb c_def)
qed

lemma write_bit_ok: "writer_ok w \<Longrightarrow> writer_ok (write_bit v w k)"
proof -
  assume ok: "writer_ok w"
  then have "length (wbytes (write_bit v w k)) = (wcount w + 8) div 8"
    using bytes_needed_Suc [of "wcount w"] by (simp add: length_write_bit writer_ok_def)
  then show ?thesis
    using ok by (auto simp: writer_ok_def [of "write_bit v w k"] write_bit_stream)
qed

lemma write_bit_bits: "writer_ok w \<Longrightarrow> writer_bits (write_bit v w k) = writer_bits w @ [bit v k]"
proof -
  assume ok: "writer_ok w"
  then have "length (wbytes (write_bit v w k)) = (wcount w + 8) div 8"
    using bytes_needed_Suc [of "wcount w"] by (simp add: length_write_bit writer_ok_def)
  then have "wcount w < 8 * length (wbytes (write_bit v w k))"
    by (simp add: dividend_less_times_div)
  then show ?thesis
    using ok by (simp add: writer_bits_def write_bit_stream)
qed

lemma foldl_write_bit_ok:
  "writer_ok w \<Longrightarrow> writer_ok (foldl (write_bit v) w ks) \<and>
     writer_bits (foldl (write_bit v) w ks) = writer_bits w @ map (bit v) ks"
  by (induction ks arbitrary: w) (auto simp: write_bit_ok write_bit_bits)

lemma write_ok [intro, simp]: "writer_ok w \<Longrightarrow> writer_ok (bw_write w v n)"
  by (simp add: bw_write_def foldl_write_bit_ok)

lemma write_bits [simp]:
  "writer_ok w \<Longrightarrow> writer_bits (bw_write w v n) = writer_bits w @ int_bits v n"
  by (simp add: bw_write_def foldl_write_bit_ok int_bits_def)

lemma empty_writer_ok [simp]: "writer_ok empty_writer" "writer_bits empty_writer = []"
  by (simp_all add: writer_ok_def writer_bits_def empty_writer_def)

section \<open>Reading the data codewords back\<close>

lemma length_int_bits [simp, len_simps]: "length (int_bits v n) = n"
  by (simp add: int_bits_def)

lemma int_bits_Suc: "int_bits v (Suc n) = bit v n # int_bits v n"
  by (simp add: int_bits_def)

definition bits_value :: "bool list \<Rightarrow> nat" where
  "bits_value bs = foldl (\<lambda>a b. 2 * a + (if b then 1 else 0)) 0 bs"

lemma foldl_bits_value:
  "foldl (\<lambda>a b. 2 * a + (if b then 1 else 0)) a bs = a * 2 ^ length bs + bits_value bs"
proof (induction bs arbitrary: a)
  case (Cons b bs)
  let ?f = "\<lambda>a b. 2 * a + (if b then 1 else 0) :: nat"
  have step: "foldl ?f a (b # bs) = (2 * a + (if b then 1 else 0)) * 2 ^ length bs + bits_value bs"
    for a by (simp only: foldl_Cons Cons.IH)
  have "bits_value (b # bs) = (2 * 0 + (if b then 1 else 0)) * 2 ^ length bs + bits_value bs"
    unfolding bits_value_def [of "b # bs"] by (rule step)
  then show ?case unfolding step by (simp add: algebra_simps)
qed (simp add: bits_value_def)

lemma bits_value_Cons: "bits_value (b # bs) = (if b then 2 ^ length bs else 0) + bits_value bs"
  using foldl_bits_value [of "if b then 1 else 0" bs] by (simp add: bits_value_def)

lemma bits_value_int_bits: "int (bits_value (int_bits v n)) = take_bit n v"
proof (induction n)
  case (Suc n)
  then show ?case
    by (auto simp: int_bits_Suc bits_value_Cons take_bit_Suc_from_most)
qed (simp add: int_bits_def bits_value_def)

text \<open>
  What a reader of byte mode does with the codewords: four bits of mode, the length field,
  and then that many bytes.
\<close>

definition read_byte_mode :: "bytes \<Rightarrow> nat \<Rightarrow> bytes option" where
  "read_byte_mode codewords version =
     (if bits_value (stream_bits codewords 0 4) = 4
      then Some (map (\<lambda>k. of_nat (bits_value
             (stream_bits codewords (4 + characterCountBits version + 8 * k) 8)))
             [0..<bits_value (stream_bits codewords 4 (characterCountBits version))])
      else None)"

lemma stream_bits_writer:
  "from + n \<le> wcount w \<Longrightarrow> stream_bits (wbytes w) from n = take n (drop from (writer_bits w))"
  by (intro list_eq_nthI) (auto simp: stream_bits_def writer_bits_def)

lemma length_writer_bits [simp]: "length (writer_bits w) = wcount w"
  by (simp add: writer_bits_def)

definition pad_bits :: "nat \<Rightarrow> nat \<Rightarrow> bool list" where
  "pad_bits pad n = concat (map (\<lambda>i. int_bits (if (pad + i) mod 2 = 0 then 0xec else 0x11) 8) [0..<n])"

lemma pad_bits_Suc:
  "pad_bits pad (Suc n) = int_bits (if pad mod 2 = 0 then 0xec else 0x11) 8 @ pad_bits (Suc pad) n"
  by (simp add: pad_bits_def upt_conv_Cons map_Suc_upt [symmetric] comp_def del: upt_Suc)

lemma length_pad_bits [simp]: "length (pad_bits pad n) = 8 * n"
  by (induction n arbitrary: pad) (simp_all add: pad_bits_Suc, simp add: pad_bits_def)

lemma pad_codewords_result:
  assumes "writer_ok w" "length (wbytes w) \<le> cap"
  shows "writer_ok (pad_codewords cap pad w) \<and> length (wbytes (pad_codewords cap pad w)) = cap \<and>
    writer_bits (pad_codewords cap pad w) =
      writer_bits w @ pad_bits pad (cap - length (wbytes w))"
  using assms
proof (induction cap pad w rule: pad_codewords.induct)
  case (1 cap pad w)
  show ?case
  proof (cases "length (wbytes w) < cap")
    case True
    then have "cap - length (wbytes w) = Suc (cap - Suc (length (wbytes w)))" by simp
    with 1 True show ?thesis
      by (simp add: pad_codewords.simps [of cap pad w] pad_bits_Suc)
  next
    case False
    with 1 show ?thesis by (simp add: pad_codewords.simps [of cap pad w] pad_bits_def)
  qed
qed

lemma foldl_write_bytes:
  "writer_ok w \<Longrightarrow> writer_ok (foldl (\<lambda>w b. bw_write w (uint b) 8) w data)"
  "writer_ok w \<Longrightarrow> writer_bits (foldl (\<lambda>w b. bw_write w (uint b) 8) w data) =
      writer_bits w @ concat (map (\<lambda>b. int_bits (uint b) 8) data)"
  by (induction data arbitrary: w) auto

definition header_bits :: "bytes \<Rightarrow> nat \<Rightarrow> bool list" where
  "header_bits data version = int_bits 4 4 @
     int_bits (int (length data)) (characterCountBits version) @
     concat (map (\<lambda>b. int_bits (uint b) 8) data)"

lemma length_concat_bytes: "length (concat (map (\<lambda>b. int_bits (uint b) 8) data)) = 8 * length data"
  by (induction data) simp_all

lemma length_header_bits:
  "length (header_bits data version) = 4 + characterCountBits version + 8 * length data"
  by (simp add: header_bits_def length_concat_bytes)

text \<open>The whole stream of data codewords: header, terminator, alignment, padding.\<close>

lemma dataCodewords_writer:
  assumes fits: "4 + characterCountBits version + 8 * length data \<le> spec_dataCodewords spec * 8"
  obtains w rest where "dataCodewords data version spec = wbytes w" "writer_ok w"
    "length (wbytes w) = spec_dataCodewords spec" "writer_bits w = header_bits data version @ rest"
    "wcount w = 8 * spec_dataCodewords spec"
proof -
  define cap where "cap = spec_dataCodewords spec"
  define w3 where "w3 = foldl (\<lambda>w b. bw_write w (uint b) 8)
    (bw_write (bw_write empty_writer 4 4) (int (length data)) (characterCountBits version)) data"
  have w3: "writer_ok w3" "writer_bits w3 = header_bits data version"
    by (simp_all add: w3_def header_bits_def foldl_write_bytes)
  then have c3: "wcount w3 = 4 + characterCountBits version + 8 * length data"
    using length_writer_bits [of w3] by (simp add: length_header_bits)
  define w4 where "w4 = bw_write w3 0 (min 4 (cap * 8 - wcount w3))"
  define w5 where "w5 = (if wcount w4 mod 8 \<noteq> 0 then bw_write w4 0 (8 - wcount w4 mod 8) else w4)"
  have w5: "writer_ok w5" "\<exists>z. writer_bits w5 = header_bits data version @ z"
    using w3 by (auto simp: w5_def w4_def)
  have c4: "wcount w4 \<le> 8 * cap" using fits c3 by (simp add: w4_def cap_def)
  have m5: "wcount w5 mod 8 = 0"
  proof (cases "wcount w4 mod 8 = 0")
    case False
    define q r where "q = wcount w4 div 8" and "r = wcount w4 mod 8"
    have "wcount w4 = 8 * q + r" "r < 8" by (simp_all add: q_def r_def)
    then have "wcount w4 + (8 - r) = 8 * (q + 1)" by simp
    then have "wcount w4 + (8 - wcount w4 mod 8) = 8 * (q + 1)" by (simp only: r_def)
    then show ?thesis using False by (simp only: w5_def wcount_write if_True not_False_eq_True) simp
  qed (simp add: w5_def)
  have "wcount w5 \<le> 8 * cap"
  proof (cases "wcount w4 mod 8 = 0")
    case False
    define q where "q = wcount w4 div 8"
    have "wcount w4 = 8 * q + wcount w4 mod 8" by (simp add: q_def)
    moreover have "q < cap" using c4 False calculation by linarith
    ultimately show ?thesis using False by (simp add: w5_def)
  qed (use c4 in \<open>simp add: w5_def\<close>)
  then have l5: "length (wbytes w5) \<le> cap"
    using w5(1) m5 by (auto simp: writer_ok_def)
  let ?w = "pad_codewords cap 0 w5"
  have res: "writer_ok ?w" "length (wbytes ?w) = cap"
    "writer_bits ?w = writer_bits w5 @ pad_bits 0 (cap - length (wbytes w5))"
    using pad_codewords_result [OF w5(1) l5, of 0] by auto
  have "wcount ?w = wcount w5 + 8 * (cap - length (wbytes w5))"
    using arg_cong [OF res(3), of length] by simp
  also have "wcount w5 = 8 * length (wbytes w5)"
    using w5(1) m5 by (auto simp: writer_ok_def)
  finally have "wcount ?w = 8 * cap" using l5 by simp
  moreover have "dataCodewords data version spec = wbytes ?w"
    by (simp add: dataCodewords_def Let_def w3_def w4_def w5_def cap_def)
  moreover obtain z where "writer_bits w5 = header_bits data version @ z" using w5(2) by blast
  ultimately show ?thesis using res that [of ?w] by (simp add: cap_def)
qed

lemma take_drop_concat_bytes:
  "k < length data \<Longrightarrow>
   take 8 (drop (8 * k) (concat (map (\<lambda>b. int_bits (uint b) 8) data) @ rest)) = int_bits (uint (data ! k)) 8"
proof (induction data arbitrary: k)
  case (Cons b data)
  then show ?case by (cases k) simp_all
qed simp

lemma take_drop_header:
  "take 4 (drop 0 (header_bits data version @ rest)) = int_bits 4 4"
  "take (characterCountBits version) (drop 4 (header_bits data version @ rest)) =
     int_bits (int (length data)) (characterCountBits version)"
  "k < length data \<Longrightarrow>
     take 8 (drop (4 + characterCountBits version + 8 * k) (header_bits data version @ rest)) =
       int_bits (uint (data ! k)) 8"
  using take_drop_concat_bytes [of k data rest] by (simp_all add: header_bits_def add.assoc)

lemma read_byte_mode_dataCodewords:
  assumes fits: "4 + characterCountBits version + 8 * length data \<le> spec_dataCodewords spec * 8"
    and small: "length data < 2 ^ characterCountBits version"
  shows "read_byte_mode (dataCodewords data version spec) version = Some data"
proof -
  let ?n = "characterCountBits version"
  obtain w rest where w: "dataCodewords data version spec = wbytes w"
    "writer_bits w = header_bits data version @ rest" "wcount w = 8 * spec_dataCodewords spec"
    using dataCodewords_writer [OF fits] by metis
  have mode: "stream_bits (wbytes w) 0 4 = int_bits 4 4"
    using fits by (subst stream_bits_writer) (simp_all add: w(2,3) take_drop_header(1) [simplified])
  have count: "stream_bits (wbytes w) 4 ?n = int_bits (int (length data)) ?n"
  proof -
    have "4 + ?n \<le> wcount w" using fits by (simp add: w(3))
    then show ?thesis by (simp only: stream_bits_writer w(2) take_drop_header(2))
  qed
  have item: "stream_bits (wbytes w) (4 + ?n + 8 * k) 8 = int_bits (uint (data ! k)) 8"
    if "k < length data" for k
  proof -
    have "4 + ?n + 8 * k + 8 \<le> wcount w" using fits that by (simp add: w(3))
    then show ?thesis by (simp only: stream_bits_writer w(2) take_drop_header(3) [OF that])
  qed
  have four: "int (bits_value (int_bits 4 4)) = int 4"
    by (simp only: bits_value_int_bits) simp
  have len: "int (bits_value (int_bits (int (length data)) ?n)) = int (length data)"
    using small by (simp only: bits_value_int_bits) (simp add: take_bit_int_eq_self_iff flip: of_nat_power)
  have byte: "of_nat (bits_value (int_bits (uint b) 8)) = b" for b :: byte
  proof -
    have "uint b < 2 ^ LENGTH(8)" by (rule unsigned_less)
    then have "take_bit 8 (uint b) = uint b" by (intro take_bit_int_eq_self) simp_all
    then have "int (bits_value (int_bits (uint b) 8)) = uint b"
      by (simp only: bits_value_int_bits)
    then show ?thesis by (metis of_int_of_nat_eq word_of_int_uint)
  qed
  show ?thesis
    unfolding read_byte_mode_def w(1)
    using four len by (auto simp: mode count item byte of_nat_eq_iff intro: list_eq_nthI)
qed

section \<open>The table of blocks\<close>

definition spec_ok :: "nat \<Rightarrow> block_spec \<Rightarrow> bool" where
  "spec_ok version spec \<longleftrightarrow>
     0 < ecPerBlock spec \<and> ecPerBlock spec \<le> 255 \<and> 0 < group1Blocks spec \<and> 0 < group1Data spec \<and>
     (if group2Blocks spec = 0 then group2Data spec = 0 else group2Data spec = Suc (group1Data spec)) \<and>
     spec_totalCodewords spec = totalCodewords ! version \<and>
     spec_dataCodewords spec * 8 < 2 ^ characterCountBits version * 8"

lemma version_cases:
  "1 \<le> v \<Longrightarrow> v \<le> MaxVersion \<Longrightarrow>
     v = 1 \<or> v = 2 \<or> v = 3 \<or> v = 4 \<or> v = 5 \<or> v = 6 \<or> v = 7 \<or> v = 8 \<or> v = 9 \<or> v = 10"
  unfolding MaxVersion_def by presburger

lemma level_cases: "level_valid l \<Longrightarrow> l = 0 \<or> l = 1 \<or> l = 2 \<or> l = 3"
  unfolding level_valid_def LevelL_def LevelH_def by linarith

lemma spec_of_ok:
  assumes "1 \<le> version" "version \<le> MaxVersion" "level_valid level"
  shows "spec_ok version (spec_of version level)"
  using version_cases [OF assms(1,2)] level_cases [OF assms(3)]
  by (elim disjE)
    (simp_all add: spec_ok_def spec_of_def blockSpecs_def bspec_def
      spec_totalCodewords_def spec_dataCodewords_def totalCodewords_def characterCountBits_def)

section \<open>Where interleaving puts a codeword\<close>

lemma nth_concat_rows:
  assumes "i < n" "j < m" "\<And>i. length (f i) = m"
  shows "concat (map f [0..<n]) ! (i * m + j) = f i ! j"
  using assms(1)
proof (induction n)
  case (Suc n)
  have len: "length (concat (map f [0..<n])) = n * m"
    using assms(3) by (simp add: length_concat comp_def sum_list_triv)
  show ?case
  proof (cases "i = n")
    case True
    then show ?thesis by (simp add: nth_append len)
  next
    case False
    then have "i < n" using Suc.prems by simp
    then have "i * m + j < n * m" using assms(2)
      by (metis add.commute add_less_le_mono le_refl less_le_trans mult_Suc mult_le_mono1 not_less_eq_eq
          Suc_leI nat_add_left_cancel_less)
    then show ?thesis using Suc.IH \<open>i < n\<close> by (simp add: nth_append len)
  qed
qed simp

lemma length_concat_rows:
  assumes "\<And>i. i < n \<Longrightarrow> length (f i) = m"
  shows "length (concat (map f [0..<n])) = n * m"
  using assms by (induction n) auto

lemma length_split_blocks [simp]: "length (split_blocks data offset n m) = m"
  by (induction data offset n m rule: split_blocks.induct) auto

lemma nth_split_blocks:
  "j < m \<Longrightarrow> split_blocks data offset n m ! j = take n (drop (offset + j * n) data)"
proof (induction m arbitrary: offset j)
  case (Suc m)
  then show ?case by (cases j) (simp_all add: add.assoc)
qed simp

lemma concat_split_blocks: "concat (split_blocks data offset n m) = take (m * n) (drop offset data)"
  by (induction m arbitrary: offset) (simp_all add: take_add add.commute)

lemma length_blocks_of [simp]: "length (blocks_of data spec) = group1Blocks spec + group2Blocks spec"
  by (simp add: blocks_of_def)

lemma concat_blocks_of:
  "length data = spec_dataCodewords spec \<Longrightarrow> concat (blocks_of data spec) = data"
  by (simp add: blocks_of_def concat_split_blocks spec_dataCodewords_def)

lemma length_block:
  assumes "length data = spec_dataCodewords spec" "j < group1Blocks spec + group2Blocks spec"
  shows "length (blocks_of data spec ! j) =
    (if j < group1Blocks spec then group1Data spec else group2Data spec)"
proof (cases "j < group1Blocks spec")
  case True
  have "Suc j * group1Data spec \<le> group1Blocks spec * group1Data spec"
    using True by (intro mult_le_mono1) simp
  with True assms show ?thesis
    by (simp add: blocks_of_def nth_append nth_split_blocks spec_dataCodewords_def)
next
  case False
  define k where "k = j - group1Blocks spec"
  have k: "k < group2Blocks spec" using False assms by (simp add: k_def)
  then have "Suc k * group2Data spec \<le> group2Blocks spec * group2Data spec"
    by (intro mult_le_mono1) simp
  with False assms show ?thesis
    by (simp add: blocks_of_def nth_append nth_split_blocks spec_dataCodewords_def k k_def [symmetric])
qed

text \<open>The rows: codeword \<open>i\<close> of every block that has one, in block order.\<close>

lemma interleave_rows:
  assumes ok: "spec_ok version spec" and len: "length data = spec_dataCodewords spec"
  defines "blocks \<equiv> blocks_of data spec"
  shows "interleave data spec =
    concat (map (\<lambda>i. map (\<lambda>block. block ! i) blocks) [0..<group1Data spec]) @
    map (\<lambda>block. block ! group1Data spec) (drop (group1Blocks spec) blocks) @
    concat (map (\<lambda>i. map (\<lambda>block. errorCorrection block (ecPerBlock spec) ! i) blocks)
      [0..<ecPerBlock spec])"
proof -
  let ?row = "\<lambda>i. concat (map (\<lambda>block. if i < length block then [block ! i] else []) blocks)"
  let ?g1 = "group1Data spec" and ?b1 = "group1Blocks spec"
  have len_block: "length (blocks ! j) = (if j < ?b1 then ?g1 else group2Data spec)"
    if "j < length blocks" for j
    using length_block [OF len, of j] that by (simp add: blocks_def)
  have pick_all: "concat (map (\<lambda>block. if i < length block then [block ! i] else []) bs) =
      map (\<lambda>block. block ! i) bs" if "\<forall>b \<in> set bs. i < length b" for i and bs :: "bytes list"
    using that by (induction bs) auto
  have pick_none: "concat (map (\<lambda>block. if i < length block then [block ! i] else []) bs) = []"
    if "\<forall>b \<in> set bs. length b \<le> i" for i and bs :: "bytes list"
    using that by (induction bs) auto
  have g2: "group2Data spec = (if group2Blocks spec = 0 then 0 else Suc ?g1)"
    using ok by (auto simp: spec_ok_def split: if_splits)
  have all: "?row i = map (\<lambda>block. block ! i) blocks" if "i < ?g1" for i
    using that g2 len_block by (intro pick_all) (auto simp: in_set_conv_nth blocks_def split: if_splits)
  have short: "\<forall>b \<in> set (take ?b1 blocks). length b \<le> ?g1"
    using len_block by (auto simp: in_set_conv_nth)
  have rest: "concat (map ?row [?g1..<max ?g1 (group2Data spec)]) =
      map (\<lambda>block. block ! ?g1) (drop ?b1 blocks)"
  proof (cases "group2Blocks spec = 0")
    case False
    have "\<forall>b \<in> set (drop ?b1 blocks). ?g1 < length b"
      using len_block g2 False by (auto simp: in_set_conv_nth)
    then have "?row ?g1 = map (\<lambda>block. block ! ?g1) (drop ?b1 blocks)"
      using pick_none [OF short] pick_all [of "drop ?b1 blocks" ?g1]
      by (metis (no_types, lifting) append_Nil append_take_drop_id concat_append map_append)
    then show ?thesis using False g2 by simp
  qed (use g2 in \<open>simp add: blocks_def\<close>)
  have "[0..<max ?g1 (group2Data spec)] = [0..<?g1] @ [?g1..<max ?g1 (group2Data spec)]"
    using upt_add_eq_append [of 0 ?g1 "max ?g1 (group2Data spec) - ?g1"] by simp
  then have "concat (map ?row [0..<max ?g1 (group2Data spec)]) =
      concat (map ?row [0..<?g1]) @ map (\<lambda>block. block ! ?g1) (drop ?b1 blocks)"
    using rest by simp
  also have "map ?row [0..<?g1] = map (\<lambda>i. map (\<lambda>block. block ! i) blocks) [0..<?g1]"
    using all by simp
  finally show ?thesis
    by (simp add: interleave_def Let_def blocks_def [symmetric] comp_def)
qed

lemma length_interleave:
  assumes "spec_ok version spec" "length data = spec_dataCodewords spec"
  shows "length (interleave data spec) = spec_totalCodewords spec"
proof -
  have "group2Blocks spec * group2Data spec = group2Blocks spec * group1Data spec + group2Blocks spec"
    using assms(1) by (auto simp: spec_ok_def split: if_splits)
  then show ?thesis
    by (simp add: interleave_rows [OF assms] length_concat_rows spec_totalCodewords_def
        spec_dataCodewords_def algebra_simps)
qed

text \<open>Reading the interleaved sequence back, block by block.\<close>

definition deinterleave :: "bytes \<Rightarrow> block_spec \<Rightarrow> bytes" where
  "deinterleave codewords spec =
     (let nb = group1Blocks spec + group2Blocks spec; g1 = group1Data spec
      in concat (map (\<lambda>j. map (\<lambda>i. codewords ! (i * nb + j)) [0..<g1] @
           (if j < group1Blocks spec then []
            else [codewords ! (g1 * nb + (j - group1Blocks spec))])) [0..<nb]))"

lemma interleave_nth:
  assumes ok: "spec_ok version spec" and len: "length data = spec_dataCodewords spec"
    and j: "j < group1Blocks spec + group2Blocks spec"
  shows "i < group1Data spec \<Longrightarrow>
      interleave data spec ! (i * (group1Blocks spec + group2Blocks spec) + j) = blocks_of data spec ! j ! i"
    and "group1Blocks spec \<le> j \<Longrightarrow>
      interleave data spec ! (group1Data spec * (group1Blocks spec + group2Blocks spec) + (j - group1Blocks spec)) =
        blocks_of data spec ! j ! group1Data spec"
    and "i < ecPerBlock spec \<Longrightarrow>
      interleave data spec ! (spec_dataCodewords spec + i * (group1Blocks spec + group2Blocks spec) + j) =
        errorCorrection (blocks_of data spec ! j) (ecPerBlock spec) ! i"
proof -
  let ?nb = "group1Blocks spec + group2Blocks spec" and ?g1 = "group1Data spec"
  let ?blocks = "blocks_of data spec"
  let ?A = "concat (map (\<lambda>i. map (\<lambda>block. block ! i) ?blocks) [0..<?g1])"
  have lenA: "length ?A = ?g1 * ?nb" by (simp add: length_concat_rows)
  have A: "?A ! (i * ?nb + j) = ?blocks ! j ! i" if "i < ?g1" for i
    using nth_concat_rows [of i ?g1 j ?nb "\<lambda>i. map (\<lambda>block. block ! i) ?blocks"] that j by simp
  have inA: "i * ?nb + j < length ?A" if "i < ?g1" for i
  proof -
    have "Suc i * ?nb \<le> ?g1 * ?nb" using that by (intro mult_le_mono1) simp
    then show ?thesis using j lenA by simp
  qed
  show "interleave data spec ! (i * ?nb + j) = ?blocks ! j ! i" if "i < ?g1"
    using A [OF that] inA [OF that] by (simp add: interleave_rows [OF ok len] nth_append)
  show "interleave data spec ! (?g1 * ?nb + (j - group1Blocks spec)) = ?blocks ! j ! ?g1"
    if "group1Blocks spec \<le> j"
  proof -
    let ?k = "j - group1Blocks spec"
    let ?B = "map (\<lambda>block. block ! ?g1) (drop (group1Blocks spec) ?blocks)"
    have "?k < length ?B" "?B ! ?k = ?blocks ! j ! ?g1" using that j by auto
    moreover have "(?A @ ?B @ C) ! (?g1 * ?nb + k) = ?B ! k" if "k < length ?B" for k C
      using that by (simp only: nth_append lenA) simp
    ultimately show ?thesis unfolding interleave_rows [OF ok len] by simp
  qed
  show "interleave data spec ! (spec_dataCodewords spec + i * ?nb + j) =
      errorCorrection (?blocks ! j) (ecPerBlock spec) ! i" if i: "i < ecPerBlock spec"
  proof -
    let ?B = "map (\<lambda>block. block ! ?g1) (drop (group1Blocks spec) ?blocks)"
    have "group2Blocks spec * group2Data spec = group2Blocks spec * ?g1 + group2Blocks spec"
      using ok by (auto simp: spec_ok_def split: if_splits)
    then have "length (?A @ ?B) = spec_dataCodewords spec"
      by (simp add: lenA spec_dataCodewords_def algebra_simps)
    then show ?thesis
      using nth_concat_rows [of i "ecPerBlock spec" j ?nb
          "\<lambda>i. map (\<lambda>block. errorCorrection block (ecPerBlock spec) ! i) ?blocks"] i j
      by (simp add: interleave_rows [OF ok len] nth_append add.assoc del: append_assoc flip: append_assoc)
  qed
qed

lemma deinterleave_interleave:
  assumes ok: "spec_ok version spec" and len: "length data = spec_dataCodewords spec"
  shows "deinterleave (interleave data spec) spec = data"
proof -
  let ?nb = "group1Blocks spec + group2Blocks spec" and ?g1 = "group1Data spec"
  let ?blocks = "blocks_of data spec"
  have "map (\<lambda>i. interleave data spec ! (i * ?nb + j)) [0..<?g1] @
      (if j < group1Blocks spec then []
       else [interleave data spec ! (?g1 * ?nb + (j - group1Blocks spec))]) = ?blocks ! j"
    if j: "j < ?nb" for j
  proof -
    have "length (?blocks ! j) = ?g1 + (if j < group1Blocks spec then 0 else 1)"
      using length_block [OF len j] ok j by (auto simp: spec_ok_def split: if_splits)
    then show ?thesis
      using interleave_nth [OF ok len j]
      by (intro list_eq_nthI) (auto simp: nth_append less_Suc_eq)
  qed
  then have "deinterleave (interleave data spec) spec = concat (map (\<lambda>j. ?blocks ! j) [0..<?nb])"
    unfolding deinterleave_def Let_def by (intro arg_cong [of _ _ concat] map_cong) auto
  also have "\<dots> = concat ?blocks"
    by (metis length_blocks_of map_nth)
  finally show ?thesis using concat_blocks_of [OF len] by simp
qed

section \<open>The version chosen\<close>

lemma chooseVersion_Inr:
  assumes "chooseVersion data level = Inr version"
  shows "level_valid level" "1 \<le> version" "version \<le> MaxVersion"
    "4 + characterCountBits version + 8 * length data \<le> spec_dataCodewords (spec_of version level) * 8"
    "\<And>v. 1 \<le> v \<Longrightarrow> v < version \<Longrightarrow>
       spec_dataCodewords (spec_of v level) * 8 < 4 + characterCountBits v + 8 * length data"
proof -
  let ?P = "\<lambda>version. 4 + characterCountBits version + 8 * length data
                \<le> spec_dataCodewords (spec_of version level) * 8"
  show valid: "level_valid level" using assms by (auto simp: chooseVersion_def split: if_splits)
  have "List.find ?P [1..<Suc MaxVersion] = Some version"
    using assms valid by (auto simp: chooseVersion_def simp del: upt_Suc split: option.splits)
  then obtain i where i: "i < length [1..<Suc MaxVersion]" "[1..<Suc MaxVersion] ! i = version"
    "?P version" "\<forall>j < i. \<not> ?P ([1..<Suc MaxVersion] ! j)"
    unfolding find_Some_iff by metis
  then show "1 \<le> version" "version \<le> MaxVersion" "?P version" by (auto simp del: upt_Suc)
  show "spec_dataCodewords (spec_of v level) * 8 < 4 + characterCountBits v + 8 * length data"
    if "1 \<le> v" "v < version" for v
    using i(1,2) i(4) [rule_format, of "v - 1"] that by (simp add: not_le del: upt_Suc)
qed

lemma chooseVersion_length:
  assumes "chooseVersion data level = Inr version"
  shows "length data < 2 ^ characterCountBits version"
proof -
  have "spec_ok version (spec_of version level)"
    using chooseVersion_Inr [OF assms] by (intro spec_of_ok)
  then have "spec_dataCodewords (spec_of version level) < 2 ^ characterCountBits version"
    by (simp add: spec_ok_def)
  then show ?thesis using chooseVersion_Inr(4) [OF assms] by linarith
qed

lemma length_dataCodewords:
  assumes "chooseVersion data level = Inr version"
  shows "length (dataCodewords data version (spec_of version level)) =
    spec_dataCodewords (spec_of version level)"
  using dataCodewords_writer [OF chooseVersion_Inr(4) [OF assms]] by metis

end
