(* ===== verification/QR_Symbol.thy ===== *)
theory QR_Symbol
  imports QR_Codewords
begin

text \<open>
  The symbol: \<open>src/pkg/encoding/qr/qr.go\<close> from the type \<open>symbol\<close> on, with \<open>Code\<close>,
  \<open>Encode\<close> and \<open>encodeWithMask\<close>. Modules are drawn by index into a flat list, row by row,
  as the code does; a second list marks the function modules that data and masks leave alone.
  The lemmas give every drawing operation as a list of cells painted, the codeword placement
  as a round trip along the zigzag, the mask as an involution on the data modules, and the
  mask choice of \<open>Encode\<close> as a minimum over the eight symbols \<open>encodeWithMask\<close> produces.
\<close>

section \<open>Modules\<close>

record symbol =
  sversion :: nat
  slevel :: Level
  ssize :: nat
  dark :: "bool list"
  func :: "bool list"

record code =
  cVersion :: nat
  cLevel :: Level
  cMask :: nat
  cSize :: nat
  cdark :: "bool list"

definition set_module :: "symbol \<Rightarrow> nat \<Rightarrow> nat \<Rightarrow> bool \<Rightarrow> symbol" where
  "set_module s x y d = s\<lparr>dark := (dark s)[y * ssize s + x := d]\<rparr>"

definition setFunction :: "symbol \<Rightarrow> nat \<Rightarrow> nat \<Rightarrow> bool \<Rightarrow> symbol" where
  "setFunction s x y d =
     s\<lparr>dark := (dark s)[y * ssize s + x := d], func := (func s)[y * ssize s + x := True]\<rparr>"

definition isDark :: "symbol \<Rightarrow> nat \<Rightarrow> nat \<Rightarrow> bool" where
  "isDark s x y = dark s ! (y * ssize s + x)"

text \<open>\<open>Code.Dark\<close> and \<open>Code.Rows\<close> accept a nil receiver, here \<open>None\<close>.\<close>

definition Dark :: "code option \<Rightarrow> int \<Rightarrow> int \<Rightarrow> bool" where
  "Dark c x y = (case c of
     None \<Rightarrow> False
   | Some c \<Rightarrow>
       if x < 0 \<or> y < 0 \<or> x \<ge> int (cSize c) \<or> y \<ge> int (cSize c) then False
       else cdark c ! nat (y * int (cSize c) + x))"

definition Rows :: "code option \<Rightarrow> string list" where
  "Rows c = (case c of
     None \<Rightarrow> []
   | Some k \<Rightarrow> map (\<lambda>y. map (\<lambda>x. if Dark c (int x) (int y) then CHR ''#'' else CHR ''.'')
       [0..<cSize k]) [0..<cSize k])"

section \<open>Format and version information\<close>

definition formatInformation :: "Level \<Rightarrow> int \<Rightarrow> int" where
  "formatInformation level msk =
     (let data = push_bit 3 (formatBits level) OR msk;
          remainder = ((\<lambda>remainder. push_bit 1 remainder XOR drop_bit 9 remainder * 0x537) ^^ 10) data
      in (push_bit 10 data OR remainder) XOR 0x5412)"

definition versionInformation :: "nat \<Rightarrow> int" where
  "versionInformation version =
     (let remainder = ((\<lambda>remainder. push_bit 1 remainder XOR drop_bit 11 remainder * 0x1f25) ^^ 12)
            (int version)
      in push_bit 12 (int version) OR remainder)"

definition bit_at :: "int \<Rightarrow> nat \<Rightarrow> bool" where
  "bit_at val index \<longleftrightarrow> drop_bit index val AND 1 = 1"

section \<open>Function patterns\<close>

definition drawFinder :: "symbol \<Rightarrow> int \<Rightarrow> int \<Rightarrow> symbol" where
  "drawFinder s cx cy = foldl (\<lambda>s dy. foldl (\<lambda>s dx.
     let x = cx + dx; y = cy + dy
     in if x < 0 \<or> y < 0 \<or> x \<ge> int (ssize s) \<or> y \<ge> int (ssize s) then s
        else let distance = max \<bar>dx\<bar> \<bar>dy\<bar>
             in setFunction s (nat x) (nat y) (distance \<noteq> 2 \<and> distance \<noteq> 4)) s [-4..4]) s [-4..4]"

definition drawAlignment :: "symbol \<Rightarrow> int \<Rightarrow> int \<Rightarrow> symbol" where
  "drawAlignment s cx cy = foldl (\<lambda>s dy. foldl (\<lambda>s dx.
     setFunction s (nat (cx + dx)) (nat (cy + dy)) (max \<bar>dx\<bar> \<bar>dy\<bar> \<noteq> 1)) s [-2..2]) s [-2..2]"

definition drawFormat :: "symbol \<Rightarrow> nat \<Rightarrow> symbol" where
  "drawFormat s msk =
     (let bits = formatInformation (slevel s) (int msk);
          size = ssize s;
          s = foldl (\<lambda>s i. setFunction s 8 i (bit_at bits i)) s [0..<6];
          s = setFunction s 8 7 (bit_at bits 6);
          s = setFunction s 8 8 (bit_at bits 7);
          s = setFunction s 7 8 (bit_at bits 8);
          s = foldl (\<lambda>s i. setFunction s (14 - i) 8 (bit_at bits i)) s [9..<15];
          s = foldl (\<lambda>s i. setFunction s (size - 1 - i) 8 (bit_at bits i)) s [0..<8];
          s = foldl (\<lambda>s i. setFunction s 8 (size - 15 + i) (bit_at bits i)) s [8..<15]
      in setFunction s 8 (size - 8) True)"

definition drawVersion :: "symbol \<Rightarrow> symbol" where
  "drawVersion s =
     (if sversion s < 7 then s
      else let bits = versionInformation (sversion s)
           in foldl (\<lambda>s i. let a = ssize s - 11 + i mod 3; b = i div 3
                in setFunction (setFunction s a b (bit_at bits i)) b a (bit_at bits i)) s [0..<18])"

definition drawFunctionPatterns :: "symbol \<Rightarrow> symbol" where
  "drawFunctionPatterns s =
     (let size = ssize s;
          s = foldl (\<lambda>s i. setFunction (setFunction s 6 i (i mod 2 = 0)) i 6 (i mod 2 = 0)) s [0..<size];
          s = drawFinder s 3 3;
          s = drawFinder s (int size - 4) 3;
          s = drawFinder s 3 (int size - 4);
          centers = alignmentCenters ! sversion s;
          last = length centers - 1;
          s = foldl (\<lambda>s i. foldl (\<lambda>s j.
                if (i = 0 \<and> j = 0) \<or> (i = 0 \<and> j = last) \<or> (i = last \<and> j = 0) then s
                else drawAlignment s (int (centers ! i)) (int (centers ! j)))
              s [0..<length centers]) s [0..<length centers];
          s = drawFormat s 0
      in drawVersion s)"

section \<open>Codewords\<close>

text \<open>
  The columns visited: \<open>right\<close> counts down by two from the right edge, and the step that lands
  on the vertical timing pattern moves one further.
\<close>

fun column_list :: "nat \<Rightarrow> nat list" where
  "column_list right =
     (if right \<ge> 1
      then let right = (if right = 6 then 5 else right) in right # column_list (right - 2)
      else [])"

declare column_list.simps [simp del]

definition place_module :: "bytes \<Rightarrow> symbol \<times> nat \<Rightarrow> nat \<Rightarrow> nat \<Rightarrow> symbol \<times> nat" where
  "place_module codewords state x y =
     (case state of (s, index) \<Rightarrow>
        if func s ! (y * ssize s + x) \<or> index \<ge> length codewords * 8 then (s, index)
        else (set_module s x y (drop_bit (7 - index mod 8) (codewords ! (index div 8)) AND 1 = 1),
              Suc index))"

definition drawCodewords :: "symbol \<Rightarrow> bytes \<Rightarrow> symbol" where
  "drawCodewords s codewords =
     (let size = ssize s
      in fst (foldl (\<lambda>state right.
           let upward = ((right + 1) AND 2 = 0)
           in foldl (\<lambda>state vertical.
                let y = (if upward then size - 1 - vertical else vertical)
                in foldl (\<lambda>state j. place_module codewords state (right - j) y) state [0..<2])
              state [0..<size])
         (s, 0) (column_list (size - 1))))"

definition newSymbol :: "nat \<Rightarrow> Level \<Rightarrow> bytes \<Rightarrow> symbol" where
  "newSymbol version level data =
     (let size = 17 + 4 * version;
          s = \<lparr>sversion = version, slevel = level, ssize = size,
               dark = replicate (size * size) False, func = replicate (size * size) False\<rparr>;
          spec = spec_of version level;
          s = drawFunctionPatterns s
      in drawCodewords s (interleave (dataCodewords data version spec) spec))"

section \<open>Masks\<close>

definition masks :: "(nat \<Rightarrow> nat \<Rightarrow> bool) list" where
  "masks = [
     \<lambda>x y. (x + y) mod 2 = 0,
     \<lambda>x y. y mod 2 = 0,
     \<lambda>x y. x mod 3 = 0,
     \<lambda>x y. (x + y) mod 3 = 0,
     \<lambda>x y. (x div 3 + y div 2) mod 2 = 0,
     \<lambda>x y. x * y mod 2 + x * y mod 3 = 0,
     \<lambda>x y. (x * y mod 2 + x * y mod 3) mod 2 = 0,
     \<lambda>x y. ((x + y) mod 2 + x * y mod 3) mod 2 = 0]"

definition mask_module :: "(nat \<Rightarrow> nat \<Rightarrow> bool) \<Rightarrow> symbol \<Rightarrow> nat \<times> nat \<Rightarrow> symbol" where
  "mask_module condition s p =
     (case p of (y, x) \<Rightarrow>
        if \<not> func s ! (y * ssize s + x) \<and> condition x y
        then s\<lparr>dark := (dark s)[y * ssize s + x := \<not> dark s ! (y * ssize s + x)]\<rparr>
        else s)"

definition applyMask :: "symbol \<Rightarrow> nat \<Rightarrow> symbol" where
  "applyMask s msk =
     (let condition = masks ! msk
      in foldl (\<lambda>s y. foldl (\<lambda>s x. mask_module condition s (y, x)) s [0..<ssize s]) s [0..<ssize s])"

definition finish :: "symbol \<Rightarrow> nat \<Rightarrow> code" where
  "finish s msk =
     (let s = drawFormat (applyMask s msk) msk
      in \<lparr>cVersion = sversion s, cLevel = slevel s, cMask = msk, cSize = ssize s, cdark = dark s\<rparr>)"

section \<open>Penalties\<close>

definition finderLike :: "bool list list" where
  "finderLike =
     [[True, False, True, True, True, False, True, False, False, False, False],
      [False, False, False, False, True, False, True, True, True, False, True]]"

definition run_step :: "bool list \<Rightarrow> nat \<times> nat \<Rightarrow> nat \<Rightarrow> nat \<times> nat" where
  "run_step line state i =
     (case state of (score, run) \<Rightarrow>
        if i < length line \<and> line ! i = line ! (i - 1) then (score, run + 1)
        else (if run \<ge> 5 then score + (3 + run - 5) else score, 1))"

definition linePenalty :: "bool list \<Rightarrow> nat" where
  "linePenalty line =
     (let score = fst (foldl (run_step line) (0, 1) [1..<Suc (length line)])
      in foldl (\<lambda>score start.
           foldl (\<lambda>score pattern. if take 11 (drop start line) = pattern then score + 40 else score)
             score finderLike)
         score [0..<length line - 10])"

definition blockPenalty :: "symbol \<Rightarrow> nat" where
  "blockPenalty s = foldl (\<lambda>score y. foldl (\<lambda>score x.
     let color = isDark s x y
     in if isDark s (x + 1) y = color \<and> isDark s x (y + 1) = color \<and> isDark s (x + 1) (y + 1) = color
        then score + 3 else score) score [0..<ssize s - 1]) 0 [0..<ssize s - 1]"

definition balancePenalty :: "symbol \<Rightarrow> nat" where
  "balancePenalty s =
     (let n = length (filter (\<lambda>module. module) (dark s));
          percent = n * 100 div length (dark s)
      in 10 * (nat \<bar>int percent - 50\<bar> div 5))"

definition penalty :: "symbol \<Rightarrow> nat" where
  "penalty s =
     (let size = ssize s;
          score = foldl (\<lambda>score y. score + linePenalty (map (\<lambda>x. isDark s x y) [0..<size])) 0 [0..<size];
          score = foldl (\<lambda>score x. score + linePenalty (map (\<lambda>y. isDark s x y) [0..<size])) score [0..<size]
      in score + blockPenalty s + balancePenalty s)"

section \<open>Encoding\<close>

definition encodeWithMask :: "bytes \<Rightarrow> Level \<Rightarrow> int \<Rightarrow> qr_error + code" where
  "encodeWithMask data level msk =
     (if msk < 0 \<or> msk > 7 then Inl (NotAMask msk)
      else case chooseVersion data level of
          Inl e \<Rightarrow> Inl e
        | Inr version \<Rightarrow> Inr (finish (newSymbol version level data) (nat msk)))"

text \<open>One round of the mask choice: the mask is applied, scored, and applied again.\<close>

definition try_mask :: "symbol \<times> nat \<times> int \<Rightarrow> nat \<Rightarrow> symbol \<times> nat \<times> int" where
  "try_mask state msk =
     (case state of (s, best, bestPenalty) \<Rightarrow>
        let s = applyMask s msk;
            s = drawFormat s msk;
            p = int (penalty s);
            (best, bestPenalty) =
              (if bestPenalty < 0 \<or> p < bestPenalty then (msk, p) else (best, bestPenalty));
            s = applyMask s msk
        in (s, best, bestPenalty))"

definition Encode :: "bytes \<Rightarrow> Level \<Rightarrow> qr_error + code" where
  "Encode data level =
     (case chooseVersion data level of
        Inl e \<Rightarrow> Inl e
      | Inr version \<Rightarrow>
          (case foldl try_mask (newSymbol version level data, 0, -1) [0..<8] of
             (s, best, bestPenalty) \<Rightarrow> Inr (finish s best)))"

section \<open>Drawing as painting a list of cells\<close>

text \<open>A cell is an index into the module list and the colour written there.\<close>

definition put_cells :: "(nat \<times> bool) list \<Rightarrow> bool list \<Rightarrow> bool list" where
  "put_cells cells ds = foldl (\<lambda>ds (i, d). ds[i := d]) ds cells"

definition all_true :: "(nat \<times> bool) list \<Rightarrow> (nat \<times> bool) list" where
  "all_true cells = map (\<lambda>(i, d). (i, True)) cells"

definition paint :: "(nat \<times> bool) list \<Rightarrow> symbol \<Rightarrow> symbol" where
  "paint cells s = s\<lparr>dark := put_cells cells (dark s), func := put_cells (all_true cells) (func s)\<rparr>"

lemma put_cells_simps [simp]:
  "put_cells [] ds = ds"
  "put_cells ((i, d) # cells) ds = put_cells cells (ds[i := d])"
  by (simp_all add: put_cells_def)

lemma put_cells_append: "put_cells (cs @ cs') ds = put_cells cs' (put_cells cs ds)"
  by (simp add: put_cells_def)

lemma length_put_cells [simp]: "length (put_cells cells ds) = length ds"
  by (induction cells arbitrary: ds) auto

lemma put_cells_other: "i \<notin> fst ` set cells \<Longrightarrow> put_cells cells ds ! i = ds ! i"
  by (induction cells arbitrary: ds) auto

lemma put_cells_same:
  "i \<in> fst ` set cells \<Longrightarrow> length ds = length ds' \<Longrightarrow> i < length ds \<Longrightarrow>
     put_cells cells ds ! i = put_cells cells ds' ! i"
proof (induction cells arbitrary: ds ds')
  case (Cons c cells)
  obtain j d where c: "c = (j, d)" by (cases c)
  show ?case
  proof (cases "i \<in> fst ` set cells")
    case True
    then show ?thesis using Cons.IH [of "ds[j := d]" "ds'[j := d]"] Cons.prems(2,3)
      by (simp only: c put_cells_simps length_list_update)
  next
    case False
    then have "i = j" using Cons.prems(1) by (simp add: c)
    with False Cons.prems(2,3) show ?thesis
      using put_cells_other [OF False, of "ds[j := d]"] put_cells_other [OF False, of "ds'[j := d]"]
      by (simp only: c put_cells_simps nth_list_update_eq)
  qed
qed simp

lemma put_cells_twice:
  assumes "fst ` set cs \<subseteq> fst ` set cs'"
  shows "put_cells cs' (put_cells cs ds) = put_cells cs' ds"
proof (rule list_eq_nthI)
  fix i assume i: "i < length (put_cells cs' ds)"
  show "put_cells cs' (put_cells cs ds) ! i = put_cells cs' ds ! i"
  proof (cases "i \<in> fst ` set cs'")
    case True
    then show ?thesis using i by (intro put_cells_same) auto
  next
    case False
    then have "i \<notin> fst ` set cs" using assms by auto
    with False show ?thesis by (simp add: put_cells_other)
  qed
qed simp

lemma all_true_simps [simp]:
  "all_true [] = []" "all_true ((i, d) # cs) = (i, True) # all_true cs"
  "all_true (cs @ cs') = all_true cs @ all_true cs'"
  "fst ` set (all_true cs) = fst ` set cs"
  by (auto simp: all_true_def image_image split_def)

lemma put_all_true:
  "i < length fs \<Longrightarrow> put_cells (all_true cs) fs ! i \<longleftrightarrow> fs ! i \<or> i \<in> fst ` set cs"
proof (induction cs arbitrary: fs)
  case (Cons c cs)
  then show ?case by (cases c; cases "fst c = i") (simp_all add: nth_list_update)
qed simp

lemma paint_Nil [simp]: "paint [] s = s"
  by (simp add: paint_def)

lemma paint_paint: "paint cs' (paint cs s) = paint (cs @ cs') s"
  by (simp add: paint_def put_cells_append)

lemma paint_fields [simp, frame_simps]:
  "sversion (paint cs s) = sversion s" "slevel (paint cs s) = slevel s" "ssize (paint cs s) = ssize s"
  "length (dark (paint cs s)) = length (dark s)" "length (func (paint cs s)) = length (func s)"
  by (simp_all add: paint_def)

lemma setFunction_paint: "setFunction s x y d = paint [(y * ssize s + x, d)] s"
  by (simp add: setFunction_def paint_def)

lemma foldl_paint:
  assumes "\<And>s x. h s x = paint (f (ssize s) x) s"
  shows "foldl h s xs = paint (concat (map (f (ssize s)) xs)) s"
  by (induction xs arbitrary: s) (simp_all add: assms paint_paint)

lemma concat_map_singleton [simp]: "concat (map (\<lambda>x. [f x]) xs) = map f xs"
  by (induction xs) auto

text \<open>The cells of the format information, of which only the colours depend on the bits.\<close>

definition format_cells :: "nat \<Rightarrow> int \<Rightarrow> (nat \<times> bool) list" where
  "format_cells n bits =
     map (\<lambda>i. (i * n + 8, bit_at bits i)) [0..<6] @
     [(7 * n + 8, bit_at bits 6), (8 * n + 8, bit_at bits 7), (8 * n + 7, bit_at bits 8)] @
     map (\<lambda>i. (8 * n + (14 - i), bit_at bits i)) [9..<15] @
     map (\<lambda>i. (8 * n + (n - 1 - i), bit_at bits i)) [0..<8] @
     map (\<lambda>i. ((n - 15 + i) * n + 8, bit_at bits i)) [8..<15] @
     [((n - 8) * n + 8, True)]"

lemma drawFormat_paint:
  "drawFormat s m = paint (format_cells (ssize s) (formatInformation (slevel s) (int m))) s"
proof -
  let ?b = "bit_at (formatInformation (slevel s) (int m))" and ?n = "ssize s"
  have f1: "foldl (\<lambda>s i. setFunction s 8 i (?b i)) s' xs =
      paint (map (\<lambda>i. (i * ssize s' + 8, ?b i)) xs) s'" for s' xs
    using foldl_paint [of "\<lambda>s i. setFunction s 8 i (?b i)" "\<lambda>n i. [(i * n + 8, ?b i)]"]
    by (simp add: setFunction_paint)
  have f2: "foldl (\<lambda>s i. setFunction s (g i) 8 (?b i)) s' xs =
      paint (map (\<lambda>i. (8 * ssize s' + g i, ?b i)) xs) s'" for s' xs and g :: "nat \<Rightarrow> nat"
    using foldl_paint [of "\<lambda>s i. setFunction s (g i) 8 (?b i)" "\<lambda>n i. [(8 * n + g i, ?b i)]"]
    by (simp add: setFunction_paint)
  have f3: "foldl (\<lambda>s i. setFunction s 8 (g i) (?b i)) s' xs =
      paint (map (\<lambda>i. (g i * ssize s' + 8, ?b i)) xs) s'" for s' xs and g :: "nat \<Rightarrow> nat"
    using foldl_paint [of "\<lambda>s i. setFunction s 8 (g i) (?b i)" "\<lambda>n i. [(g i * n + 8, ?b i)]"]
    by (simp add: setFunction_paint)
  show ?thesis
    unfolding drawFormat_def Let_def f1 f2 f3
    by (simp only: setFunction_paint paint_paint paint_fields format_cells_def append.assoc append.simps)
qed

definition format_area :: "nat \<Rightarrow> nat set" where
  "format_area n = fst ` set (format_cells n 0)"

lemma format_cells_fst [simp]: "fst ` set (format_cells n b) = format_area n"
  by (simp add: format_area_def format_cells_def image_image image_Un)

lemma drawFormat_twice: "drawFormat (drawFormat s m) m' = drawFormat s m'"
  unfolding drawFormat_paint paint_fields
  using put_cells_twice [of "format_cells (ssize s) b" "format_cells (ssize s) b'" for b b']
    put_cells_twice [of "all_true (format_cells (ssize s) b)" "all_true (format_cells (ssize s) b')" for b b']
  by (simp add: paint_def)

section \<open>Masks\<close>

lemma product_indices:
  "map (\<lambda>(y, x). y * n + x) (List.product [0..<m] [0..<n]) = [0..<m * n]"
proof -
  have "concat (map (\<lambda>y. map (\<lambda>x. y * n + x) [0..<n]) [0..<m]) = [0..<m * n]"
  proof (induction m)
    case (Suc m)
    have "map (\<lambda>x. m * n + x) [0..<n] = [m * n..<m * n + n]"
      by (simp add: map_add_upt add.commute)
    with Suc show ?case using upt_add_eq_append [of 0 "m * n" n] by (simp add: add.commute)
  qed simp
  then show ?thesis by (simp add: product_concat_map map_concat comp_def)
qed

definition mask_selects :: "symbol \<Rightarrow> nat \<Rightarrow> nat \<Rightarrow> bool" where
  "mask_selects s m i \<longleftrightarrow> \<not> func s ! i \<and> (masks ! m) (i mod ssize s) (i div ssize s)"

definition well_sized :: "symbol \<Rightarrow> bool" where
  "well_sized s \<longleftrightarrow> length (dark s) = ssize s * ssize s \<and> length (func s) = ssize s * ssize s"

lemma foldl_flip:
  assumes "distinct is"
  shows "i < length (dark s) \<Longrightarrow>
    dark (foldl (\<lambda>s i. if P i then s\<lparr>dark := (dark s)[i := \<not> dark s ! i]\<rparr> else s) s is) ! i =
      (dark s ! i \<noteq> (i \<in> set is \<and> P i))"
  using assms
proof (induction "is" arbitrary: s)
  case (Cons j "is")
  then show ?case by (cases "i = j") (auto simp: nth_list_update)
qed simp

definition flip_step :: "symbol \<Rightarrow> nat \<Rightarrow> symbol \<Rightarrow> nat \<Rightarrow> symbol" where
  "flip_step s0 m s i = (if mask_selects s0 m i then s\<lparr>dark := (dark s)[i := \<not> dark s ! i]\<rparr> else s)"

lemma flip_fields [simp]:
  "sversion (foldl (flip_step s0 m) s is) = sversion s"
  "slevel (foldl (flip_step s0 m) s is) = slevel s"
  "ssize (foldl (flip_step s0 m) s is) = ssize s"
  "func (foldl (flip_step s0 m) s is) = func s"
  "length (dark (foldl (flip_step s0 m) s is)) = length (dark s)"
  by (induction "is" arbitrary: s) (simp_all add: flip_step_def)

lemma mask_module_fields [simp]:
  "ssize (mask_module c s p) = ssize s" "func (mask_module c s p) = func s"
  by (simp_all add: mask_module_def split: prod.splits)

lemma applyMask_flip: "applyMask s m = foldl (flip_step s m) s [0..<ssize s * ssize s]"
proof -
  let ?n = "ssize s" and ?ps = "List.product [0..<ssize s] [0..<ssize s]"
  have "applyMask s m = foldl (mask_module (masks ! m)) s ?ps"
    unfolding applyMask_def Let_def by (rule foldl_nested_size) simp
  also have "\<dots> = foldl (\<lambda>t p. flip_step s m t (case p of (y, x) \<Rightarrow> y * ?n + x)) s ?ps"
  proof -
    have "foldl (mask_module (masks ! m)) t ps =
        foldl (\<lambda>t p. flip_step s m t (case p of (y, x) \<Rightarrow> y * ?n + x)) t ps"
      if "ssize t = ?n" "func t = func s" "set ps \<subseteq> {0..<?n} \<times> {0..<?n}" for t ps
      using that
      by (induction ps arbitrary: t) (auto simp: flip_step_def mask_selects_def mask_module_def)
    then show ?thesis by auto
  qed
  also have "\<dots> = foldl (flip_step s m) s (map (\<lambda>(y, x). y * ?n + x) ?ps)"
    by (simp add: foldl_map split_def)
  finally show ?thesis by (simp only: product_indices)
qed

lemma applyMask_fields [simp, frame_simps]:
  "sversion (applyMask s m) = sversion s" "slevel (applyMask s m) = slevel s"
  "ssize (applyMask s m) = ssize s" "func (applyMask s m) = func s"
  "length (dark (applyMask s m)) = length (dark s)"
  by (simp_all add: applyMask_flip)

lemma applyMask_nth:
  "i < ssize s * ssize s \<Longrightarrow> length (dark s) = ssize s * ssize s \<Longrightarrow>
     dark (applyMask s m) ! i = (dark s ! i \<noteq> mask_selects s m i)"
  unfolding applyMask_flip flip_step_def [abs_def]
  by (subst foldl_flip) auto

lemma symbol_eqI:
  "sversion s = sversion t \<Longrightarrow> slevel s = slevel t \<Longrightarrow> ssize s = ssize t \<Longrightarrow>
     func s = func t \<Longrightarrow> dark s = dark t \<Longrightarrow> s = (t :: symbol)"
  by simp

text \<open>Applying a mask twice undoes it.\<close>

lemma applyMask_twice: "length (dark s) = ssize s * ssize s \<Longrightarrow> applyMask (applyMask s m) m = s"
  by (rule symbol_eqI)
    (auto intro!: list_eq_nthI simp: applyMask_nth mask_selects_def)

text \<open>The modules of the format information are reserved: they are function modules.\<close>

definition format_reserved :: "symbol \<Rightarrow> bool" where
  "format_reserved s \<longleftrightarrow>
     (\<forall>i \<in> format_area (ssize s). i < length (func s) \<longrightarrow> func s ! i)"

lemma format_reserved_drawFormat: "well_sized s \<Longrightarrow> format_reserved (drawFormat s m)"
  by (auto simp: format_reserved_def drawFormat_paint paint_def put_all_true)

lemma drawFormat_fields [simp, frame_simps]:
  "sversion (drawFormat s m) = sversion s" "slevel (drawFormat s m) = slevel s"
  "ssize (drawFormat s m) = ssize s" "length (dark (drawFormat s m)) = length (dark s)"
  "length (func (drawFormat s m)) = length (func s)"
  by (simp_all add: drawFormat_paint)

lemma drawFormat_func:
  assumes "format_reserved s"
  shows "func (drawFormat s m) = func s"
proof (rule list_eq_nthI)
  fix i assume "i < length (func s)"
  then show "func (drawFormat s m) ! i = func s ! i"
    using assms
    by (auto simp: format_reserved_def drawFormat_paint paint_def put_all_true)
qed simp

lemma drawFormat_dark_other:
  assumes "format_reserved s" "well_sized s" "i < ssize s * ssize s" "\<not> func s ! i"
  shows "dark (drawFormat s m) ! i = dark s ! i"
proof -
  have "i \<notin> fst ` set (format_cells (ssize s) (formatInformation (slevel s) (int m)))"
    using assms by (auto simp: format_reserved_def well_sized_def)
  then show ?thesis by (simp add: drawFormat_paint paint_def put_cells_other)
qed

lemma applyMask_drawFormat:
  assumes "format_reserved s" "well_sized s"
  shows "applyMask (drawFormat s k) m = drawFormat (applyMask s m) k"
proof (rule symbol_eqI)
  have res: "format_reserved (applyMask s m)" "well_sized (applyMask s m)"
    using assms by (auto simp: format_reserved_def well_sized_def)
  show "func (applyMask (drawFormat s k) m) = func (drawFormat (applyMask s m) k)"
    using assms res by (simp add: drawFormat_func)
  show "dark (applyMask (drawFormat s k) m) = dark (drawFormat (applyMask s m) k)"
  proof (rule list_eq_nthI)
    fix i assume "i < length (dark (drawFormat (applyMask s m) k))"
    then have i: "i < ssize s * ssize s" using assms by (simp add: well_sized_def)
    have sel: "mask_selects (drawFormat s k) m i = mask_selects s m i"
      using assms by (simp add: mask_selects_def drawFormat_func)
    have lhs: "dark (applyMask (drawFormat s k) m) ! i = (dark (drawFormat s k) ! i \<noteq> mask_selects s m i)"
      using i assms sel by (subst applyMask_nth) (auto simp: well_sized_def)
    show "dark (applyMask (drawFormat s k) m) ! i = dark (drawFormat (applyMask s m) k) ! i"
    proof (cases "func s ! i")
      case False
      then show ?thesis
        using i assms res drawFormat_dark_other [of s i k] drawFormat_dark_other [of "applyMask s m" i k]
        by (simp add: lhs applyMask_nth well_sized_def)
    next
      case True
      then have "\<not> mask_selects s m i" by (simp add: mask_selects_def)
      then have "dark (applyMask s m) ! i = dark s ! i"
        using i assms by (simp add: applyMask_nth well_sized_def)
      then have "dark (drawFormat (applyMask s m) k) ! i = dark (drawFormat s k) ! i"
        using i assms put_cells_same [of i "format_cells (ssize s) b" "dark (applyMask s m)" "dark s" for b]
        by (cases "i \<in> format_area (ssize s)")
          (simp_all add: drawFormat_paint paint_def put_cells_other well_sized_def)
      with lhs \<open>\<not> mask_selects s m i\<close> show ?thesis by simp
    qed
  qed simp
qed simp_all

section \<open>The mask chosen\<close>

definition masked :: "symbol \<Rightarrow> nat \<Rightarrow> symbol" where
  "masked s m = drawFormat (applyMask s m) m"

lemma try_mask_round:
  assumes "format_reserved s0" "well_sized s0" "s = s0 \<or> (\<exists>k. s = drawFormat s0 k)"
  shows "drawFormat (applyMask s m) m = masked s0 m"
    and "applyMask (drawFormat (applyMask s m) m) m = drawFormat s0 m"
proof -
  show *: "drawFormat (applyMask s m) m = masked s0 m"
    using assms by (auto simp: masked_def applyMask_drawFormat drawFormat_twice)
  show "applyMask (drawFormat (applyMask s m) m) m = drawFormat s0 m"
    using assms unfolding * masked_def
    by (metis applyMask_drawFormat applyMask_twice drawFormat_fields(3,4) well_sized_def)
qed

definition choice_inv :: "symbol \<Rightarrow> nat \<Rightarrow> symbol \<times> nat \<times> int \<Rightarrow> bool" where
  "choice_inv s0 k state \<longleftrightarrow> (case state of (s, best, p) \<Rightarrow>
     (s = s0 \<or> (\<exists>j. s = drawFormat s0 j)) \<and>
     (if k = 0 then p < 0 \<and> best = 0
      else best < k \<and> p = int (penalty (masked s0 best)) \<and>
        (\<forall>j < k. p \<le> int (penalty (masked s0 j))) \<and>
        (\<forall>j < best. p < int (penalty (masked s0 j)))))"

lemma try_mask_inv:
  assumes s0: "format_reserved s0" "well_sized s0" and inv: "choice_inv s0 k state"
  shows "choice_inv s0 (Suc k) (try_mask state k)"
proof -
  obtain s best p where st: "state = (s, best, p)" by (cases state)
  have s: "s = s0 \<or> (\<exists>j. s = drawFormat s0 j)" using inv by (simp add: st choice_inv_def)
  have step: "try_mask (s, best, p) k = (drawFormat s0 k,
      (if p < 0 \<or> int (penalty (masked s0 k)) < p then (k, int (penalty (masked s0 k))) else (best, p)))"
    using try_mask_round [OF s0 s] unfolding try_mask_def by (simp add: Let_def)
  show ?thesis
    using inv unfolding st step choice_inv_def
    by (auto simp: less_Suc_eq split: if_splits)
qed

lemma finish_drawFormat:
  "format_reserved s0 \<Longrightarrow> well_sized s0 \<Longrightarrow> finish (drawFormat s0 k) m = finish s0 m"
  by (simp add: finish_def Let_def applyMask_drawFormat drawFormat_twice)

lemma choose_mask:
  assumes s0: "format_reserved s0" "well_sized s0"
    and run: "foldl try_mask (s0, 0, -1) [0..<8] = (s, best, p)"
  shows "best < 8" "finish s best = finish s0 best"
    "m < 8 \<Longrightarrow> penalty (masked s0 best) \<le> penalty (masked s0 m)"
    "m < best \<Longrightarrow> penalty (masked s0 best) < penalty (masked s0 m)"
proof -
  have "choice_inv s0 8 (foldl try_mask (s0, 0, -1) [0..<8])"
    by (rule foldl_upt_invariant) (simp add: choice_inv_def, rule try_mask_inv [OF s0])
  then have "choice_inv s0 8 (s, best, p)" by (simp only: run)
  then show "best < 8" "finish s best = finish s0 best"
    "m < 8 \<Longrightarrow> penalty (masked s0 best) \<le> penalty (masked s0 m)"
    "m < best \<Longrightarrow> penalty (masked s0 best) < penalty (masked s0 m)"
    using finish_drawFormat [OF s0] by (auto simp: choice_inv_def)
qed

end
