(* ===== verification/QR_Decode.thy ===== *)
theory QR_Decode
  imports QR_Symbol
begin

text \<open>
  Reading a symbol back. The placement of codewords is shown to write the bit stream, in
  order, into the free modules along the zigzag; the function patterns are given by their
  coordinates, and every version is shown to leave enough free modules for its codewords. A
  reader that unmasks the symbol, follows the zigzag, undoes the interleaving and reads byte
  mode then returns exactly the data that was encoded.
\<close>

section \<open>The zigzag\<close>

definition zigzag :: "nat \<Rightarrow> (nat \<times> nat) list" where
  "zigzag n = concat (map (\<lambda>right. concat (map (\<lambda>vertical.
     let y = (if (right + 1) AND 2 = 0 then n - 1 - vertical else vertical)
     in [(right, y), (right - 1, y)]) [0..<n])) (column_list (n - 1)))"

definition module_index :: "nat \<Rightarrow> nat \<times> nat \<Rightarrow> nat" where
  "module_index n p = (case p of (x, y) \<Rightarrow> y * n + x)"

definition free_modules :: "symbol \<Rightarrow> nat list" where
  "free_modules s = filter (\<lambda>i. \<not> func s ! i) (map (module_index (ssize s)) (zigzag (ssize s)))"

lemma foldl_concat_map: "foldl f s (concat (map g xs)) = foldl (\<lambda>s x. foldl f s (g x)) s xs"
  by (induction xs arbitrary: s) simp_all

lemma drawCodewords_zigzag:
  "drawCodewords s cw =
     fst (foldl (\<lambda>state p. place_module cw state (fst p) (snd p)) (s, 0) (zigzag (ssize s)))"
proof -
  have two: "[0..<2] = [0, Suc 0]" by (simp add: upt_rec)
  show ?thesis
    unfolding drawCodewords_def Let_def zigzag_def foldl_concat_map two by simp
qed

lemma place_zigzag:
  assumes "func s = fs" "ssize s = n"
  shows "fst (foldl (\<lambda>state p. place_module cw state (fst p) (snd p)) (s, k) ps) =
    s\<lparr>dark := put_cells (zip (filter (\<lambda>i. \<not> fs ! i) (map (module_index n) ps))
        (map (stream_bit cw) [k..<8 * length cw])) (dark s)\<rparr>"
  using assms
proof (induction ps arbitrary: s k)
  case (Cons p ps)
  obtain x y where p: "p = (x, y)" by (cases p)
  show ?case
  proof (cases "fs ! (y * n + x) \<or> 8 * length cw \<le> k")
    case True
    then have "place_module cw (s, k) x y = (s, k)"
      using Cons.prems by (auto simp: place_module_def mult.commute)
    then show ?thesis
      using True Cons.IH [OF Cons.prems, of k] by (auto simp: p module_index_def)
  next
    case False
    let ?s = "set_module s x y (stream_bit cw k)"
    have "drop_bit (7 - k mod 8) (cw ! (k div 8)) AND 1 = 1 \<longleftrightarrow> stream_bit cw k"
      by (simp add: stream_bit_def and_one_eq bit_iff_odd_drop_bit odd_iff_mod_2_eq_one)
    then have "place_module cw (s, k) x y = (?s, Suc k)"
      using Cons.prems False by (simp add: place_module_def mult.commute)
    moreover have "[k..<8 * length cw] = k # [Suc k..<8 * length cw]"
      using False by (simp add: upt_conv_Cons)
    ultimately show ?thesis
      using False Cons.prems Cons.IH [of ?s "Suc k"]
      by (simp add: p module_index_def set_module_def)
  qed
qed simp

lemma drawCodewords_put:
  "drawCodewords s cw = s\<lparr>dark := put_cells (zip (free_modules s)
     (map (stream_bit cw) [0..<8 * length cw])) (dark s)\<rparr>"
  unfolding drawCodewords_zigzag free_modules_def by (rule place_zigzag) simp_all

lemma put_cells_zip_nth:
  "distinct is \<Longrightarrow> k < length is \<Longrightarrow> k < length bs \<Longrightarrow> \<forall>i \<in> set is. i < length ds \<Longrightarrow>
     put_cells (zip is bs) ds ! (is ! k) = bs ! k"
proof (induction "is" arbitrary: bs ds k)
  case (Cons i "is")
  obtain b bs' where bs: "bs = b # bs'" using Cons.prems by (cases bs) auto
  show ?case
  proof (cases k)
    case 0
    have "i \<notin> fst ` set (zip is bs')"
      using Cons.prems(1) by (auto dest: set_zip_leftD)
    then show ?thesis using 0 Cons.prems by (simp add: bs put_cells_other)
  next
    case (Suc k')
    then show ?thesis using Cons.IH [of k' bs' "ds[i := b]"] Cons.prems by (simp add: bs)
  qed
qed simp

text \<open>The columns of the zigzag are disjoint pairs, so no module is visited twice.\<close>

lemma column_list_Nil: "column_list 0 = []"
  by (simp add: column_list.simps)

lemma column_list_range: "r \<in> set (column_list right) \<Longrightarrow> 1 \<le> r \<and> r \<le> right"
proof (induction right rule: column_list.induct)
  case (1 right)
  show ?case
  proof (cases "right \<ge> 1")
    case True
    then have "r = (if right = 6 then 5 else right) \<or>
        r \<in> set (column_list ((if right = 6 then 5 else right) - 2))"
      using "1.prems" by (simp add: column_list.simps [of right] Let_def split: if_splits)
    then show ?thesis using "1.IH" [OF True refl] True by (auto split: if_splits)
  qed (use "1.prems" in \<open>simp add: column_list.simps\<close>)
qed

lemma column_list_gaps: "sorted_wrt (\<lambda>a b. b + 2 \<le> a) (column_list right)"
proof (induction right rule: column_list.induct)
  case (1 right)
  show ?case
  proof (cases "right \<ge> 1")
    case True
    then show ?thesis
      using "1.IH" [OF True refl]
      by (subst column_list.simps) (auto simp: Let_def dest!: column_list_range)
  qed (simp add: column_list.simps)
qed

lemma zigzag_column_distinct:
  "distinct (concat (map (\<lambda>vertical. let y = (if up then n - 1 - vertical else vertical)
     in [(right, y), (right - 1, y)]) [0..<n]))" if "1 \<le> right" for right :: nat
proof -
  have "inj_on (\<lambda>v. if up then n - 1 - v else v) {0..<n}" by (auto simp: inj_on_def)
  have "distinct (concat (map (\<lambda>vertical. let y = (if up then n - 1 - vertical else vertical)
     in [(right, y), (right - 1, y)]) [0..<m]))" if "m \<le> n" for m
    using that
  proof (induction m)
    case (Suc m)
    then show ?case using \<open>1 \<le> right\<close> by (auto simp: Let_def)
  qed simp
  then show ?thesis by simp
qed

lemma distinct_zigzag: "distinct (zigzag n)"
proof -
  let ?col = "\<lambda>right. concat (map (\<lambda>vertical.
     let y = (if (right + 1) AND 2 = 0 then n - 1 - vertical else vertical)
     in [(right, y), (right - 1, y)]) [0..<n])"
  have fst_col: "x = right \<or> x = right - 1" if "(x, y) \<in> set (?col right)" for x y right
    using that by (auto simp: Let_def)
  have "distinct (concat (map ?col rs))"
    if "sorted_wrt (\<lambda>a b. b + 2 \<le> a) rs" "\<forall>r \<in> set rs. 1 \<le> r" for rs :: "nat list"
    using that
  proof (induction rs)
    case (Cons r rs)
    have "set (?col r) \<inter> set (concat (map ?col rs)) = {}"
    proof -
      have False if "p \<in> set (?col r)" "r' \<in> set rs" "p \<in> set (?col r')" for p r'
      proof -
        have "fst p = r \<or> fst p = r - 1" "fst p = r' \<or> fst p = r' - 1"
          using fst_col [of "fst p" "snd p"] that by auto
        moreover have "r' + 2 \<le> r" using Cons.prems(1) that(2) by simp
        ultimately show False by linarith
      qed
      then show ?thesis by auto
    qed
    moreover have "distinct (?col r)" using Cons.prems by (intro zigzag_column_distinct) simp
    ultimately show ?case using Cons by simp
  qed simp
  then show ?thesis
    unfolding zigzag_def using column_list_gaps column_list_range by blast
qed

lemma zigzag_range: "(x, y) \<in> set (zigzag n) \<Longrightarrow> x < n \<and> y < n"
  by (auto simp: zigzag_def Let_def dest!: column_list_range)

section \<open>Where the function patterns are\<close>

text \<open>Drawing only ever adds function modules; an area bounds what a step may add.\<close>

definition adds_within :: "(nat \<Rightarrow> bool) \<Rightarrow> symbol \<Rightarrow> symbol \<Rightarrow> bool" where
  "adds_within A s t \<longleftrightarrow> sversion t = sversion s \<and> slevel t = slevel s \<and> ssize t = ssize s \<and>
     length (dark t) = length (dark s) \<and> length (func t) = length (func s) \<and>
     (\<forall>i < length (func s). (func s ! i \<longrightarrow> func t ! i) \<and> (func t ! i \<longrightarrow> func s ! i \<or> A i))"

lemma adds_within_refl [simp]: "adds_within A s s"
  by (simp add: adds_within_def)

lemma adds_within_trans: "adds_within A s t \<Longrightarrow> adds_within A t u \<Longrightarrow> adds_within A s u"
  by (auto simp: adds_within_def)

lemma adds_within_mono: "adds_within A s t \<Longrightarrow> (\<And>i. A i \<Longrightarrow> B i) \<Longrightarrow> adds_within B s t"
  by (auto simp: adds_within_def)

lemma adds_within_setFunction:
  "A (y * ssize s + x) \<Longrightarrow> adds_within A s (setFunction s x y d)"
proof -
  assume A: "A (y * ssize s + x)"
  have "(func s)[y * ssize s + x := True] ! i = (func s ! i \<or> i = y * ssize s + x)"
    if "i < length (func s)" for i using that by (cases "i = y * ssize s + x") simp_all
  with A show ?thesis by (auto simp: adds_within_def setFunction_def)
qed

lemma adds_within_foldl:
  assumes "\<And>t x. adds_within A s t \<Longrightarrow> x \<in> set xs \<Longrightarrow> adds_within A t (f t x)"
  shows "adds_within A s (foldl f s xs)"
proof (rule foldl_invariant [where P = "adds_within A s"])
  fix t x assume "adds_within A s t" "x \<in> set xs"
  then show "adds_within A s (f t x)" using assms adds_within_trans by blast
qed simp

lemma adds_within_size: "adds_within A s t \<Longrightarrow> ssize t = ssize s \<and> sversion t = sversion s"
  by (simp add: adds_within_def)

text \<open>The area of the function patterns, as conditions on column and row.\<close>

definition near :: "int \<Rightarrow> int \<Rightarrow> int \<Rightarrow> bool" where
  "near r a b \<longleftrightarrow> \<bar>a - b\<bar> \<le> r"

definition area_at :: "bool \<Rightarrow> int \<Rightarrow> (int \<times> int) list \<Rightarrow> int \<Rightarrow> int \<Rightarrow> bool" where
  "area_at versioned n centers x y \<longleftrightarrow>
     x = 6 \<or> y = 6 \<or>
     (x \<le> 8 \<and> (y \<le> 8 \<or> y \<ge> n - 8)) \<or> (x \<ge> n - 8 \<and> y \<le> 8) \<or>
     (versioned \<and> ((x \<ge> n - 11 \<and> y \<le> 5) \<or> (x \<le> 5 \<and> y \<ge> n - 11))) \<or>
     list_ex (\<lambda>(cx, cy). near 2 x cx \<and> near 2 y cy) centers"

definition alignment_pairs :: "nat list \<Rightarrow> (int \<times> int) list" where
  "alignment_pairs cs = map (\<lambda>(i, j). (int (cs ! i), int (cs ! j)))
     (filter (\<lambda>(i, j). \<not> ((i = 0 \<and> j = 0) \<or> (i = 0 \<and> j = length cs - 1) \<or> (i = length cs - 1 \<and> j = 0)))
       (List.product [0..<length cs] [0..<length cs]))"

definition count_free :: "bool \<Rightarrow> int \<Rightarrow> (int \<times> int) list \<Rightarrow> int" where
  "count_free versioned n centers = (let r = [0..n - 1] in
     sum_list (map (\<lambda>y. sum_list (map (\<lambda>x. if area_at versioned n centers x y then 0 else 1) r)) r))"


definition area :: "nat \<Rightarrow> nat \<Rightarrow> bool" where
  "area version i \<longleftrightarrow> (let n = 17 + 4 * version in
     area_at (7 \<le> version) (int n) (alignment_pairs (alignmentCenters ! version))
       (int (i mod n)) (int (i div n)))"

lemma area_index:
  "x < 17 + 4 * version \<Longrightarrow> area version (y * (17 + 4 * version) + x) =
     area_at (7 \<le> version) (17 + 4 * int version) (alignment_pairs (alignmentCenters ! version)) (int x) (int y)"
  by (simp add: area_def Let_def div_mult_self3 mod_mult_self3)

lemma adds_finder:
  assumes n: "ssize s = 17 + 4 * version"
    and c: "(cx = 3 \<and> cy = 3) \<or> (cx = int (ssize s) - 4 \<and> cy = 3) \<or> (cx = 3 \<and> cy = int (ssize s) - 4)"
  shows "adds_within (area version) s (drawFinder s cx cy)"
  unfolding drawFinder_def
proof (intro adds_within_foldl)
  fix t dy u dx
  assume t: "adds_within (area version) s t" "adds_within (area version) t u"
    and d: "dy \<in> set [-4..4 :: int]" "dx \<in> set [-4..4 :: int]"
  have size: "ssize u = 17 + 4 * version" using t n by (simp add: adds_within_def)
  show "adds_within (area version) u
    (let x = cx + dx; y = cy + dy
     in if x < 0 \<or> y < 0 \<or> int (ssize u) \<le> x \<or> int (ssize u) \<le> y then u
        else let distance = max \<bar>dx\<bar> \<bar>dy\<bar>
             in setFunction u (nat x) (nat y) (distance \<noteq> 2 \<and> distance \<noteq> 4))"
  proof (cases "cx + dx < 0 \<or> cy + dy < 0 \<or> int (ssize u) \<le> cx + dx \<or> int (ssize u) \<le> cy + dy")
    case False
    then have x: "nat (cx + dx) < 17 + 4 * version" using size by auto
    have "area version (nat (cy + dy) * ssize u + nat (cx + dx))"
    proof -
      have d4: "- 4 \<le> dx" "dx \<le> 4" "- 4 \<le> dy" "dy \<le> 4" using d by auto
      have nn: "int (ssize s) = 17 + 4 * int version" using n by simp
      have xy: "int (nat (cx + dx)) = cx + dx" "int (nat (cy + dy)) = cy + dy" using False by auto
      have "(cx + dx \<le> 8 \<and> (cy + dy \<le> 8 \<or> cy + dy \<ge> 17 + 4 * int version - 8)) \<or>
          (cx + dx \<ge> 17 + 4 * int version - 8 \<and> cy + dy \<le> 8)"
        using c d4 nn by linarith
      then show ?thesis unfolding size area_index [OF x] area_at_def xy by blast
    qed
    then show ?thesis using False by (simp add: Let_def adds_within_setFunction)
  qed (simp add: Let_def)
qed

lemma alignment_centers_range:
  "1 \<le> version \<Longrightarrow> version \<le> MaxVersion \<Longrightarrow> c \<in> set (alignmentCenters ! version) \<Longrightarrow>
     6 \<le> c \<and> c + 7 \<le> 17 + 4 * version"
  by (drule (1) version_cases) (elim disjE, simp_all add: alignmentCenters_def, auto)

lemma adds_alignment:
  assumes n: "ssize s = 17 + 4 * version" and v: "1 \<le> version" "version \<le> MaxVersion"
    and i: "i < length (alignmentCenters ! version)" "j < length (alignmentCenters ! version)"
    and nc: "\<not> ((i = 0 \<and> j = 0) \<or> (i = 0 \<and> j = length (alignmentCenters ! version) - 1) \<or>
      (i = length (alignmentCenters ! version) - 1 \<and> j = 0))"
  shows "adds_within (area version) s
    (drawAlignment s (int (alignmentCenters ! version ! i)) (int (alignmentCenters ! version ! j)))"
    (is "adds_within _ s (drawAlignment s ?cx ?cy)")
  unfolding drawAlignment_def
proof (intro adds_within_foldl adds_within_setFunction)
  fix t dy u dx
  assume t: "adds_within (area version) s t" "adds_within (area version) t u"
    and d: "dy \<in> set [-2..2 :: int]" "dx \<in> set [-2..2 :: int]"
  have size: "ssize u = 17 + 4 * version" using t n by (simp add: adds_within_def)
  have cx: "6 \<le> ?cx" "?cx + 7 \<le> int (17 + 4 * version)"
    and cy: "6 \<le> ?cy" "?cy + 7 \<le> int (17 + 4 * version)"
    using alignment_centers_range [OF v, of "alignmentCenters ! version ! i"]
      alignment_centers_range [OF v, of "alignmentCenters ! version ! j"] i by auto
  have x: "nat (?cx + dx) < 17 + 4 * version" using cx d by auto
  have "(?cx, ?cy) \<in> set (alignment_pairs (alignmentCenters ! version))"
    using i nc by (force simp: alignment_pairs_def)
  then show "area version (nat (?cy + dy) * ssize u + nat (?cx + dx))"
    unfolding size area_index [OF x] area_at_def
    using cx cy d by (auto simp: list_ex_iff near_def intro!: bexI [of _ "(?cx, ?cy)"])
qed

lemma format_area_cases:
  "i \<in> format_area n \<Longrightarrow> i \<in> (\<lambda>k. k * n + 8) ` {0..<6} \<or> i \<in> {7 * n + 8, 8 * n + 8, 8 * n + 7} \<or>
     i \<in> (\<lambda>k. 8 * n + (14 - k)) ` {9..<15} \<or> i \<in> (\<lambda>k. 8 * n + (n - 1 - k)) ` {0..<8} \<or>
     i \<in> (\<lambda>k. (n - 15 + k) * n + 8) ` {8..<15} \<or> i = (n - 8) * n + 8"
  unfolding format_area_def format_cells_def
  by (simp only: set_append set_map image_Un image_image set_upt list.set fst_conv image_insert
      image_empty Un_iff insert_iff empty_iff) blast

lemma format_area_within:
  assumes "1 \<le> version" "i \<in> format_area (17 + 4 * version)"
  shows "area version i"
proof -
  let ?n = "17 + 4 * version"
  have at: "x < ?n \<Longrightarrow> (x \<le> 8 \<and> (y \<le> 8 \<or> ?n - 8 \<le> y)) \<or> (?n - 8 \<le> x \<and> y \<le> 8) \<Longrightarrow>
      area version (y * ?n + x)" for x y
    unfolding area_index area_at_def by auto
  have "\<exists>x y. i = y * ?n + x \<and> x < ?n \<and>
      ((x \<le> 8 \<and> (y \<le> 8 \<or> ?n - 8 \<le> y)) \<or> (?n - 8 \<le> x \<and> y \<le> 8))"
  proof -
    from format_area_cases [OF assms(2)] show ?thesis
    proof (elim disjE imageE insertE emptyE)
      fix k assume "i = k * ?n + 8" "k \<in> {0..<6}"
      then show ?thesis by (intro exI [of _ 8] exI [of _ k]) auto
    next
      assume "i = 7 * ?n + 8"
      then show ?thesis by (intro exI [of _ 8] exI [of _ 7]) auto
    next
      assume "i = 8 * ?n + 8"
      then show ?thesis by (intro exI [of _ 8] exI [of _ 8]) auto
    next
      assume "i = 8 * ?n + 7"
      then show ?thesis by (intro exI [of _ 7] exI [of _ 8]) auto
    next
      fix k assume "i = 8 * ?n + (14 - k)" "k \<in> {9..<15}"
      then show ?thesis by (intro exI [of _ "14 - k"] exI [of _ 8]) auto
    next
      fix k assume "i = 8 * ?n + (?n - 1 - k)" "k \<in> {0..<8}"
      then show ?thesis by (intro exI [of _ "?n - 1 - k"] exI [of _ 8]) auto
    next
      fix k assume "i = (?n - 15 + k) * ?n + 8" "k \<in> {8..<15}"
      then show ?thesis by (intro exI [of _ 8] exI [of _ "?n - 15 + k"]) auto
    next
      assume "i = (?n - 8) * ?n + 8"
      then show ?thesis by (intro exI [of _ 8] exI [of _ "?n - 8"]) auto
    qed
  qed
  then show ?thesis using at by blast
qed

lemma adds_format:
  assumes "ssize s = 17 + 4 * version" "1 \<le> version"
  shows "adds_within (area version) s (drawFormat s m)"
  using assms format_area_within [OF assms(2)]
  by (auto simp: adds_within_def drawFormat_paint paint_def put_all_true)

lemma adds_version:
  assumes n: "ssize s = 17 + 4 * version" and v: "sversion s = version"
  shows "adds_within (area version) s (drawVersion s)"
proof (cases "version < 7")
  case False
  show ?thesis
    unfolding drawVersion_def Let_def v if_not_P [OF False]
  proof (rule adds_within_foldl)
    fix t i assume t: "adds_within (area version) s t" and i: "i \<in> set [0..<18]"
    have size: "ssize t = 17 + 4 * version" using adds_within_size [OF t] n by simp
    let ?a = "ssize t - 11 + i mod 3" and ?b = "i div 3"
    have b: "?b \<le> 5" "i mod 3 \<le> 2" using i by auto
    have lt: "?a < 17 + 4 * version" "?b < 17 + 4 * version" using b size by auto
    let ?B = "bit_at (versionInformation version) i"
    have a1: "area version (?b * ssize t + ?a)" and a2: "area version (?a * ssize t + ?b)"
      using b False area_index [OF lt(1), of ?b] area_index [OF lt(2), of ?a] by (auto simp: size area_at_def)
    have "adds_within (area version) t (setFunction t ?a ?b ?B)"
      by (rule adds_within_setFunction) (rule a1)
    moreover have "ssize (setFunction t ?a ?b ?B) = ssize t" by (simp add: setFunction_def)
    then have "adds_within (area version) (setFunction t ?a ?b ?B)
        (setFunction (setFunction t ?a ?b ?B) ?b ?a ?B)"
      using a2 by (intro adds_within_setFunction) simp
    ultimately show "adds_within (area version) t
        (setFunction (setFunction t ?a ?b ?B) ?b ?a ?B)"
      by (rule adds_within_trans)
  qed
qed (simp add: drawVersion_def v)

lemma adds_timing:
  assumes n: "ssize s = 17 + 4 * version"
  shows "adds_within (area version) s
    (foldl (\<lambda>s i. setFunction (setFunction s 6 i (i mod 2 = 0)) i 6 (i mod 2 = 0)) s [0..<ssize s])"
proof (rule adds_within_foldl)
  fix t i assume t: "adds_within (area version) s t" and "i \<in> set [0..<ssize s]"
  then have i: "i < 17 + 4 * version" and size: "ssize t = 17 + 4 * version"
    using adds_within_size [OF t] n by auto
  let ?t = "setFunction t 6 i (i mod 2 = 0)"
  have six: "area version (i * (17 + 4 * version) + 6)" "area version (6 * (17 + 4 * version) + i)"
    using area_index [of 6 version i] area_index [of i version 6] i by (simp_all add: area_at_def)
  have "adds_within (area version) t ?t"
    by (rule adds_within_setFunction) (simp only: size six)
  moreover have "ssize ?t = ssize t" by (simp add: setFunction_def)
  then have "adds_within (area version) ?t (setFunction ?t i 6 (i mod 2 = 0))"
    by (intro adds_within_setFunction) (simp only: size six)
  ultimately show "adds_within (area version) t (setFunction ?t i 6 (i mod 2 = 0))"
    by (rule adds_within_trans)
qed

definition blank_symbol :: "nat \<Rightarrow> Level \<Rightarrow> symbol" where
  "blank_symbol version level = (let size = 17 + 4 * version in
     \<lparr>sversion = version, slevel = level, ssize = size,
      dark = replicate (size * size) False, func = replicate (size * size) False\<rparr>)"

lemma blank_symbol_fields [simp]:
  "ssize (blank_symbol v l) = 17 + 4 * v" "sversion (blank_symbol v l) = v" "slevel (blank_symbol v l) = l"
  "length (dark (blank_symbol v l)) = (17 + 4 * v) * (17 + 4 * v)"
  "length (func (blank_symbol v l)) = (17 + 4 * v) * (17 + 4 * v)"
  "i < (17 + 4 * v) * (17 + 4 * v) \<Longrightarrow> \<not> func (blank_symbol v l) ! i"
  by (simp_all add: blank_symbol_def Let_def)

lemma function_patterns_within:
  assumes s: "s = blank_symbol version level" and v: "1 \<le> version" "version \<le> MaxVersion"
  shows "adds_within (area version) s (drawFunctionPatterns s)"
    and "format_reserved (drawFunctionPatterns s)"
proof -
  let ?A = "adds_within (area version)" and ?n = "17 + 4 * version"
  define s1 where "s1 = foldl (\<lambda>s i. setFunction (setFunction s 6 i (i mod 2 = 0)) i 6 (i mod 2 = 0)) s
    [0..<ssize s]"
  define s2 where "s2 = drawFinder s1 3 3"
  define s3 where "s3 = drawFinder s2 (int (ssize s) - 4) 3"
  define s4 where "s4 = drawFinder s3 3 (int (ssize s) - 4)"
  define cs where "cs = alignmentCenters ! sversion s4"
  define s5 where "s5 = foldl (\<lambda>s i. foldl (\<lambda>s j.
      if (i = 0 \<and> j = 0) \<or> (i = 0 \<and> j = length cs - 1) \<or> (i = length cs - 1 \<and> j = 0) then s
      else drawAlignment s (int (cs ! i)) (int (cs ! j))) s [0..<length cs]) s4 [0..<length cs]"
  define s6 where "s6 = drawFormat s5 0"
  have result: "drawFunctionPatterns s = drawVersion s6"
    unfolding drawFunctionPatterns_def Let_def s6_def s5_def cs_def s4_def s3_def s2_def s1_def
    by (rule refl)
  have size: "ssize s = ?n" using s by simp
  have a1: "?A s s1" unfolding s1_def by (rule adds_timing) (rule size)
  have n1: "ssize s1 = ?n" using adds_within_size [OF a1] size by simp
  have a2: "?A s1 s2" unfolding s2_def by (rule adds_finder [OF n1]) simp
  have n2: "ssize s2 = ?n" using adds_within_size [OF a2] n1 by simp
  have a3: "?A s2 s3" unfolding s3_def by (rule adds_finder [OF n2]) (simp add: n2 size)
  have n3: "ssize s3 = ?n" using adds_within_size [OF a3] n2 by simp
  have a4: "?A s3 s4" unfolding s4_def by (rule adds_finder [OF n3]) (simp add: n3 size)
  have n4: "ssize s4 = ?n" "sversion s4 = version"
    using adds_within_size [OF a4] adds_within_size [OF a3] adds_within_size [OF a2]
      adds_within_size [OF a1] n3 s by auto
  have a5: "?A s4 s5" unfolding s5_def
  proof (intro adds_within_foldl)
    fix t i u j
    assume t: "?A s4 t" "?A t u" and ij: "i \<in> set [0..<length cs]" "j \<in> set [0..<length cs]"
    have "ssize u = ?n" using t n4 by (simp add: adds_within_def)
    then show "?A u (if (i = 0 \<and> j = 0) \<or> (i = 0 \<and> j = length cs - 1) \<or> (i = length cs - 1 \<and> j = 0)
        then u else drawAlignment u (int (cs ! i)) (int (cs ! j)))"
      using adds_alignment [of u version i j] v ij n4(2) by (auto simp: cs_def)
  qed
  have n5: "ssize s5 = ?n" "sversion s5 = version" using adds_within_size [OF a5] n4 by auto
  have a6: "?A s5 s6" unfolding s6_def by (rule adds_format [OF n5(1) v(1)])
  have n6: "ssize s6 = ?n" "sversion s6 = version" using adds_within_size [OF a6] n5 by auto
  have a7: "?A s6 (drawVersion s6)" by (rule adds_version [OF n6])
  have a15: "?A s s5"
    using a1 a2 a3 a4 a5 by (blast intro: adds_within_trans)
  show "?A s (drawFunctionPatterns s)"
    unfolding result using a15 a6 a7 by (blast intro: adds_within_trans)
  have "well_sized s5" using a15 s by (simp add: well_sized_def adds_within_def)
  then have "format_reserved s6" unfolding s6_def by (rule format_reserved_drawFormat)
  then show "format_reserved (drawFunctionPatterns s)"
    unfolding result using a7 by (auto simp: format_reserved_def adds_within_def)
qed

text \<open>The free area of each version, counted.\<close>

lemma column_cover:
  "x \<le> right \<Longrightarrow> x \<noteq> 6 \<Longrightarrow> odd right \<and> right < 6 \<or> even right \<and> 6 \<le> right \<Longrightarrow>
     \<exists>r \<in> set (column_list right). x = r \<or> x = r - 1"
proof (induction right rule: column_list.induct)
  case (1 right)
  define r where "r = (if right = 6 then 5 else right)"
  have pos: "right \<ge> 1" using "1.prems" by presburger
  then have cl: "column_list right = r # column_list (r - 2)"
    by (simp add: column_list.simps [of right] Let_def r_def)
  show ?case
  proof (cases "x = r \<or> x = r - 1")
    case False
    have "x \<le> r - 2" using False "1.prems" by (auto simp: r_def split: if_splits)
    moreover have "odd (r - 2) \<and> r - 2 < 6 \<or> even (r - 2) \<and> 6 \<le> r - 2"
      using False "1.prems" calculation by (auto simp: r_def split: if_splits)
    ultimately have "\<exists>r' \<in> set (column_list (r - 2)). x = r' \<or> x = r' - 1"
      using "1.IH" [OF pos r_def] "1.prems" by blast
    then show ?thesis using cl by auto
  qed (use cl in auto)
qed

lemma zigzag_cover:
  assumes "x < 17 + 4 * version" "y < 17 + 4 * version" "x \<noteq> 6" "1 \<le> version"
  shows "(x, y) \<in> set (zigzag (17 + 4 * version))"
proof -
  let ?n = "17 + 4 * version"
  obtain r where r: "r \<in> set (column_list (?n - 1))" "x = r \<or> x = r - 1"
    using column_cover [of x "?n - 1"] assms by auto
  define v where "v = (if (r + 1) AND 2 = 0 then ?n - 1 - y else y)"
  let ?y = "if (r + 1) AND 2 = 0 then ?n - 1 - v else v"
  have v: "v \<in> {0..<?n}" "?y = y"
    using assms by (auto simp: v_def)
  then have "(x, y) \<in> set [(r, ?y), (r - 1, ?y)]" using r(2) by simp
  then show ?thesis
    using r(1) v(1) unfolding zigzag_def Let_def set_concat set_map set_upt image_image by blast
qed

lemma count_1: "count_free False 21 [] = 208" by code_simp
lemma count_2: "count_free False 25 [(18, 18)] = 359" by code_simp
lemma count_3: "count_free False 29 [(22, 22)] = 567" by code_simp
lemma count_4: "count_free False 33 [(26, 26)] = 807" by code_simp
lemma count_5: "count_free False 37 [(30, 30)] = 1079" by code_simp
lemma count_6: "count_free False 41 [(34, 34)] = 1383" by code_simp
lemma count_7: "count_free True 45 [(6, 22), (22, 6), (22, 22), (22, 38), (38, 22), (38, 38)] = 1568"
  by code_simp
lemma count_8: "count_free True 49 [(6, 24), (24, 6), (24, 24), (24, 42), (42, 24), (42, 42)] = 1936"
  by code_simp
lemma count_9: "count_free True 53 [(6, 26), (26, 6), (26, 26), (26, 46), (46, 26), (46, 46)] = 2336"
  by code_simp
lemma count_10: "count_free True 57 [(6, 28), (28, 6), (28, 28), (28, 50), (50, 28), (50, 50)] = 2768"
  by code_simp

lemma free_count:
  assumes "1 \<le> version" "version \<le> MaxVersion"
  shows "8 * int (totalCodewords ! version) \<le>
    count_free (7 \<le> version) (int (17 + 4 * version)) (alignment_pairs (alignmentCenters ! version))"
  using version_cases [OF assms]
  by (elim disjE)
    (simp_all add: totalCodewords_def alignmentCenters_def alignment_pairs_def upt_rec_numeral upt_rec [of 0]
      count_1 count_2 count_3 count_4 count_5 count_6 count_7 count_8 count_9 count_10)

lemma count_free_card:
  "count_free b (int n) cs =
     int (card {(x, y). x < n \<and> y < n \<and> \<not> area_at b (int n) cs (int x) (int y)})"
proof -
  let ?f = "\<lambda>x y. if area_at b (int n) cs x y then 0 else 1 :: int"
  have s: "sum_list (map g [0..int n - 1]) = (\<Sum>x \<in> {0..<n}. g (int x))" for g :: "int \<Rightarrow> int"
  proof -
    have "sum_list (map g [0..int n - 1]) = sum g (set [0..int n - 1])"
      by (rule sum_list_distinct_conv_sum_set) simp
    also have "set [0..int n - 1] = int ` {0..<n}"
      by (auto simp: image_iff) (metis atLeastLessThan_iff le0 nat_less_iff nat_0_le)
    also have "sum g \<dots> = (\<Sum>x \<in> {0..<n}. g (int x))" by (simp add: sum.reindex)
    finally show ?thesis .
  qed
  let ?S = "{(x, y). x < n \<and> y < n \<and> \<not> area_at b (int n) cs (int x) (int y)}"
  have "count_free b (int n) cs = (\<Sum>y \<in> {0..<n}. \<Sum>x \<in> {0..<n}. ?f (int x) (int y))"
    unfolding count_free_def Let_def s ..
  also have "\<dots> = (\<Sum>(y, x) \<in> {0..<n} \<times> {0..<n}. ?f (int x) (int y))"
    by (rule sum.cartesian_product)
  also have "\<dots> = (\<Sum>(y, x) \<in> (\<lambda>(x, y). (y, x)) ` ?S. 1)"
    by (rule sum.mono_neutral_cong_right) (auto split: if_splits)
  also have "\<dots> = int (card ((\<lambda>(x, y). (y, x)) ` ?S))" by (simp add: split_def)
  also have "card ((\<lambda>(x, y). (y, x)) ` ?S) = card ?S"
    by (rule card_image) (auto simp: inj_on_def)
  finally show ?thesis .
qed

lemma distinct_free_modules: "distinct (free_modules s)"
proof -
  have "inj_on (module_index (ssize s)) (set (zigzag (ssize s)))"
  proof (rule inj_onI)
    fix p q assume pq: "p \<in> set (zigzag (ssize s))" "q \<in> set (zigzag (ssize s))"
      and eq: "module_index (ssize s) p = module_index (ssize s) q"
    obtain x y x' y' where c: "p = (x, y)" "q = (x', y')" by fastforce
    have "x < ssize s" "x' < ssize s" using pq zigzag_range by (auto simp: c)
    moreover have "y * ssize s + x = y' * ssize s + x'" using eq by (simp add: c module_index_def)
    ultimately have "x = x'" "y = y'"
      by (metis mod_mult_self3 mod_less, metis div_mult_self3 div_less add_cancel_right_right gr_implies_not0)
    then show "p = q" by (simp add: c)
  qed
  then show ?thesis
    unfolding free_modules_def by (intro distinct_filter) (simp add: distinct_map distinct_zigzag)
qed

lemma free_modules_range: "i \<in> set (free_modules s) \<Longrightarrow> i < ssize s * ssize s \<and> \<not> func s ! i"
proof -
  assume "i \<in> set (free_modules s)"
  then obtain x y where xy: "(x, y) \<in> set (zigzag (ssize s))" "i = y * ssize s + x" "\<not> func s ! i"
    by (auto simp: free_modules_def module_index_def)
  then have "x < ssize s" "Suc y \<le> ssize s" using zigzag_range [OF xy(1)] by auto
  then have "y * ssize s + x < Suc y * ssize s" by simp
  also have "\<dots> \<le> ssize s * ssize s" using \<open>Suc y \<le> ssize s\<close> by (rule mult_le_mono1)
  finally show ?thesis using xy by simp
qed

text \<open>Every version leaves room for all its codewords.\<close>

lemma enough_free_modules:
  assumes v: "1 \<le> version" "version \<le> MaxVersion"
  shows "8 * totalCodewords ! version \<le>
    length (free_modules (drawFunctionPatterns (blank_symbol version level)))"
proof -
  let ?s = "drawFunctionPatterns (blank_symbol version level)" and ?n = "17 + 4 * version"
  let ?S = "{(x, y). x < ?n \<and> y < ?n \<and> \<not> area_at (7 \<le> version) (int ?n)
      (alignment_pairs (alignmentCenters ! version)) (int x) (int y)}"
  have within: "adds_within (area version) (blank_symbol version level) ?s"
    using function_patterns_within [OF refl v] by blast
  then have size: "ssize ?s = ?n" by (simp add: adds_within_def)
  have sub: "module_index ?n ` ?S \<subseteq> set (free_modules ?s)"
  proof
    fix i assume "i \<in> module_index ?n ` ?S"
    then obtain x y where xy: "x < ?n" "y < ?n" "i = y * ?n + x"
      "\<not> area_at (7 \<le> version) (int ?n) (alignment_pairs (alignmentCenters ! version)) (int x) (int y)"
      by (auto simp: module_index_def)
    have "Suc y * ?n \<le> ?n * ?n" using xy(2) by (intro mult_le_mono1) simp
    then have i: "i < ?n * ?n" using xy(1,3) by simp
    have "\<not> area version i" using xy area_index [OF xy(1), of y] by simp
    then have "\<not> func ?s ! i" using within i by (auto simp: adds_within_def)
    moreover have "x \<noteq> 6" using xy(4) by (auto simp: area_at_def)
    then have "(x, y) \<in> set (zigzag ?n)" using zigzag_cover xy(1,2) v(1) by blast
    ultimately show "i \<in> set (free_modules ?s)"
      unfolding free_modules_def size using xy(3) by (force simp: module_index_def)
  qed
  have inj: "inj_on (module_index ?n) ?S"
  proof (rule inj_onI)
    fix p q assume pq: "p \<in> ?S" "q \<in> ?S" "module_index ?n p = module_index ?n q"
    obtain x y x' y' where c: "p = (x, y)" "q = (x', y')" by fastforce
    have "x < ?n" "x' < ?n" "y * ?n + x = y' * ?n + x'"
      using pq by (auto simp: c module_index_def)
    then have "x = x'" "y = y'"
      by (metis mod_mult_self3 mod_less, metis div_mult_self3 div_less add_cancel_right_right gr_implies_not0)
    then show "p = q" by (simp add: c)
  qed
  have "int (8 * totalCodewords ! version) \<le> int (card ?S)"
    using free_count [OF v] unfolding count_free_card by simp
  also have "card ?S = card (module_index ?n ` ?S)" using inj by (simp add: card_image)
  also have "int \<dots> \<le> int (card (set (free_modules ?s)))"
    using sub by (simp add: card_mono)
  also have "card (set (free_modules ?s)) = length (free_modules ?s)"
    by (rule distinct_card) (rule distinct_free_modules)
  finally show ?thesis by simp
qed

section \<open>The reader\<close>

definition bytes_of_bits :: "bool list \<Rightarrow> nat \<Rightarrow> bytes" where
  "bytes_of_bits bs n = map (\<lambda>k. of_nat (bits_value (take 8 (drop (8 * k) bs)))) [0..<n]"

definition decode_symbol :: "code \<Rightarrow> bytes option" where
  "decode_symbol c =
     (let s = (drawFunctionPatterns (blank_symbol (cVersion c) (cLevel c)))\<lparr>dark := cdark c\<rparr>;
          unmasked = applyMask s (cMask c);
          bs = map (\<lambda>i. dark unmasked ! i) (free_modules unmasked);
          spec = spec_of (cVersion c) (cLevel c)
      in read_byte_mode (deinterleave (bytes_of_bits bs (spec_totalCodewords spec)) spec) (cVersion c))"

lemma newSymbol_eq:
  "newSymbol version level data =
     drawCodewords (drawFunctionPatterns (blank_symbol version level))
       (interleave (dataCodewords data version (spec_of version level)) (spec_of version level))"
  by (simp add: newSymbol_def blank_symbol_def Let_def)

lemma bits_value_byte: "of_nat (bits_value (int_bits (uint b) 8)) = (b :: byte)"
proof -
  have "uint b < 2 ^ LENGTH(8)" by (rule unsigned_less)
  then have "take_bit 8 (uint b) = uint b" by (intro take_bit_int_eq_self) simp_all
  then have "int (bits_value (int_bits (uint b) 8)) = uint b"
    by (simp only: bits_value_int_bits)
  then show ?thesis by (metis of_int_of_nat_eq word_of_int_uint)
qed

lemma stream_byte:
  "k < length cw \<Longrightarrow> map (\<lambda>j. stream_bit cw (8 * k + j)) [0..<8] = int_bits (uint (cw ! k)) 8"
  by (intro list_eq_nthI) (auto simp: stream_bit_def int_bits_def rev_nth bit_uint_iff)

lemma bytes_of_stream:
  assumes "n = length cw" "8 * n \<le> length bs" "\<And>i. i < 8 * n \<Longrightarrow> bs ! i = stream_bit cw i"
  shows "bytes_of_bits bs n = cw"
proof (rule list_eq_nthI)
  fix k assume k: "k < length cw"
  have "take 8 (drop (8 * k) bs) = map (\<lambda>j. stream_bit cw (8 * k + j)) [0..<8]"
    using k assms by (intro list_eq_nthI) auto
  then show "bytes_of_bits bs n ! k = cw ! k"
    using k assms(1) by (simp add: bytes_of_bits_def stream_byte bits_value_byte)
qed (simp add: bytes_of_bits_def assms(1))

lemma drawCodewords_fields [simp, frame_simps]:
  "sversion (drawCodewords s cw) = sversion s" "slevel (drawCodewords s cw) = slevel s"
  "ssize (drawCodewords s cw) = ssize s" "func (drawCodewords s cw) = func s"
  "length (dark (drawCodewords s cw)) = length (dark s)"
  by (simp_all add: drawCodewords_put)

lemma newSymbol_ok:
  assumes "1 \<le> version" "version \<le> MaxVersion"
  shows "format_reserved (newSymbol version level data)" "well_sized (newSymbol version level data)"
    "sversion (newSymbol version level data) = version" "slevel (newSymbol version level data) = level"
    "ssize (newSymbol version level data) = 17 + 4 * version"
    "func (newSymbol version level data) = func (drawFunctionPatterns (blank_symbol version level))"
  using function_patterns_within [OF refl assms, of level]
  by (auto simp: newSymbol_eq format_reserved_def well_sized_def adds_within_def)

text \<open>Unmasking a finished symbol gives the drawn codewords back on every free module.\<close>

lemma unmask_finish:
  assumes s: "format_reserved s" "well_sized s" and i: "i < ssize s * ssize s" "\<not> func s ! i"
    and t: "ssize t = ssize s" "func t = func s" "dark t = cdark (finish s m)"
  shows "dark (applyMask t m) ! i = dark s ! i"
proof -
  have res: "format_reserved (applyMask s m)" "well_sized (applyMask s m)"
    using s by (auto simp: format_reserved_def well_sized_def)
  have "dark t ! i = dark (applyMask s m) ! i"
    using t i res s drawFormat_dark_other [of "applyMask s m" i m] by (simp add: finish_def Let_def)
  moreover have "dark (applyMask t m) ! i = (dark t ! i \<noteq> mask_selects s m i)"
    using i t s by (subst applyMask_nth) (auto simp: mask_selects_def finish_def Let_def well_sized_def)
  ultimately show ?thesis
    using i s by (auto simp: applyMask_nth well_sized_def)
qed

lemma decode_finish:
  assumes "chooseVersion data level = Inr version"
  shows "decode_symbol (finish (newSymbol version level data) m) = Some data"
proof -
  note v = chooseVersion_Inr [OF assms]
  let ?spec = "spec_of version level"
  let ?cw = "interleave (dataCodewords data version ?spec) ?spec"
  let ?p = "drawFunctionPatterns (blank_symbol version level)"
  let ?s = "newSymbol version level data"
  note new = newSymbol_ok [OF v(2,3), of level data]
  have ok: "spec_ok version ?spec" using v by (intro spec_of_ok)
  have len: "length (dataCodewords data version ?spec) = spec_dataCodewords ?spec"
    by (rule length_dataCodewords [OF assms])
  have lcw: "length ?cw = spec_totalCodewords ?spec" by (rule length_interleave [OF ok len])
  have total: "spec_totalCodewords ?spec = totalCodewords ! version" using ok by (simp add: spec_ok_def)
  define c where "c = finish ?s m"
  have c: "cVersion c = version" "cLevel c = level" "cMask c = m"
    by (simp_all add: c_def finish_def Let_def new)
  define t where "t = ?p\<lparr>dark := cdark c\<rparr>"
  have psize: "ssize ?p = ssize ?s" "func ?p = func ?s"
    using function_patterns_within [OF refl v(2,3), of level] new by (auto simp: adds_within_def)
  have t: "ssize t = ssize ?s" "func t = func ?s" "dark t = cdark c"
    by (simp_all add: t_def psize)
  have free: "free_modules (applyMask t m) = free_modules ?p"
    by (simp add: free_modules_def t psize)
  have enough: "8 * length ?cw \<le> length (free_modules ?p)"
    unfolding lcw total by (rule enough_free_modules [OF v(2,3)])
  have bit: "dark (applyMask t m) ! (free_modules ?p ! k) = stream_bit ?cw k"
    if k: "k < 8 * length ?cw" for k
  proof -
    let ?i = "free_modules ?p ! k"
    have "?i \<in> set (free_modules ?p)" using k enough by simp
    then have i: "?i < ssize ?s * ssize ?s" "\<not> func ?s ! ?i"
      using free_modules_range [of ?i ?p] psize by auto
    have "dark (applyMask t m) ! ?i = dark ?s ! ?i"
      using unmask_finish [OF new(1,2) i t(1,2)] t(3) by (simp add: c_def)
    also have "\<dots> = put_cells (zip (free_modules ?p) (map (stream_bit ?cw) [0..<8 * length ?cw]))
        (dark ?p) ! ?i"
      by (simp add: newSymbol_eq drawCodewords_put)
    also have "\<dots> = map (stream_bit ?cw) [0..<8 * length ?cw] ! k"
    proof (rule put_cells_zip_nth)
      have "length (dark ?p) = ssize ?p * ssize ?p"
        using function_patterns_within [OF refl v(2,3), of level] by (simp add: adds_within_def)
      then show "\<forall>i \<in> set (free_modules ?p). i < length (dark ?p)"
        using free_modules_range [of _ ?p] by auto
    qed (use k enough in \<open>simp_all add: distinct_free_modules\<close>)
    also have "\<dots> = stream_bit ?cw k" using k by simp
    finally show ?thesis .
  qed
  have "bytes_of_bits (map (\<lambda>i. dark (applyMask t m) ! i) (free_modules ?p)) (spec_totalCodewords ?spec) = ?cw"
    using enough bit by (intro bytes_of_stream) (simp_all add: lcw)
  then have "decode_symbol c = read_byte_mode (deinterleave ?cw ?spec) version"
    by (simp add: decode_symbol_def Let_def c t_def [symmetric] free)
  also have "deinterleave ?cw ?spec = dataCodewords data version ?spec"
    by (rule deinterleave_interleave [OF ok len])
  also have "read_byte_mode \<dots> version = Some data"
    using v(4) chooseVersion_length [OF assms] by (rule read_byte_mode_dataCodewords)
  finally show ?thesis by (simp add: c_def)
qed

end
