(* ===== verification/QR_Properties.thy ===== *)
theory QR_Properties
  imports QR_Decode
begin

text \<open>
  The properties of the QR encoder, stated over the definitions of the QR theories: what
  \<open>Encode\<close> writes can be read back, the mask is the best of eight, a block and its error
  correction form a Reed-Solomon codeword, and the symbol keeps its function patterns.
\<close>

section \<open>Shared facts\<close>

lemma finish_fields:
  "cVersion (finish s m) = sversion s" "cLevel (finish s m) = slevel s" "cMask (finish s m) = m"
  "cSize (finish s m) = ssize s" "cdark (finish s m) = dark (masked s m)"
  by (simp_all add: finish_def Let_def masked_def)

lemma Encode_finish:
  assumes "chooseVersion data level = Inr version"
  obtains best where "Encode data level = Inr (finish (newSymbol version level data) best)" "best < 8"
    "\<And>m. m < 8 \<Longrightarrow> penalty (masked (newSymbol version level data) best) \<le>
       penalty (masked (newSymbol version level data) m)"
    "\<And>m. m < best \<Longrightarrow> penalty (masked (newSymbol version level data) best) <
       penalty (masked (newSymbol version level data) m)"
proof -
  let ?s = "newSymbol version level data"
  note v = chooseVersion_Inr [OF assms]
  note ok = newSymbol_ok(1,2) [OF v(2,3), of level data]
  obtain s best p where run: "foldl try_mask (?s, 0, -1) [0..<8] = (s, best, p)"
    by (metis prod_cases3)
  note choice = choose_mask [OF ok run]
  have "Encode data level = Inr (finish ?s best)"
    by (simp only: Encode_def assms sum.case run prod.case choice(2))
  with choice that show ?thesis by blast
qed

lemma hello_version: "chooseVersion [104, 105] LevelM = Inr 1"
  by (simp add: chooseVersion_def level_valid_def LevelM_def LevelL_def LevelH_def MaxVersion_def
      upt_conv_Cons characterCountBits_def spec_of_def blockSpecs_def bspec_def spec_dataCodewords_def)

section \<open>Encoding\<close>

text \<open>C1: Encoding is lossless, and its only failures are those of the version choice. A
  reader that knows the version, level and mask of the symbol unmasks it, follows the zigzag
  over the free modules, undoes the interleaving and reads byte mode: it gets the data back.\<close>

theorem qr_encode_roundtrip:
  "map_sum id decode_symbol (Encode data level) =
     map_sum id (\<lambda>version. Some data) (chooseVersion data level)"
proof (cases "chooseVersion data level")
  case (Inr version)
  then show ?thesis using Encode_finish [OF Inr] decode_finish [OF Inr] by (metis map_sum.simps(2))
qed (simp add: Encode_def)

text \<open>C2: \<open>Encode\<close> answers exactly what \<open>encodeWithMask\<close> draws at the mask it chose; the
  masked symbol scores no more penalty than under any of the eight masks, and strictly less
  than under any mask tried before it.\<close>

theorem qr_encode_least_penalty:
  assumes "Encode data level = Inr c"
  shows "cMask c < 8 \<and> encodeWithMask data level (int (cMask c)) = Inr c \<and>
    (\<forall>m < 8. penalty (masked (newSymbol (cVersion c) level data) (cMask c)) \<le>
       penalty (masked (newSymbol (cVersion c) level data) m)) \<and>
    (\<forall>m < cMask c. penalty (masked (newSymbol (cVersion c) level data) (cMask c)) <
       penalty (masked (newSymbol (cVersion c) level data) m))"
proof -
  obtain version where v: "chooseVersion data level = Inr version"
    using assms by (cases "chooseVersion data level") (auto simp: Encode_def)
  note ok = newSymbol_ok [OF chooseVersion_Inr(2,3) [OF v], of level data]
  obtain best where best: "Encode data level = Inr (finish (newSymbol version level data) best)"
    "best < 8"
    "\<And>m. m < 8 \<Longrightarrow> penalty (masked (newSymbol version level data) best) \<le>
       penalty (masked (newSymbol version level data) m)"
    "\<And>m. m < best \<Longrightarrow> penalty (masked (newSymbol version level data) best) <
       penalty (masked (newSymbol version level data) m)"
    using Encode_finish [OF v] by blast
  then have c: "c = finish (newSymbol version level data) best" using assms by simp
  have "encodeWithMask data level (int best) = Inr c"
    using best(2) by (simp add: encodeWithMask_def v c)
  then show ?thesis using best(2-4) ok(3) by (simp add: c finish_fields)
qed

lemma qr_encode_least_penalty_witness:
  "\<exists>c. Encode [104, 105] LevelM = Inr c \<and> encodeWithMask [104, 105] LevelM (int (cMask c)) = Inr c"
  using Encode_finish [OF hello_version] qr_encode_least_penalty [of "[104, 105]" LevelM] by metis

text \<open>C6: The version chosen is the least one whose data codewords hold the mode, the length
  field and the data; no version is chosen exactly when the level is invalid or no version up
  to \<open>MaxVersion\<close> is large enough.\<close>

theorem qr_choose_version:
  "chooseVersion data level = Inr version \<longleftrightarrow>
     level_valid level \<and> version \<in> {1..MaxVersion} \<and>
     4 + characterCountBits version + 8 * length data \<le> spec_dataCodewords (spec_of version level) * 8 \<and>
     (\<forall>v \<in> {1..<version}.
        spec_dataCodewords (spec_of v level) * 8 < 4 + characterCountBits v + 8 * length data)"
  (is "?lhs \<longleftrightarrow> ?rhs")
proof
  assume ?lhs
  then show ?rhs using chooseVersion_Inr by auto
next
  assume r: ?rhs
  show ?lhs
  proof (cases "chooseVersion data level")
    case (Inl e)
    then have "List.find (\<lambda>v. 4 + characterCountBits v + 8 * length data
        \<le> spec_dataCodewords (spec_of v level) * 8) [1..<Suc MaxVersion] = None"
      using r by (auto simp: chooseVersion_def simp del: upt_Suc split: option.splits)
    then show ?thesis using r unfolding find_None_iff by auto
  next
    case (Inr w)
    note w = chooseVersion_Inr [OF Inr]
    have "w = version"
    proof (rule ccontr)
      assume "w \<noteq> version"
      then consider "w < version" | "version < w" by linarith
      then show False
        using r w(2,4) w(5) [of version] by cases (force, force)
    qed
    with Inr show ?thesis by simp
  qed
qed

lemma qr_choose_version_witness: "chooseVersion (replicate 20 7) LevelM = Inr 2"
proof -
  have "v = 1" if "v \<in> {1..<2}" for v :: nat using that by auto
  then show ?thesis
    using qr_choose_version [of "replicate 20 7" LevelM 2]
    by (auto simp: level_valid_def LevelM_def LevelL_def LevelH_def MaxVersion_def
        characterCountBits_def spec_of_def blockSpecs_def bspec_def spec_dataCodewords_def)
qed

section \<open>Error correction\<close>

text \<open>C4: The product read from the logarithm tables is multiplication in GF(2^8): it equals
  shift-and-add multiplication of polynomials modulo the field polynomial, for all bytes.\<close>

theorem qr_multiply_is_field_product: "multiply a b = gf_mul a b"
  by (rule multiply_eq_gf_mul)

text \<open>C3: A block followed by the error correction computed for it is a Reed-Solomon codeword:
  read as a polynomial, it vanishes at the first \<open>n\<close> powers of the generator, the roots of the
  generator polynomial.\<close>

theorem qr_codeword_syndromes_vanish:
  assumes "i < n" "n \<le> 255"
  shows "length (errorCorrection data n) = n \<and>
    gf_eval (data @ errorCorrection data n) (apow i) = 0 \<and> gf_eval (generatorPolynomial n) (apow i) = 0"
  using assms codeword_syndromes generatorPolynomial_root by auto

lemma qr_codeword_syndromes_vanish_witness:
  "gf_eval ([32, 91, 11] @ errorCorrection [32, 91, 11] 10) (apow 3) = 0"
  using qr_codeword_syndromes_vanish [of 3 10 "[32, 91, 11]"] by simp

text \<open>C5: For the block table of every version and level, interleaving produces exactly the
  version's number of codewords, and the data codewords can be recovered from it.\<close>

theorem qr_interleave_recoverable:
  assumes "1 \<le> version" "version \<le> MaxVersion" "level_valid level"
    and "length data = spec_dataCodewords (spec_of version level)"
  shows "length (interleave data (spec_of version level)) = totalCodewords ! version \<and>
    deinterleave (interleave data (spec_of version level)) (spec_of version level) = data"
proof -
  have ok: "spec_ok version (spec_of version level)" using assms by (intro spec_of_ok)
  then show ?thesis
    using length_interleave [OF ok assms(4)] deinterleave_interleave [OF ok assms(4)]
    by (simp add: spec_ok_def)
qed

lemma qr_interleave_recoverable_witness:
  "deinterleave (interleave (replicate 13 1) (spec_of 1 LevelQ)) (spec_of 1 LevelQ) = replicate 13 1"
  using qr_interleave_recoverable [of 1 LevelQ "replicate 13 1"]
  by (simp add: MaxVersion_def level_valid_def LevelL_def LevelH_def LevelQ_def spec_of_def
      blockSpecs_def bspec_def spec_dataCodewords_def)

section \<open>The symbol\<close>

text \<open>C8: Applying a mask twice undoes it, and it never touches a function module.\<close>

theorem qr_mask_involution:
  assumes "length (dark s) = ssize s * ssize s"
  shows "applyMask (applyMask s m) m = s \<and>
    (\<forall>i < ssize s * ssize s. func s ! i \<longrightarrow> dark (applyMask s m) ! i = dark s ! i)"
  using assms by (simp add: applyMask_twice applyMask_nth mask_selects_def)

lemma qr_mask_involution_witness:
  "applyMask (applyMask (blank_symbol 1 LevelL) 3) 3 = blank_symbol 1 LevelL"
  using qr_mask_involution [of "blank_symbol 1 LevelL" 3] by simp

text \<open>C7: A finished symbol keeps its function patterns: outside the format information every
  function module is as \<open>drawFunctionPatterns\<close> drew it, whatever the data and the mask, and the
  format information is that of the symbol's own level and mask.\<close>

theorem qr_function_patterns_kept:
  assumes "encodeWithMask data level m = Inr c"
    and "i < cSize c * cSize c"
    and "func (drawFunctionPatterns (blank_symbol (cVersion c) level)) ! i"
  shows "cdark c ! i =
    (if i \<in> format_area (cSize c) then dark (drawFormat (blank_symbol (cVersion c) level) (nat m)) ! i
     else dark (drawFunctionPatterns (blank_symbol (cVersion c) level)) ! i)"
proof -
  obtain version where v: "chooseVersion data level = Inr version"
    and c: "c = finish (newSymbol version level data) (nat m)"
    using assms(1) by (auto simp: encodeWithMask_def split: if_splits sum.splits)
  let ?p = "drawFunctionPatterns (blank_symbol version level)"
  let ?s = "newSymbol version level data"
  note ok = newSymbol_ok [OF chooseVersion_Inr(2,3) [OF v], of level data]
  have i: "i < ssize ?s * ssize ?s" "func ?s ! i"
    using assms(2,3) ok by (auto simp: c finish_fields)
  have same: "dark (applyMask ?s (nat m)) ! i = dark ?s ! i"
    using i ok(2) by (subst applyMask_nth) (auto simp: mask_selects_def well_sized_def)
  have sizes: "length (dark ?s) = ssize ?s * ssize ?s" "ssize ?p = ssize ?s"
    using ok function_patterns_within [OF refl chooseVersion_Inr(2,3) [OF v], of level]
    by (auto simp: well_sized_def adds_within_def)
  show ?thesis
  proof (cases "i \<in> format_area (ssize ?s)")
    case True
    have "put_cells (format_cells (ssize ?s) b) (dark (applyMask ?s (nat m))) ! i =
        put_cells (format_cells (ssize ?s) b) (dark (blank_symbol version level)) ! i" for b
      using True i(1) sizes ok by (intro put_cells_same) auto
    then show ?thesis
      using True ok by (simp add: c finish_fields masked_def drawFormat_paint paint_def)
  next
    case False
    have "i \<notin> fst ` set (zip (free_modules ?p) bs)" for bs :: "bool list"
      using free_modules_range [of i ?p] i ok(6) by (auto dest: set_zip_leftD)
    then have "dark ?s ! i = dark ?p ! i"
      by (simp add: newSymbol_eq drawCodewords_put put_cells_other)
    then show ?thesis
      using False same ok by (simp add: c finish_fields masked_def drawFormat_paint paint_def put_cells_other)
  qed
qed

lemma qr_function_patterns_kept_witness:
  "\<exists>c. encodeWithMask [104, 105] LevelM 2 = Inr c \<and> cdark c ! 8 = dark (drawFormat (blank_symbol 1 LevelM) 2) ! 8"
proof -
  let ?c = "finish (newSymbol 1 LevelM [104, 105]) 2"
  have enc: "encodeWithMask [104, 105] LevelM 2 = Inr ?c"
    by (simp add: encodeWithMask_def hello_version)
  have one: "1 \<le> (1 :: nat)" "1 \<le> MaxVersion" by (simp_all add: MaxVersion_def)
  note ok = newSymbol_ok [OF one, of LevelM "[104, 105]"]
  have eight: "8 \<in> format_area 21" by (force simp: format_area_def format_cells_def)
  have "func (drawFunctionPatterns (blank_symbol 1 LevelM)) ! 8"
    using function_patterns_within [OF refl one, of LevelM] eight
    by (auto simp: format_reserved_def adds_within_def)
  then show ?thesis
    using qr_function_patterns_kept [OF enc, of 8] eight ok enc by (simp add: finish_fields)
qed

text \<open>The sixteen-bit weights of the format and version words, compared pairwise.\<close>

fun hamming_weight :: "nat \<Rightarrow> int \<Rightarrow> int" where
  "hamming_weight 0 v = 0"
| "hamming_weight (Suc n) v = v mod 2 + hamming_weight n (v div 2)"

definition codes_far :: "int \<Rightarrow> nat \<Rightarrow> (int \<times> int) list \<Rightarrow> bool" where
  "codes_far d n codes \<longleftrightarrow> list_all (\<lambda>(k, a). list_all (\<lambda>(k', b).
     k = k' \<or> d \<le> hamming_weight n (a XOR b)) codes) codes"

lemma codes_farD:
  "codes_far d n codes \<Longrightarrow> (k, a) \<in> set codes \<Longrightarrow> (k', b) \<in> set codes \<Longrightarrow> k \<noteq> k' \<Longrightarrow>
     d \<le> hamming_weight n (a XOR b)"
  unfolding codes_far_def list_all_iff by fastforce

lemma format_codes_far:
  "codes_far 5 15 (map (\<lambda>k. (k, formatInformation (k div 8) (k mod 8))) [0..31])"
  by code_simp

lemma version_codes_far: "codes_far 8 18 (map (\<lambda>v. (int v, versionInformation v)) [7, 8, 9, 10])"
  by code_simp

text \<open>C9: The format information is a code of minimum distance 5 and the version information one
  of minimum distance 8: the words of two different pairs of level and mask, or of two
  versions that carry them, differ in at least so many bits, so two damaged modules of a format
  copy, or three of a version copy, never turn one word into another.\<close>

theorem qr_information_distance:
  "(\<forall>k \<in> {0..31}. \<forall>k' \<in> {0..31}. k \<noteq> k' \<longrightarrow>
      5 \<le> hamming_weight 15 (formatInformation (k div 8) (k mod 8) XOR formatInformation (k' div 8) (k' mod 8))) \<and>
   (\<forall>v \<in> {7..MaxVersion}. \<forall>v' \<in> {7..MaxVersion}. v \<noteq> v' \<longrightarrow>
      8 \<le> hamming_weight 18 (versionInformation v XOR versionInformation v'))"
proof (intro conjI ballI impI)
  fix k k' :: int
  assume "k \<in> {0..31}" "k' \<in> {0..31}" "k \<noteq> k'"
  then show "5 \<le> hamming_weight 15
      (formatInformation (k div 8) (k mod 8) XOR formatInformation (k' div 8) (k' mod 8))"
    by (intro codes_farD [OF format_codes_far]) auto
next
  fix v v' :: nat
  assume "v \<in> {7..MaxVersion}" "v' \<in> {7..MaxVersion}" and ne: "v \<noteq> v'"
  then have "v \<in> {7, 8, 9, 10}" "v' \<in> {7, 8, 9, 10}" by (auto simp: MaxVersion_def)
  then show "8 \<le> hamming_weight 18 (versionInformation v XOR versionInformation v')"
    using ne by (intro codes_farD [OF version_codes_far, of "int v" _ "int v'"]) auto
qed

lemma qr_information_distance_witness:
  "5 \<le> hamming_weight 15 (formatInformation LevelL 0 XOR formatInformation LevelM 1)"
  using bspec [OF bspec [OF conjunct1 [OF qr_information_distance], of 0], of 9]
  by (simp add: LevelL_def LevelM_def)

end
