(* ===== verification/Utf8.thy ===== *)
theory Utf8
  imports Prelude
begin

text \<open>
  What the code uses of Go's \<open>unicode/utf8\<close> and of the conversions between strings and rune
  slices: a Go string is a byte list, a rune a natural number (Go's \<open>rune\<close>, never negative
  here). \<open>decode_rune\<close> is \<open>utf8.DecodeRune\<close>, \<open>utf8_valid\<close> is \<open>utf8.Valid\<close>, \<open>encode_rune\<close> is
  \<open>utf8.AppendRune\<close>, \<open>runes_of\<close> is \<open>[]rune(s)\<close> and \<open>string_of\<close> is \<open>string(runes)\<close>. The lemmas show
  that decoding and encoding are inverse to each other on scalar values and valid strings.
\<close>

type_synonym rune = nat

definition RuneError :: rune where "RuneError = 0xFFFD"

definition MaxRune :: rune where "MaxRune = 0x10FFFF"

definition scalar :: "rune \<Rightarrow> bool" where
  "scalar r \<longleftrightarrow> r < 0xD800 \<or> (0xDFFF < r \<and> r \<le> MaxRune)"

text \<open>For the first byte of a multi-byte sequence: its size and the range of its second byte.\<close>

definition sequence_info :: "nat \<Rightarrow> (nat \<times> nat \<times> nat) option" where
  "sequence_info b =
     (if 0xC2 \<le> b \<and> b \<le> 0xDF then Some (2, 0x80, 0xBF)
      else if b = 0xE0 then Some (3, 0xA0, 0xBF)
      else if b = 0xED then Some (3, 0x80, 0x9F)
      else if 0xE1 \<le> b \<and> b \<le> 0xEF then Some (3, 0x80, 0xBF)
      else if b = 0xF0 then Some (4, 0x90, 0xBF)
      else if 0xF1 \<le> b \<and> b \<le> 0xF3 then Some (4, 0x80, 0xBF)
      else if b = 0xF4 then Some (4, 0x80, 0x8F)
      else None)"

definition continuation :: "nat \<Rightarrow> bool" where
  "continuation b \<longleftrightarrow> 0x80 \<le> b \<and> b \<le> 0xBF"

definition decode_nats :: "nat list \<Rightarrow> rune \<times> nat" where
  "decode_nats p =
     (case p of
        [] \<Rightarrow> (RuneError, 0)
      | b # q \<Rightarrow>
          if b < 0x80 then (b, 1)
          else
            case sequence_info b of
              None \<Rightarrow> (RuneError, 1)
            | Some (n, lo, hi) \<Rightarrow>
                if length p < n \<or> \<not> (lo \<le> p ! 1 \<and> p ! 1 \<le> hi) then (RuneError, 1)
                else if n = 2 then (b mod 32 * 64 + p ! 1 mod 64, 2)
                else if \<not> continuation (p ! 2) then (RuneError, 1)
                else if n = 3 then (b mod 16 * 4096 + p ! 1 mod 64 * 64 + p ! 2 mod 64, 3)
                else if \<not> continuation (p ! 3) then (RuneError, 1)
                else (b mod 8 * 262144 + p ! 1 mod 64 * 4096 + p ! 2 mod 64 * 64 + p ! 3 mod 64, 4))"

definition decode_rune :: "bytes \<Rightarrow> rune \<times> nat" where
  "decode_rune p = decode_nats (map unat p)"

definition encode_nats :: "rune \<Rightarrow> nat list" where
  "encode_nats r =
     (if r < 0x80 then [r]
      else if r < 0x800 then [0xC0 + r div 64, 0x80 + r mod 64]
      else if \<not> scalar r then [0xEF, 0xBF, 0xBD]
      else if r < 0x10000 then [0xE0 + r div 4096, 0x80 + r div 64 mod 64, 0x80 + r mod 64]
      else [0xF0 + r div 262144, 0x80 + r div 4096 mod 64, 0x80 + r div 64 mod 64, 0x80 + r mod 64])"

definition encode_rune :: "rune \<Rightarrow> bytes" where
  "encode_rune r = map of_nat (encode_nats r)"

definition string_of :: "rune list \<Rightarrow> bytes" where
  "string_of rs = concat (map encode_rune rs)"

lemma decode_nats_size: "p \<noteq> [] \<Longrightarrow> 0 < snd (decode_nats p)"
  by (auto simp: decode_nats_def split: list.splits option.splits)

lemma decode_rune_size: "p \<noteq> [] \<Longrightarrow> 0 < snd (decode_rune p)"
  by (simp add: decode_rune_def decode_nats_size)

lemma decode_rune_drop_less [simp]:
  assumes "p \<noteq> []" "(r, n) = decode_rune p"
  shows "length (drop n p) < length p"
proof -
  have "0 < n" using decode_rune_size [OF assms(1)] assms(2) by (metis snd_conv)
  with assms(1) show ?thesis by simp
qed

function utf8_valid :: "bytes \<Rightarrow> bool" where
  "utf8_valid [] = True"
| "utf8_valid (b # bs) =
     (let (r, n) = decode_rune (b # bs)
      in \<not> (r = RuneError \<and> n = 1) \<and> utf8_valid (drop n (b # bs)))"
  by pat_completeness auto
termination
  by (relation "measure length") (auto dest: decode_rune_drop_less [rotated] simp del: length_drop drop_Cons)

function runes_of :: "bytes \<Rightarrow> rune list" where
  "runes_of [] = []"
| "runes_of (b # bs) = (let (r, n) = decode_rune (b # bs) in r # runes_of (drop n (b # bs)))"
  by pat_completeness auto
termination
  by (relation "measure length") (auto dest: decode_rune_drop_less [rotated] simp del: length_drop drop_Cons)

declare utf8_valid.simps [simp del] runes_of.simps [simp del]

lemma utf8_valid_unfold:
  "utf8_valid p \<longleftrightarrow>
     p = [] \<or> (let (r, n) = decode_rune p in \<not> (r = RuneError \<and> n = 1) \<and> utf8_valid (drop n p))"
  by (cases p) (simp_all add: utf8_valid.simps)

lemma runes_of_unfold:
  "runes_of p = (if p = [] then [] else let (r, n) = decode_rune p in r # runes_of (drop n p))"
  by (cases p) (simp_all add: runes_of.simps)

section \<open>Encoding and decoding\<close>

lemma scalar_le: "scalar r \<Longrightarrow> r \<le> 1114111"
  by (auto simp: scalar_def MaxRune_def)

lemma encode_nats_not_Nil [simp]: "encode_nats r \<noteq> []"
  by (simp add: encode_nats_def)

text \<open>The four forms of a scalar value, by its base-64 digits.\<close>

lemma scalar_forms:
  assumes "scalar r"
  obtains (one) "r < 128" "encode_nats r = [r]"
  | (two) a b where "r = a * 64 + b" "2 \<le> a" "a < 32" "b < 64" "encode_nats r = [192 + a, 128 + b]"
  | (three) a b c where "r = a * 4096 + b * 64 + c" "a < 16" "b < 64" "c < 64"
      "a = 0 \<Longrightarrow> 32 \<le> b" "a = 13 \<Longrightarrow> b < 32" "encode_nats r = [224 + a, 128 + b, 128 + c]"
  | (four) a b c d where "r = a * 262144 + b * 4096 + c * 64 + d" "a < 5" "b < 64" "c < 64" "d < 64"
      "a = 0 \<Longrightarrow> 16 \<le> b" "a = 4 \<Longrightarrow> b < 16" "encode_nats r = [240 + a, 128 + b, 128 + c, 128 + d]"
proof -
  note le = scalar_le [OF assms]
  consider "r < 128" | "128 \<le> r" "r < 2048" | "2048 \<le> r" "r < 65536" | "65536 \<le> r" by linarith
  then show thesis
  proof cases
    case 1 with one show ?thesis by (simp add: encode_nats_def)
  next
    case 2
    have "r = r div 64 * 64 + r mod 64" by simp
    moreover have "2 \<le> r div 64" "r div 64 < 32" using 2 by linarith+
    moreover have "encode_nats r = [192 + r div 64, 128 + r mod 64]" using 2 by (simp add: encode_nats_def)
    ultimately show ?thesis by (intro two [of "r div 64" "r mod 64"]) simp_all
  next
    case 3
    let ?a = "r div 4096" let ?b = "r div 64 mod 64" let ?c = "r mod 64"
    have d: "r div 4096 = r div 64 div 64" by (simp add: div_mult2_eq [symmetric])
    have r: "r = ?a * 4096 + ?b * 64 + ?c"
      using div_mult_mod_eq [of r 64] div_mult_mod_eq [of "r div 64" 64] unfolding d by linarith
    have gap: "r < 55296 \<or> 57343 < r" using assms by (auto simp: scalar_def)
    have "?a = 13 \<Longrightarrow> ?b < 32"
    proof (rule ccontr)
      assume "?a = 13" "\<not> ?b < 32"
      moreover have "?b < 64" "?c < 64" by simp_all
      ultimately have "55296 \<le> r" "r \<le> 57343" using r by linarith+
      with gap show False by linarith
    qed
    moreover have "?a = 0 \<Longrightarrow> 32 \<le> ?b" using 3 r by linarith
    moreover have "encode_nats r = [224 + ?a, 128 + ?b, 128 + ?c]"
      using 3 assms by (simp add: encode_nats_def)
    moreover have "?a < 16" using 3 by linarith
    ultimately show ?thesis using r by (intro three [of ?a ?b ?c]) simp_all
  next
    case 4
    let ?a = "r div 262144" let ?b = "r div 4096 mod 64" let ?c = "r div 64 mod 64" let ?d = "r mod 64"
    have d: "r div 4096 = r div 64 div 64" "r div 262144 = r div 4096 div 64"
      by (simp_all add: div_mult2_eq [symmetric])
    have r: "r = ?a * 262144 + ?b * 4096 + ?c * 64 + ?d"
      using div_mult_mod_eq [of r 64] div_mult_mod_eq [of "r div 64" 64]
        div_mult_mod_eq [of "r div 4096" 64] unfolding d by linarith
    have "?a = 0 \<Longrightarrow> 16 \<le> ?b" using 4 r by linarith
    moreover have "?a = 4 \<Longrightarrow> ?b < 16" using le r by linarith
    moreover have "encode_nats r = [240 + ?a, 128 + ?b, 128 + ?c, 128 + ?d]"
      using 4 assms by (simp add: encode_nats_def)
    moreover have "?a < 5" using le by linarith
    ultimately show ?thesis using r by (intro four [of ?a ?b ?c ?d]) simp_all
  qed
qed

lemma lead_digit:
  "a < 32 \<Longrightarrow> (192 + a) mod 32 = a" "a < 32 \<Longrightarrow> (160 + a) mod 32 = a"
  "a < 16 \<Longrightarrow> (224 + a) mod 16 = a" "a < 8 \<Longrightarrow> (240 + a) mod 8 = a"
  "b < 64 \<Longrightarrow> (128 + b) mod 64 = b" for a b :: nat
  using mod_mult_self1 [of a 6 32] mod_mult_self1 [of a 5 32] mod_mult_self1 [of a 14 16]
    mod_mult_self1 [of a 30 8] mod_mult_self1 [of b 2 64]
  by (simp_all add: add.commute)

lemma decode_encode_nats:
  assumes "scalar r"
  shows "decode_nats (encode_nats r @ rest) = (r, length (encode_nats r))"
  using assms
proof (cases rule: scalar_forms)
  case one then show ?thesis by (simp add: decode_nats_def)
next
  case two then show ?thesis
    by (simp add: decode_nats_def sequence_info_def lead_digit)
next
  case (three a b c)
  then have "a = 13 \<Longrightarrow> b \<le> 31" "a = 0 \<Longrightarrow> 32 \<le> b" by simp_all
  with three show ?thesis
    by (auto simp: decode_nats_def sequence_info_def continuation_def lead_digit)
next
  case (four a b c d)
  then have "a = 4 \<Longrightarrow> b \<le> 15" "a = 0 \<Longrightarrow> 16 \<le> b" "a = 4 \<or> a \<le> 3" by auto
  with four show ?thesis
    by (auto simp: decode_nats_def sequence_info_def continuation_def lead_digit)
qed

lemma encode_nats_bytes:
  assumes "scalar r" "x \<in> set (encode_nats r)"
  shows "x < 256"
  using assms(1)
proof (cases rule: scalar_forms)
  case one then show ?thesis using assms(2) by simp
next
  case two then show ?thesis using assms(2) by auto
next
  case three then show ?thesis using assms(2) by auto
next
  case four then show ?thesis using assms(2) by auto
qed

lemma unat_encode_rune: "scalar r \<Longrightarrow> map unat (encode_rune r) = encode_nats r"
  by (auto simp: encode_rune_def unat_of_nat comp_def intro!: map_idI dest: encode_nats_bytes)

lemma decode_encode_rune:
  "scalar r \<Longrightarrow> decode_rune (encode_rune r @ rest) = (r, length (encode_rune r))"
  by (simp add: decode_rune_def unat_encode_rune decode_encode_nats) (simp add: encode_rune_def)

lemma encode_rune_not_Nil [simp]: "encode_rune r \<noteq> []"
  by (simp add: encode_rune_def)

lemma encode_rune_not_error: "\<not> (r = RuneError \<and> length (encode_rune r) = 1)"
  by (auto simp: RuneError_def encode_rune_def encode_nats_def scalar_def)

lemma runes_of_string_of: "list_all scalar rs \<Longrightarrow> runes_of (string_of rs) = rs"
proof (induction rs)
  case Nil then show ?case by (subst runes_of_unfold) (simp add: string_of_def)
next
  case (Cons r rs)
  then show ?case
    by (subst runes_of_unfold) (simp add: string_of_def decode_encode_rune)
qed

lemma utf8_valid_string_of: "list_all scalar rs \<Longrightarrow> utf8_valid (string_of rs)"
proof (induction rs)
  case Nil then show ?case by (subst utf8_valid_unfold) (simp add: string_of_def)
next
  case (Cons r rs)
  then show ?case using encode_rune_not_error [of r]
    by (subst utf8_valid_unfold) (simp add: string_of_def decode_encode_rune)
qed

text \<open>Decoding a byte sequence that is not an error reads an encoded scalar value.\<close>

lemma offset_form: "(lo :: nat) \<le> x \<Longrightarrow> \<exists>a. x = lo + a"
  by (rule le_Suc_ex)

lemma two_bytes:
  assumes "194 \<le> b" "b \<le> 223" "128 \<le> x" "x \<le> 191"
  shows "encode_nats (b mod 32 * 64 + x mod 64) = [b, x] \<and> scalar (b mod 32 * 64 + x mod 64)"
proof -
  obtain a c where [simp]: "b = 192 + a" "x = 128 + c"
    using offset_form [of 192 b] offset_form [of 128 x] assms by auto
  have "2 \<le> a" "a < 32" "c < 64" using assms by simp_all
  then show ?thesis by (simp add: lead_digit encode_nats_def scalar_def)
qed

lemma three_bytes:
  assumes "224 \<le> b" "b \<le> 239" "b = 224 \<Longrightarrow> 160 \<le> x" "b = 237 \<Longrightarrow> x \<le> 159" "128 \<le> x" "x \<le> 191"
    "128 \<le> y" "y \<le> 191"
  shows "encode_nats (b mod 16 * 4096 + x mod 64 * 64 + y mod 64) = [b, x, y] \<and>
    scalar (b mod 16 * 4096 + x mod 64 * 64 + y mod 64)"
proof -
  obtain a c d where [simp]: "b = 224 + a" "x = 128 + c" "y = 128 + d"
    using offset_form [of 224 b] offset_form [of 128 x] offset_form [of 128 y] assms by auto
  have lim: "a < 16" "c < 64" "d < 64" "a = 0 \<Longrightarrow> 32 \<le> c" "a = 13 \<Longrightarrow> c < 32" using assms by simp_all
  let ?r = "a * 4096 + c * 64 + d"
  have low: "2048 \<le> ?r"
  proof (cases "a = 0")
    case True with lim(4) show ?thesis by simp
  qed simp
  have digits: "?r div 4096 = a" "?r div 64 = a * 64 + c" "?r mod 64 = d"
    using lim mod_mult_self2 [of d 64 "a * 64 + c"] by (simp_all add: div_nat_eqI algebra_simps)
  have "(a * 64 + c) mod 64 = c" using lim by simp
  moreover have "?r < 55296 \<or> 57343 < ?r"
  proof (cases "a \<le> 12")
    case True then show ?thesis using lim by linarith
  next
    case False then show ?thesis using lim by (cases "a = 13") linarith+
  qed
  ultimately show ?thesis using lim low digits
    by (simp add: lead_digit encode_nats_def scalar_def MaxRune_def)
qed

lemma four_bytes:
  assumes "240 \<le> b" "b \<le> 244" "b = 240 \<Longrightarrow> 144 \<le> x" "b = 244 \<Longrightarrow> x \<le> 143" "128 \<le> x" "x \<le> 191"
    "128 \<le> y" "y \<le> 191" "128 \<le> z" "z \<le> 191"
  shows "encode_nats (b mod 8 * 262144 + x mod 64 * 4096 + y mod 64 * 64 + z mod 64) = [b, x, y, z] \<and>
    scalar (b mod 8 * 262144 + x mod 64 * 4096 + y mod 64 * 64 + z mod 64)"
proof -
  obtain a c d e where [simp]: "b = 240 + a" "x = 128 + c" "y = 128 + d" "z = 128 + e"
    using offset_form [of 240 b] offset_form [of 128 x] offset_form [of 128 y] offset_form [of 128 z] assms
    by auto
  have lim: "a < 5" "c < 64" "d < 64" "e < 64" "a = 0 \<Longrightarrow> 16 \<le> c" "a = 4 \<Longrightarrow> c < 16" using assms by simp_all
  let ?r = "a * 262144 + c * 4096 + d * 64 + e"
  have low: "65536 \<le> ?r"
  proof (cases "a = 0")
    case True with lim(5) show ?thesis by simp
  qed simp
  have high: "?r \<le> 1114111"
  proof (cases "a = 4")
    case True with lim show ?thesis by simp
  next
    case False with lim show ?thesis by simp
  qed
  have digits: "?r div 262144 = a" "?r div 4096 = a * 64 + c" "?r div 64 = a * 4096 + c * 64 + d" "?r mod 64 = e"
    using lim mod_mult_self2 [of e 64 "a * 4096 + c * 64 + d"] by (simp_all add: div_nat_eqI algebra_simps)
  have "(a * 64 + c) mod 64 = c" "(a * 4096 + c * 64 + d) mod 64 = d"
    using lim mod_mult_self2 [of d 64 "a * 64 + c"] by (simp_all add: algebra_simps)
  then show ?thesis using lim low high digits
    by (simp add: lead_digit encode_nats_def scalar_def MaxRune_def)
qed

lemma decode_nats_valid:
  assumes "decode_nats p = (r, n)" "p \<noteq> []" "\<not> (r = RuneError \<and> n = 1)"
  shows "n \<le> length p \<and> encode_nats r = take n p \<and> scalar r"
proof -
  obtain b q where p: "p = b # q" using assms(2) by (cases p) auto
  show ?thesis
  proof (cases "b < 128")
    case True
    with assms p show ?thesis by (auto simp: decode_nats_def encode_nats_def scalar_def)
  next
    case False
    with assms p obtain m lo hi where info: "sequence_info b = Some (m, lo, hi)"
      by (auto simp: decode_nats_def split: option.splits)
    have m: "m = 2 \<or> m = 3 \<or> m = 4" using info by (auto simp: sequence_info_def split: if_splits)
    have ok: "m \<le> length p" "lo \<le> p ! 1" "p ! 1 \<le> hi"
      using assms info p False by (auto simp: decode_nats_def split: if_splits)
    from m show ?thesis
    proof (elim disjE)
      assume [simp]: "m = 2"
      obtain x q' where [simp]: "q = x # q'" using ok p by (cases q) auto
      from info ok p have "194 \<le> b" "b \<le> 223" "128 \<le> x" "x \<le> 191"
        by (auto simp: sequence_info_def split: if_splits)
      from two_bytes [OF this] assms info p False ok show ?thesis
        by (auto simp: decode_nats_def numeral_2_eq_2)
    next
      assume [simp]: "m = 3"
      obtain x y q' where [simp]: "q = x # y # q'"
        using ok p by (cases q; cases "tl q") auto
      have c: "continuation y" "r = b mod 16 * 4096 + x mod 64 * 64 + y mod 64" "n = 3"
        using assms info p False ok by (auto simp: decode_nats_def split: if_splits)
      from info ok p have "224 \<le> b" "b \<le> 239" "b = 224 \<Longrightarrow> 160 \<le> x" "b = 237 \<Longrightarrow> x \<le> 159" "128 \<le> x" "x \<le> 191"
        by (auto simp: sequence_info_def split: if_splits)
      with three_bytes [of b x y] c p show ?thesis
        by (auto simp: continuation_def)
    next
      assume [simp]: "m = 4"
      obtain x y z q' where [simp]: "q = x # y # z # q'"
        using ok p by (cases q; cases "tl q"; cases "tl (tl q)") auto
      have c: "continuation y" "continuation z" "n = 4"
        "r = b mod 8 * 262144 + x mod 64 * 4096 + y mod 64 * 64 + z mod 64"
        using assms info p False ok by (auto simp: decode_nats_def split: if_splits)
      from info ok p have "240 \<le> b" "b \<le> 244" "b = 240 \<Longrightarrow> 144 \<le> x" "b = 244 \<Longrightarrow> x \<le> 143" "128 \<le> x" "x \<le> 191"
        by (auto simp: sequence_info_def split: if_splits)
      with four_bytes [of b x y z] c p show ?thesis
        by (auto simp: continuation_def)
    qed
  qed
qed

lemma decode_rune_valid:
  assumes "decode_rune p = (r, n)" "p \<noteq> []" "\<not> (r = RuneError \<and> n = 1)"
  shows "encode_rune r = take n p" "scalar r"
proof -
  note d = decode_nats_valid [of "map unat p" r n] assms
  then have r: "encode_nats r = map unat (take n p)" "scalar r" by (simp_all add: decode_rune_def take_map)
  then show "encode_rune r = take n p" "scalar r" by (simp_all add: encode_rune_def comp_def)
qed

lemma string_of_runes_of: "utf8_valid p \<Longrightarrow> string_of (runes_of p) = p \<and> list_all scalar (runes_of p)"
proof (induction p rule: utf8_valid.induct)
  case 1 then show ?case by (simp add: runes_of.simps string_of_def)
next
  case (2 b bs)
  let ?p = "b # bs"
  obtain r n where d: "decode_rune ?p = (r, n)" by fastforce
  have v: "\<not> (r = RuneError \<and> n = 1)" "utf8_valid (drop n ?p)"
    using 2(2) d by (auto simp: utf8_valid.simps)
  note e = decode_rune_valid [OF d _ v(1)]
  have "string_of (runes_of (drop n ?p)) = drop n ?p \<and> list_all scalar (runes_of (drop n ?p))"
    using 2(1) [OF d [symmetric]] v by auto
  moreover have "encode_rune r @ drop n ?p = ?p" using e by simp
  ultimately show ?case using e by (simp add: runes_of.simps d string_of_def)
qed

end
