(* ===== verification/Cbor.thy ===== *)
theory Cbor
  imports Utf8 "HOL-Library.List_Lexorder"
begin

text \<open>
  The CBOR encoder and decoder of \<open>src/pkg/cbor/cbor.go\<close>.

  A Go value of type \<open>any\<close> is a \<open>go_value\<close>: one constructor for each dynamic type the package
  names in its type switches, and \<open>Unsupported\<close> for every other type, with its name. A 64-bit
  Go integer is a \<open>64 word\<close>; \<open>int\<close> and \<open>int64\<close> read it as signed. A Go map is the list of its
  entries in the order an iteration visits them, which Go leaves open: the properties show where
  that order does not matter. A byte slice carries the offset in the decoder's input it aliases,
  or \<open>None\<close> when it has storage of its own; an aliasing slice has its capacity capped to its
  length. The texts of error messages are left out, their kinds are kept.
\<close>

section \<open>Values and errors\<close>

type_synonym int64 = "64 word"
type_synonym uint64 = "64 word"

datatype go_value =
    Nil_Value
  | Undefined
  | Bool_Value bool
  | Int_Value int64
  | Int64_Value int64
  | Uint64_Value uint64
  | Bytes_Value "nat option" bytes
  | String_Value bytes
  | Slice_Value "go_value list"
  | MapInt64_Value "(int64 \<times> go_value) list"
  | MapAny_Value "(go_value \<times> go_value) list"
  | Tag_Value uint64 go_value
  | Unsupported string

datatype malformed =
    UnexpectedEnd
  | IndefiniteLength
  | AdditionalInformation byte
  | ExcessiveNesting
  | UnsupportedInteger uint64
  | InvalidUtf8
  | ArrayLength uint64
  | MapLength uint64
  | UnsupportedMapKey
  | DuplicateMapKey go_value
  | FloatsAndExtendedSimple
  | UnsupportedSimple uint64
  | TrailingData

datatype encode_error = ErrUnsupportedValue

definition MaxInt64 :: uint64 where "MaxInt64 = 0x7FFFFFFFFFFFFFFF"

section \<open>Encoding\<close>

definition writeTypeAndArgument :: "bytes \<Rightarrow> byte \<Rightarrow> uint64 \<Rightarrow> bytes" where
  "writeTypeAndArgument buffer majorType argument =
     (if argument < 24 then
        buffer @ [push_bit 5 majorType OR ucast argument]
      else if argument \<le> 0xFF then
        buffer @ [push_bit 5 majorType OR 24, ucast argument]
      else if argument \<le> 0xFFFF then
        buffer @ [push_bit 5 majorType OR 25, ucast (drop_bit 8 argument), ucast (argument AND 0xFF)]
      else if argument \<le> 0xFFFFFFFF then
        (buffer @ [push_bit 5 majorType OR 26]) @
          map (\<lambda>shift. ucast (drop_bit shift argument AND 0xFF)) [24, 16, 8, 0]
      else
        (buffer @ [push_bit 5 majorType OR 27]) @
          map (\<lambda>shift. ucast (drop_bit shift argument AND 0xFF)) [56, 48, 40, 32, 24, 16, 8, 0])"

definition encodeInt64 :: "bytes \<Rightarrow> int64 \<Rightarrow> bytes" where
  "encodeInt64 buffer v =
     (if 0 \<le>s v then writeTypeAndArgument buffer 0 v else writeTypeAndArgument buffer 1 (NOT v))"

text \<open>\<open>bytes.Compare\<close> is the lexicographic order on byte lists; the entries are sorted by it.\<close>

definition sort_entries :: "(bytes \<times> bytes) list \<Rightarrow> (bytes \<times> bytes) list" where
  "sort_entries es = sort_key fst es"

definition write_entries :: "bytes \<Rightarrow> (bytes \<times> bytes) list \<Rightarrow> bytes" where
  "write_entries buffer encodedEntries =
     foldl (\<lambda>buffer (key, item). (buffer @ key) @ item)
       (writeTypeAndArgument buffer 5 (of_nat (length encodedEntries))) (sort_entries encodedEntries)"

definition int64_entries :: "(int64 \<times> go_value) list \<Rightarrow> (go_value \<times> go_value) list" where
  "int64_entries es = map (\<lambda>(k, v). (Int64_Value k, v)) es"

lemma size_int64_entries [simp]:
  "size_list (size_prod size size) (int64_entries es) = size_list (size_prod (\<lambda>k. 0) size) es"
  by (induction es) (auto simp: int64_entries_def)

text \<open>\<open>encodeValue\<close> with its loops: \<open>encodeItems\<close> is the loop over an array, \<open>encodeEntries\<close> the
  loop of \<open>encodeMap\<close> that encodes the keys and items, which sorts and writes them afterwards.\<close>

function (sequential) encodeValue :: "bytes \<Rightarrow> go_value \<Rightarrow> encode_error + bytes"
  and encodeItems :: "bytes \<Rightarrow> go_value list \<Rightarrow> encode_error + bytes"
  and encodeEntries :: "(go_value \<times> go_value) list \<Rightarrow> encode_error + (bytes \<times> bytes) list"
  where
  "encodeValue buffer Nil_Value = Inr (buffer @ [0xF6])"
| "encodeValue buffer Undefined = Inr (buffer @ [0xF7])"
| "encodeValue buffer (Bool_Value b) = Inr (buffer @ [if b then 0xF5 else 0xF4])"
| "encodeValue buffer (Int_Value v) = Inr (encodeInt64 buffer v)"
| "encodeValue buffer (Int64_Value v) = Inr (encodeInt64 buffer v)"
| "encodeValue buffer (Uint64_Value v) = Inr (writeTypeAndArgument buffer 0 v)"
| "encodeValue buffer (Bytes_Value origin bs) =
     Inr (writeTypeAndArgument buffer 2 (of_nat (length bs)) @ bs)"
| "encodeValue buffer (String_Value s) = Inr (writeTypeAndArgument buffer 3 (of_nat (length s)) @ s)"
| "encodeValue buffer (Slice_Value vs) =
     encodeItems (writeTypeAndArgument buffer 4 (of_nat (length vs))) vs"
| "encodeValue buffer (MapInt64_Value es) =
     (case encodeEntries (int64_entries es) of
        Inl e \<Rightarrow> Inl e | Inr encodedEntries \<Rightarrow> Inr (write_entries buffer encodedEntries))"
| "encodeValue buffer (MapAny_Value es) =
     (case encodeEntries es of
        Inl e \<Rightarrow> Inl e | Inr encodedEntries \<Rightarrow> Inr (write_entries buffer encodedEntries))"
| "encodeValue buffer (Tag_Value n v) = encodeValue (writeTypeAndArgument buffer 6 n) v"
| "encodeValue buffer (Unsupported t) = Inl ErrUnsupportedValue"
| "encodeItems buffer [] = Inr buffer"
| "encodeItems buffer (v # vs) =
     (case encodeValue buffer v of Inl e \<Rightarrow> Inl e | Inr buffer \<Rightarrow> encodeItems buffer vs)"
| "encodeEntries [] = Inr []"
| "encodeEntries ((k, v) # es) =
     (case encodeValue [] k of
        Inl e \<Rightarrow> Inl e
      | Inr keyData \<Rightarrow>
          case encodeValue [] v of
            Inl e \<Rightarrow> Inl e
          | Inr itemData \<Rightarrow>
              case encodeEntries es of Inl e \<Rightarrow> Inl e | Inr rest \<Rightarrow> Inr ((keyData, itemData) # rest))"
  by pat_completeness auto
termination
  by (relation "measure (\<lambda>x. case x of
      Inl (b, v) \<Rightarrow> 2 * size v | Inr (Inl (b, vs)) \<Rightarrow> 2 * size_list size vs + 1
    | Inr (Inr es) \<Rightarrow> 2 * size_list (size_prod size size) es)") auto

definition Encode :: "go_value \<Rightarrow> encode_error + bytes" where
  "Encode v = encodeValue [] v"

section \<open>Decoding\<close>

definition maxDepth :: nat where "maxDepth = 32"

record decoder =
  data :: bytes
  offset :: nat
  noCopy :: bool

definition big_endian :: "bytes \<Rightarrow> uint64" where
  "big_endian bs = foldl (\<lambda>argument argumentByte. push_bit 8 argument OR ucast argumentByte) 0 bs"

definition readTypeAndArgument :: "decoder \<Rightarrow> malformed + (byte \<times> uint64 \<times> byte) \<times> decoder" where
  "readTypeAndArgument d =
     (if offset d \<ge> length (data d) then Inl UnexpectedEnd
      else
        let initialByte = data d ! offset d;
            d = d\<lparr>offset := offset d + 1\<rparr>;
            majorType = drop_bit 5 initialByte;
            additionalInformation = initialByte AND 0x1F
        in if additionalInformation < 24 then
             Inr ((majorType, ucast additionalInformation, additionalInformation), d)
           else if additionalInformation = 31 then Inl IndefiniteLength
           else if additionalInformation > 27 then Inl (AdditionalInformation additionalInformation)
           else
             let argumentSize = 2 ^ unat (additionalInformation - 24)
             in if offset d + argumentSize > length (data d) then Inl UnexpectedEnd
                else
                  Inr ((majorType, big_endian (take argumentSize (drop (offset d) (data d))),
                        additionalInformation),
                      d\<lparr>offset := offset d + argumentSize\<rparr>))"

definition readSlice :: "decoder \<Rightarrow> uint64 \<Rightarrow> malformed + bytes \<times> decoder" where
  "readSlice d len =
     (if unat len > length (data d) - offset d then Inl UnexpectedEnd
      else
        let end = offset d + unat len
        in Inr (take (end - offset d) (drop (offset d) (data d)), d\<lparr>offset := end\<rparr>))"

text \<open>The byte slice read aliases the input at its offset, or is a copy of it.\<close>

definition readBytes :: "decoder \<Rightarrow> uint64 \<Rightarrow> malformed + go_value \<times> decoder" where
  "readBytes d len =
     (case readSlice d len of
        Inl e \<Rightarrow> Inl e
      | Inr (slicedData, d') \<Rightarrow>
          if noCopy d' then Inr (Bytes_Value (Some (offset d)) slicedData, d')
          else Inr (Bytes_Value None slicedData, d'))"

fun map_key :: "go_value \<Rightarrow> bool" where
  "map_key (Int64_Value k) = True"
| "map_key (String_Value k) = True"
| "map_key _ = False"

text \<open>\<open>decodeValue\<close> with its loops: \<open>decodeItems\<close> reads the elements of an array and
  \<open>decodeEntries\<close> the entries of a map, both with the count of those left to read.\<close>

function decodeValue :: "nat \<Rightarrow> decoder \<Rightarrow> malformed + go_value \<times> decoder"
  and decodeItems :: "nat \<Rightarrow> nat \<Rightarrow> go_value list \<Rightarrow> decoder \<Rightarrow> malformed + go_value list \<times> decoder"
  and decodeEntries :: "nat \<Rightarrow> nat \<Rightarrow> (go_value \<times> go_value) list \<Rightarrow> decoder \<Rightarrow>
    malformed + (go_value \<times> go_value) list \<times> decoder"
  where
  "decodeValue depth d =
     (if depth > maxDepth then Inl ExcessiveNesting
      else
        case readTypeAndArgument d of
          Inl e \<Rightarrow> Inl e
        | Inr ((majorType, argument, additionalInformation), d) \<Rightarrow>
            if majorType = 0 then
              if argument > MaxInt64 then Inl (UnsupportedInteger argument)
              else Inr (Int64_Value argument, d)
            else if majorType = 1 then
              if argument > MaxInt64 then Inl (UnsupportedInteger argument)
              else Inr (Int64_Value (- 1 - argument), d)
            else if majorType = 2 then readBytes d argument
            else if majorType = 3 then
              (case readSlice d argument of
                 Inl e \<Rightarrow> Inl e
               | Inr (s, d) \<Rightarrow> if \<not> utf8_valid s then Inl InvalidUtf8 else Inr (String_Value s, d))
            else if majorType = 4 then
              if unat argument > length (data d) - offset d then Inl (ArrayLength argument)
              else
                (case decodeItems (depth + 1) (unat argument) [] d of
                   Inl e \<Rightarrow> Inl e | Inr (array, d) \<Rightarrow> Inr (Slice_Value array, d))
            else if majorType = 5 then
              if unat argument > (length (data d) - offset d) div 2 then Inl (MapLength argument)
              else
                (case decodeEntries (depth + 1) (unat argument) [] d of
                   Inl e \<Rightarrow> Inl e | Inr (entries, d) \<Rightarrow> Inr (MapAny_Value entries, d))
            else if majorType = 6 then
              (case decodeValue (depth + 1) d of
                 Inl e \<Rightarrow> Inl e | Inr (content, d) \<Rightarrow> Inr (Tag_Value argument content, d))
            else if additionalInformation \<ge> 24 then Inl FloatsAndExtendedSimple
            else if argument = 20 then Inr (Bool_Value False, d)
            else if argument = 21 then Inr (Bool_Value True, d)
            else if argument = 22 then Inr (Nil_Value, d)
            else if argument = 23 then Inr (Undefined, d)
            else Inl (UnsupportedSimple argument))"
| "decodeItems depth 0 array d = Inr (array, d)"
| "decodeItems depth (Suc n) array d =
     (case decodeValue depth d of
        Inl e \<Rightarrow> Inl e | Inr (item, d) \<Rightarrow> decodeItems depth n (array @ [item]) d)"
| "decodeEntries depth 0 entries d = Inr (entries, d)"
| "decodeEntries depth (Suc n) entries d =
     (case decodeValue depth d of
        Inl e \<Rightarrow> Inl e
      | Inr (key, d) \<Rightarrow>
          if \<not> map_key key then Inl UnsupportedMapKey
          else if key \<in> set (map fst entries) then Inl (DuplicateMapKey key)
          else
            case decodeValue depth d of
              Inl e \<Rightarrow> Inl e
            | Inr (item, d) \<Rightarrow> decodeEntries depth n (entries @ [(key, item)]) d)"
  by pat_completeness auto
termination
  by (relation "measures
    [\<lambda>x. case x of
       Inl (depth, d) \<Rightarrow> 2 * (maxDepth + 1 - depth)
     | Inr (Inl (depth, n, a, d)) \<Rightarrow> 2 * (maxDepth + 1 - depth) + 1
     | Inr (Inr (depth, n, a, d)) \<Rightarrow> 2 * (maxDepth + 1 - depth) + 1,
     \<lambda>x. case x of
       Inl (depth, d) \<Rightarrow> 0 | Inr (Inl (depth, n, a, d)) \<Rightarrow> n | Inr (Inr (depth, n, a, d)) \<Rightarrow> n]") auto

declare decodeValue.simps [simp del]

definition decode :: "decoder \<Rightarrow> malformed + go_value" where
  "decode parser =
     (case decodeValue 0 parser of
        Inl e \<Rightarrow> Inl e
      | Inr (v, parser) \<Rightarrow> if offset parser \<noteq> length (data parser) then Inl TrailingData else Inr v)"

definition Decode :: "bytes \<Rightarrow> malformed + go_value" where
  "Decode bs = decode \<lparr>data = bs, offset = 0, noCopy = False\<rparr>"

definition DecodeNoCopy :: "bytes \<Rightarrow> malformed + go_value" where
  "DecodeNoCopy bs = decode \<lparr>data = bs, offset = 0, noCopy = True\<rparr>"

definition DecodeFirst :: "bytes \<Rightarrow> malformed + go_value \<times> bytes" where
  "DecodeFirst bs =
     (case decodeValue 0 \<lparr>data = bs, offset = 0, noCopy = False\<rparr> of
        Inl e \<Rightarrow> Inl e
      | Inr (v, parser) \<Rightarrow> Inr (v, drop (offset parser) bs))"

end
