(* ===== verification/Cbor_Grammar.thy ===== *)
theory Cbor_Grammar
  imports Cbor
begin

text \<open>
  The abstract specification of the CBOR decoder: an inductive relation between byte strings and
  the values they encode, after the grammar of RFC 8949 restricted to what the package accepts,
  and the refinement proof that \<open>decodeValue\<close> reads exactly the encodings the relation allows.
  The locale \<open>prefix_reader\<close> collects what follows for every reader with such a specification.
\<close>

section \<open>Readers with a grammar\<close>

locale prefix_reader =
  fixes read :: "'a list \<Rightarrow> ('v \<times> 'a list) option"
    and item :: "'a list \<Rightarrow> 'v \<Rightarrow> bool"
  assumes read_iff: "read input = Some (v, rest) \<longleftrightarrow> (\<exists>e. item e v \<and> input = e @ rest)"
begin

lemma whole: "read input = Some (v, []) \<longleftrightarrow> item input v"
  by (simp add: read_iff)

lemma read_extend: "read input = Some (v, rest) \<Longrightarrow> read (input @ extra) = Some (v, rest @ extra)"
  by (auto simp: read_iff)

lemma prefix_free:
  assumes "item e v" "item e' v'" "e @ rest = e' @ rest'"
  shows "e = e'" "v = v'"
proof -
  have "read (e @ rest) = Some (v, rest)" "read (e' @ rest') = Some (v', rest')"
    using assms(1,2) by (auto simp: read_iff)
  with assms(3) show "e = e'" "v = v'" by simp_all
qed

lemma unambiguous: "item e v \<Longrightarrow> item e v' \<Longrightarrow> v = v'"
  using prefix_free [of e v e v' "[]" "[]"] by simp

end

section \<open>The grammar\<close>

definition is_head :: "bytes \<Rightarrow> byte \<Rightarrow> uint64 \<Rightarrow> byte \<Rightarrow> bool" where
  "is_head h majorType argument info \<longleftrightarrow>
     (\<exists>b bs. h = b # bs \<and> majorType = drop_bit 5 b \<and> info = b AND 0x1F \<and>
        (info < 24 \<and> bs = [] \<and> argument = ucast info \<or>
         24 \<le> info \<and> info \<le> 27 \<and> length bs = 2 ^ unat (info - 24) \<and> argument = big_endian bs))"

inductive cbor_item :: "nat \<Rightarrow> bytes \<Rightarrow> go_value \<Rightarrow> bool"
  and cbor_items :: "nat \<Rightarrow> bytes \<Rightarrow> go_value list \<Rightarrow> bool"
  and cbor_entries :: "nat \<Rightarrow> bytes \<Rightarrow> (go_value \<times> go_value) list \<Rightarrow> bool"
  where
  unsigned: "depth \<le> maxDepth \<Longrightarrow> is_head h 0 n info \<Longrightarrow> n \<le> MaxInt64 \<Longrightarrow>
    cbor_item depth h (Int64_Value n)"
| negative: "depth \<le> maxDepth \<Longrightarrow> is_head h 1 n info \<Longrightarrow> n \<le> MaxInt64 \<Longrightarrow>
    cbor_item depth h (Int64_Value (- 1 - n))"
| byte_string: "depth \<le> maxDepth \<Longrightarrow> is_head h 2 n info \<Longrightarrow> length bs = unat n \<Longrightarrow>
    cbor_item depth (h @ bs) (Bytes_Value None bs)"
| text_string: "depth \<le> maxDepth \<Longrightarrow> is_head h 3 n info \<Longrightarrow> length s = unat n \<Longrightarrow> utf8_valid s \<Longrightarrow>
    cbor_item depth (h @ s) (String_Value s)"
| array: "depth \<le> maxDepth \<Longrightarrow> is_head h 4 n info \<Longrightarrow> cbor_items (depth + 1) e vs \<Longrightarrow>
    length vs = unat n \<Longrightarrow> cbor_item depth (h @ e) (Slice_Value vs)"
| map_: "depth \<le> maxDepth \<Longrightarrow> is_head h 5 n info \<Longrightarrow> cbor_entries (depth + 1) e es \<Longrightarrow>
    length es = unat n \<Longrightarrow> distinct (map fst es) \<Longrightarrow> cbor_item depth (h @ e) (MapAny_Value es)"
| tag: "depth \<le> maxDepth \<Longrightarrow> is_head h 6 n info \<Longrightarrow> cbor_item (depth + 1) e v \<Longrightarrow>
    cbor_item depth (h @ e) (Tag_Value n v)"
| false: "depth \<le> maxDepth \<Longrightarrow> cbor_item depth [0xF4] (Bool_Value False)"
| true: "depth \<le> maxDepth \<Longrightarrow> cbor_item depth [0xF5] (Bool_Value True)"
| null: "depth \<le> maxDepth \<Longrightarrow> cbor_item depth [0xF6] Nil_Value"
| undef: "depth \<le> maxDepth \<Longrightarrow> cbor_item depth [0xF7] Undefined"
| no_items: "cbor_items depth [] []"
| more_items: "cbor_item depth e v \<Longrightarrow> cbor_items depth f vs \<Longrightarrow> cbor_items depth (e @ f) (v # vs)"
| no_entries: "cbor_entries depth [] []"
| more_entries: "cbor_item depth e k \<Longrightarrow> map_key k \<Longrightarrow> cbor_item depth f v \<Longrightarrow> cbor_entries depth g es \<Longrightarrow>
    cbor_entries depth (e @ f @ g) ((k, v) # es)"

inductive_simps cbor_items_Nil [simp]: "cbor_items depth e []"
inductive_simps cbor_items_Cons: "cbor_items depth e (v # vs)"
inductive_simps cbor_entries_Nil [simp]: "cbor_entries depth e []"
inductive_simps cbor_entries_Cons: "cbor_entries depth e (kv # es)"

section \<open>The reading steps\<close>

definition rest :: "decoder \<Rightarrow> bytes" where "rest d = drop (offset d) (data d)"

text \<open>\<open>reads d e d'\<close>: the decoder has moved over \<open>e\<close>, and nothing else has changed.\<close>

definition reads :: "decoder \<Rightarrow> bytes \<Rightarrow> decoder \<Rightarrow> bool" where
  "reads d e d' \<longleftrightarrow> d' = d\<lparr>offset := offset d + length e\<rparr> \<and> (\<exists>post. rest d = e @ post)"

lemma reads_Nil [simp]: "reads d [] d' \<longleftrightarrow> d' = d"
  by (auto simp: reads_def)

lemma reads_rest: "reads d e d' \<Longrightarrow> rest d = e @ rest d'"
proof -
  assume "reads d e d'"
  then obtain post where p: "drop (offset d) (data d) = e @ post" "d' = d\<lparr>offset := offset d + length e\<rparr>"
    by (auto simp: reads_def rest_def)
  then have "drop (offset d + length e) (data d) = post"
    by (metis add.commute append_eq_conv_conj drop_drop)
  with p show ?thesis by (simp add: rest_def)
qed

lemma reads_append: "reads d e d1 \<Longrightarrow> reads d1 f d2 \<Longrightarrow> reads d (e @ f) d2"
  using reads_rest [of d e d1] by (auto simp: reads_def)

lemma reads_frame: "reads d e d' \<Longrightarrow> noCopy d' = noCopy d" "reads d e d' \<Longrightarrow> data d' = data d"
  by (auto simp: reads_def)

lemma reads_step: "rest d = e @ post \<Longrightarrow> reads d e (d\<lparr>offset := offset d + length e\<rparr>)"
  by (auto simp: reads_def)

lemma rest_advance [simp]: "rest d = e @ post \<Longrightarrow> rest (d\<lparr>offset := offset d + length e\<rparr>) = post"
  using reads_rest [OF reads_step, of d e post] by simp

lemma rest_length: "length (rest d) = length (data d) - offset d"
  by (simp add: rest_def)

lemma info_le: "(b AND 0x1F :: byte) \<le> 31"
  by (rule word_and_le1)

lemma read_head_sound:
  assumes "readTypeAndArgument d = Inr ((majorType, argument, info), d')"
  shows "\<exists>h. is_head h majorType argument info \<and> reads d h d'"
proof -
  have in_range: "offset d < length (data d)"
    using assms by (auto simp: readTypeAndArgument_def split: if_splits)
  let ?b = "data d ! offset d"
  have r: "rest d = ?b # drop (Suc (offset d)) (data d)"
    using in_range by (simp add: rest_def Cons_nth_drop_Suc)
  show ?thesis
  proof (cases "?b AND 0x1F < 24")
    case True
    then have eqs: "majorType = drop_bit 5 ?b" "argument = ucast (?b AND 0x1F)" "info = ?b AND 0x1F"
        "d' = d\<lparr>offset := offset d + 1\<rparr>"
      using assms in_range by (auto simp: readTypeAndArgument_def Let_def)
    then show ?thesis using True r by (intro exI [of _ "[?b]"]) (auto simp: is_head_def reads_def)
  next
    case False
    let ?n = "2 ^ unat ((?b AND 0x1F) - 24) :: nat"
    have eqs: "?b AND 0x1F \<noteq> 31" "?b AND 0x1F \<le> 27" "Suc (offset d) + ?n \<le> length (data d)"
        "majorType = drop_bit 5 ?b" "argument = big_endian (take ?n (drop (Suc (offset d)) (data d)))"
        "info = ?b AND 0x1F" "d' = d\<lparr>offset := Suc (offset d) + ?n\<rparr>"
      using assms in_range False by (auto simp: readTypeAndArgument_def Let_def not_less split: if_splits)
    let ?bs = "take ?n (drop (Suc (offset d)) (data d))"
    have "length ?bs = ?n" using eqs(3) by simp
    moreover have "rest d = (?b # ?bs) @ drop ?n (drop (Suc (offset d)) (data d))"
      unfolding r by (metis append_Cons append_take_drop_id)
    ultimately show ?thesis using False eqs
      by (intro exI [of _ "?b # ?bs"]) (auto simp: is_head_def reads_def)
  qed
qed

lemma read_head_complete:
  assumes "is_head h majorType argument info" "rest d = h @ post"
  shows "readTypeAndArgument d = Inr ((majorType, argument, info), d\<lparr>offset := offset d + length h\<rparr>)"
proof -
  from assms(1) obtain b bs where h: "h = b # bs" "majorType = drop_bit 5 b" "info = b AND 0x1F"
    "info < 24 \<and> bs = [] \<and> argument = ucast info \<or>
     24 \<le> info \<and> info \<le> 27 \<and> length bs = 2 ^ unat (info - 24) \<and> argument = big_endian bs"
    by (auto simp: is_head_def)
  have drop: "drop (offset d) (data d) = b # bs @ post" using assms(2) h(1) by (simp add: rest_def)
  then have len: "offset d + Suc (length bs + length post) = length (data d)"
    by (metis add.commute append_take_drop_id length_Cons length_append length_drop less_or_eq_imp_le
        linorder_not_less drop_all list.distinct(1) le_add_diff_inverse)
  have nth: "data d ! offset d = b" using drop by (metis hd_drop_conv_nth drop_all linorder_not_le list.distinct(1) list.sel(1))
  have tail: "drop (Suc (offset d)) (data d) = bs @ post" using drop by (metis drop_Suc list.sel(3) tl_drop)
  from h(4) show ?thesis
  proof (elim disjE conjE)
    assume "info < 24" "bs = []" "argument = ucast info"
    then show ?thesis using nth len h by (simp add: readTypeAndArgument_def Let_def)
  next
    assume i: "24 \<le> info" "info \<le> 27" "length bs = 2 ^ unat (info - 24)" "argument = big_endian bs"
    then have "\<not> info < 24" "info \<noteq> 31" "\<not> 27 < info" by (auto simp: not_less)
    then show ?thesis using i nth len h tail
      by (simp add: readTypeAndArgument_def Let_def)
  qed
qed

section \<open>Refinement\<close>

lemma read_slice_sound:
  assumes "readSlice d n = Inr (bs, d')"
  shows "reads d bs d' \<and> length bs = unat n"
proof -
  have n: "unat n \<le> length (data d) - offset d" "bs = take (unat n) (rest d)"
      "d' = d\<lparr>offset := offset d + unat n\<rparr>"
    using assms by (auto simp: readSlice_def Let_def rest_def split: if_splits)
  have "rest d = bs @ drop (unat n) (rest d)" using n(2) by simp
  moreover have "length bs = unat n" using n by (simp add: rest_length)
  ultimately show ?thesis using n(3) by (auto simp: reads_def)
qed

lemma read_slice_complete:
  assumes "rest d = bs @ post" "length bs = unat n"
  shows "readSlice d n = Inr (bs, d\<lparr>offset := offset d + length bs\<rparr>)"
  using assms rest_length [of d] by (simp add: readSlice_def Let_def rest_def)

lemma low_bits: "(b AND 0x1F :: byte) = take_bit 5 b"
  by (simp add: take_bit_eq_mask mask_eq_exp_minus_1)

lemma head_byte: "push_bit 5 (drop_bit 5 b) OR (b AND 0x1F :: byte) = b"
  unfolding low_bits by (rule bit_word_eqI) (auto simp: bit_simps)

lemma major_type_le: "drop_bit 5 (b :: byte) \<le> 7"
proof -
  have "unat b < 2 ^ LENGTH(8)" by (rule unsigned_less)
  then have "unat (drop_bit 5 b) \<le> 7" unfolding unat_drop_bit_eq by (simp add: drop_bit_eq_div)
  then show ?thesis by (simp add: word_le_nat_alt)
qed

lemma byte_unat: "unat (b :: byte) = n \<Longrightarrow> b = of_nat n"
  by auto

lemma byte_ucast_ucast [simp]: "ucast (ucast (b :: byte) :: uint64) = b"
  by (rule bit_word_eqI) (auto simp: bit_simps)

lemma major_type_cases:
  assumes "is_head h majorType argument info"
  obtains "majorType = 0" | "majorType = 1" | "majorType = 2" | "majorType = 3" | "majorType = 4"
  | "majorType = 5" | "majorType = 6" | "majorType = 7"
proof -
  have "majorType \<le> 7" using assms major_type_le by (auto simp: is_head_def)
  then have "unat majorType \<le> 7" by (simp add: word_le_nat_alt)
  then have "unat majorType = 0 \<or> unat majorType = 1 \<or> unat majorType = 2 \<or> unat majorType = 3 \<or>
    unat majorType = 4 \<or> unat majorType = 5 \<or> unat majorType = 6 \<or> unat majorType = 7" by linarith
  then have "majorType = 0 \<or> majorType = 1 \<or> majorType = 2 \<or> majorType = 3 \<or> majorType = 4 \<or>
    majorType = 5 \<or> majorType = 6 \<or> majorType = 7"
    by (elim disjE) (drule byte_unat, simp)+
  then show thesis using that by blast
qed

lemma simple_head:
  assumes "is_head h 7 argument info" "info < 24"
  shows "h = [0xE0 OR ucast argument]"
proof -
  obtain b where h: "h = [b]" "drop_bit 5 b = 7" "info = b AND 0x1F" "argument = ucast info"
    using assms by (auto simp: is_head_def)
  have "b = push_bit 5 7 OR info" using head_byte [of b] h by simp
  moreover have "ucast argument = info" using h(4) by simp
  ultimately show ?thesis using h(1) by simp
qed

theorem decode_sound:
  "decodeValue depth d = Inr (v, d') \<Longrightarrow> \<not> noCopy d \<Longrightarrow> \<exists>e. reads d e d' \<and> cbor_item depth e v"
  "decodeItems depth n vs d = Inr (ws, d') \<Longrightarrow> \<not> noCopy d \<Longrightarrow>
     \<exists>e us. ws = vs @ us \<and> length us = n \<and> reads d e d' \<and> cbor_items depth e us"
  "decodeEntries depth n es d = Inr (fs, d') \<Longrightarrow> \<not> noCopy d \<Longrightarrow> distinct (map fst es) \<Longrightarrow>
     \<exists>e us. fs = es @ us \<and> length us = n \<and> distinct (map fst fs) \<and> reads d e d' \<and> cbor_entries depth e us"
proof (induction depth d and depth n vs d and depth n es d arbitrary: v d' and ws d' and fs d'
    rule: decodeValue_decodeItems_decodeEntries.induct)
  case (1 depth d)
  have depth: "depth \<le> maxDepth" using 1(4) by (subst (asm) decodeValue.simps) (simp split: if_splits)
  obtain mt n info d1 where head: "readTypeAndArgument d = Inr ((mt, n, info), d1)"
    using 1(4) depth by (subst (asm) decodeValue.simps) (auto split: sum.splits)
  obtain h where h: "is_head h mt n info" "reads d h d1" using read_head_sound [OF head] by blast
  have nc: "\<not> noCopy d1" using h(2) 1(5) by (simp add: reads_frame)
  note run = 1(4) [unfolded decodeValue.simps [of depth d] head]
  note intro = cbor_item_cbor_items_cbor_entries.intros [where depth = depth]
  from h(1) show ?case
  proof (cases rule: major_type_cases)
    assume "mt = 0"
    then show ?thesis using run depth h intro(1) [OF depth, of h n info] by (auto split: if_splits)
  next
    assume "mt = 1"
    then show ?thesis using run depth h intro(2) [OF depth, of h n info] by (auto split: if_splits)
  next
    assume mt: "mt = 2"
    with run depth nc obtain bs where bs: "readSlice d1 n = Inr (bs, d')" "v = Bytes_Value None bs"
      by (auto simp: readBytes_def readSlice_def Let_def split: if_splits)
    note sl = read_slice_sound [OF bs(1)]
    then show ?thesis using intro(3) [OF depth, of h n info bs] h mt bs(2) reads_append [OF h(2)] by auto
  next
    assume mt: "mt = 3"
    with run depth obtain bs where bs: "readSlice d1 n = Inr (bs, d')" "v = String_Value bs" "utf8_valid bs"
      by (auto split: if_splits sum.splits)
    note sl = read_slice_sound [OF bs(1)]
    then show ?thesis using intro(4) [OF depth, of h n info bs] h mt bs(2,3) reads_append [OF h(2)] by auto
  next
    assume mt: "mt = 4"
    with run depth obtain vs where vs: "\<not> unat n > length (data d1) - offset d1"
        "decodeItems (depth + 1) (unat n) [] d1 = Inr (vs, d')" "v = Slice_Value vs"
      by (auto split: if_splits sum.splits)
    obtain e where "length vs = unat n" "reads d1 e d'" "cbor_items (depth + 1) e vs"
      using 1(1) [of "((mt, n, info), d1)" "(mt, n, info)" d1 mt "(n, info)" n info] depth head mt vs nc by auto
    then show ?thesis using intro(5) [OF depth, of h n info e vs] h mt vs(3) reads_append [OF h(2)] by auto
  next
    assume mt: "mt = 5"
    with run depth obtain es where es: "\<not> unat n > (length (data d1) - offset d1) div 2"
        "decodeEntries (depth + 1) (unat n) [] d1 = Inr (es, d')" "v = MapAny_Value es"
      by (auto split: if_splits sum.splits)
    obtain e where "length es = unat n" "reads d1 e d'" "cbor_entries (depth + 1) e es" "distinct (map fst es)"
      using 1(2) [of "((mt, n, info), d1)" "(mt, n, info)" d1 mt "(n, info)" n info] depth head mt es nc by auto
    then show ?thesis using intro(6) [OF depth, of h n info e es] h mt es(3) reads_append [OF h(2)] by auto
  next
    assume mt: "mt = 6"
    with run depth obtain c where c: "decodeValue (depth + 1) d1 = Inr (c, d')" "v = Tag_Value n c"
      by (auto split: if_splits sum.splits)
    obtain e where "reads d1 e d'" "cbor_item (depth + 1) e c"
      using 1(3) [of "((mt, n, info), d1)" "(mt, n, info)" d1 mt "(n, info)" n info] depth head mt c nc by auto
    then show ?thesis using intro(7) [OF depth, of h n info e c] h mt c(2) reads_append [OF h(2)] by auto
  next
    assume mt: "mt = 7"
    then have small: "info < 24" using run depth by (auto split: if_splits)
    have [simp]: "h = [0xE0 OR ucast n]" using simple_head h mt small by simp
    show ?thesis using run depth mt small h(2) intro(8-11) [OF depth] by (auto split: if_splits)
  qed
next
  case (2 depth array d)
  then show ?case by auto
next
  case (3 depth n array d)
  then obtain item d1 where i: "decodeValue depth d = Inr (item, d1)"
      "decodeItems depth n (array @ [item]) d1 = Inr (ws, d')"
    by (auto split: sum.splits)
  obtain e where e: "reads d e d1" "cbor_item depth e item" using 3(1) [OF i(1) 3(4)] by blast
  then obtain f us where f: "ws = (array @ [item]) @ us" "length us = n" "reads d1 f d'" "cbor_items depth f us"
    using 3(2) [OF i(1) refl i(2)] 3(4) reads_frame by metis
  show ?case using e f reads_append [OF e(1) f(3)]
    by (intro exI [of _ "e @ f"] exI [of _ "item # us"]) (auto intro: cbor_item_cbor_items_cbor_entries.intros)
next
  case (4 depth entries d)
  then show ?case by auto
next
  case (5 depth n entries d)
  then obtain k d1 v d2 where i: "decodeValue depth d = Inr (k, d1)" "map_key k" "k \<notin> set (map fst entries)"
      "decodeValue depth d1 = Inr (v, d2)" "decodeEntries depth n (entries @ [(k, v)]) d2 = Inr (fs, d')"
    by (auto split: sum.splits if_splits)
  obtain e where e: "reads d e d1" "cbor_item depth e k" using 5(1) [OF i(1) 5(5)] by blast
  obtain f where f: "reads d1 f d2" "cbor_item depth f v"
    using 5(2) [OF i(1) refl _ _ i(4)] i e reads_frame 5(5) by blast
  obtain g us where g: "fs = (entries @ [(k, v)]) @ us" "length us = n" "distinct (map fst fs)" "reads d2 g d'"
      "cbor_entries depth g us"
    using 5(3) [OF i(1) refl _ _ i(4) refl i(5)] i e f reads_frame 5(5,6) by auto
  show ?case using e f g i(2) reads_append [OF e(1) reads_append [OF f(1) g(4)]]
    by (intro exI [of _ "e @ f @ g"] exI [of _ "(k, v) # us"]) (auto intro: cbor_item_cbor_items_cbor_entries.intros)
qed

lemma cbor_item_length:
  "cbor_item depth e v \<Longrightarrow> 1 \<le> length e"
  "cbor_items depth e us \<Longrightarrow> length us \<le> length e"
  "cbor_entries depth e fs \<Longrightarrow> 2 * length fs \<le> length e"
  by (induction rule: cbor_item_cbor_items_cbor_entries.inducts) (auto simp: is_head_def)

lemma simple_heads:
  "is_head [0xF4] 7 20 20" "is_head [0xF5] 7 21 21" "is_head [0xF6] 7 22 22" "is_head [0xF7] 7 23 23"
  by (simp_all add: is_head_def)

lemma decode_complete:
  "cbor_item depth e v \<Longrightarrow> \<not> noCopy d \<Longrightarrow> rest d = e @ post \<Longrightarrow>
     decodeValue depth d = Inr (v, d\<lparr>offset := offset d + length e\<rparr>)"
  "cbor_items depth e us \<Longrightarrow> \<not> noCopy d \<Longrightarrow> rest d = e @ post \<Longrightarrow>
     decodeItems depth (length us) vs d = Inr (vs @ us, d\<lparr>offset := offset d + length e\<rparr>)"
  "cbor_entries depth e fs \<Longrightarrow> \<not> noCopy d \<Longrightarrow> rest d = e @ post \<Longrightarrow> distinct (map fst (es @ fs)) \<Longrightarrow>
     decodeEntries depth (length fs) es d = Inr (es @ fs, d\<lparr>offset := offset d + length e\<rparr>)"
proof (induction depth e v and depth e us and depth e fs arbitrary: d post and d post vs and d post es
    rule: cbor_item_cbor_items_cbor_entries.inducts)
  case (unsigned depth h n info)
  then show ?case by (subst decodeValue.simps) (simp add: read_head_complete [OF unsigned(2)])
next
  case (negative depth h n info)
  then show ?case by (subst decodeValue.simps) (simp add: read_head_complete [OF negative(2)])
next
  case (byte_string depth h n info bs)
  have "readSlice (d\<lparr>offset := offset d + length h\<rparr>) n =
      Inr (bs, d\<lparr>offset := offset d + length h, offset := offset d + length h + length bs\<rparr>)"
    using read_slice_complete [of "d\<lparr>offset := offset d + length h\<rparr>" bs post n] byte_string by simp
  then show ?case using byte_string
    by (subst decodeValue.simps) (simp add: read_head_complete [OF byte_string(2)] readBytes_def add.assoc)
next
  case (text_string depth h n info s)
  have "readSlice (d\<lparr>offset := offset d + length h\<rparr>) n =
      Inr (s, d\<lparr>offset := offset d + length h, offset := offset d + length h + length s\<rparr>)"
    using read_slice_complete [of "d\<lparr>offset := offset d + length h\<rparr>" s post n] text_string by simp
  then show ?case using text_string
    by (subst decodeValue.simps) (simp add: read_head_complete [OF text_string(2)] add.assoc)
next
  case (array depth h n info e vs)
  have "length e \<le> length (data d) - (offset d + length h)"
    using rest_length [of d] array.prems by simp
  moreover note cbor_item_length(2) [OF array.hyps(3)]
  ultimately show ?case using array
    by (subst decodeValue.simps) (simp add: read_head_complete [OF array(2)] add.assoc)
next
  case (map_ depth h n info e es)
  have "length e \<le> length (data d) - (offset d + length h)"
    using rest_length [of d] map_.prems by simp
  then have "unat n \<le> (length (data d) - (offset d + length h)) div 2"
    using cbor_item_length(3) [OF map_.hyps(3)] map_.hyps(4) by linarith
  with map_ show ?case
    by (subst decodeValue.simps) (simp add: read_head_complete [OF map_(2)] add.assoc)
next
  case (tag depth h n info e v)
  then show ?case 
    by (subst decodeValue.simps) (simp add: read_head_complete [OF tag(2)] add.assoc)
next
  case (false depth)
  then show ?case using read_head_complete [OF simple_heads(1), of d post]
    by (subst decodeValue.simps) simp
next
  case (true depth)
  then show ?case using read_head_complete [OF simple_heads(2), of d post]
    by (subst decodeValue.simps) simp
next
  case (null depth)
  then show ?case using read_head_complete [OF simple_heads(3), of d post]
    by (subst decodeValue.simps) simp
next
  case (undef depth)
  then show ?case using read_head_complete [OF simple_heads(4), of d post]
    by (subst decodeValue.simps) simp
next
  case (no_items depth)
  then show ?case by simp
next
  case (more_items depth e v f vs)
  then show ?case by (simp add: add.assoc)
next
  case (no_entries depth)
  then show ?case by simp
next
  case (more_entries depth e k f v g fs)
  have "rest (d\<lparr>offset := offset d + (length e + length f)\<rparr>) = g @ post"
    using rest_advance [of d "e @ f" "g @ post"] more_entries.prems by simp
  with more_entries show ?case
    by (auto simp: add.assoc)
qed

section \<open>The decoder as a reader of the grammar\<close>

definition start :: "bytes \<Rightarrow> decoder" where
  "start bs = \<lparr>data = bs, offset = 0, noCopy = False\<rparr>"

lemma start_simps [simp]: "rest (start bs) = bs" "\<not> noCopy (start bs)" "data (start bs) = bs" "offset (start bs) = 0"
  by (simp_all add: start_def rest_def)

lemma DecodeFirst_iff:
  "DecodeFirst bs = Inr (v, tail) \<longleftrightarrow> (\<exists>e. cbor_item 0 e v \<and> bs = e @ tail)"
proof
  assume "DecodeFirst bs = Inr (v, tail)"
  then obtain d' where d: "decodeValue 0 (start bs) = Inr (v, d')" "tail = drop (offset d') bs"
    by (auto simp: DecodeFirst_def start_def split: sum.splits)
  obtain e where "reads (start bs) e d'" "cbor_item 0 e v"
    using decode_sound(1) [OF d(1)] by auto
  then show "\<exists>e. cbor_item 0 e v \<and> bs = e @ tail"
    using d(2) by (auto simp: reads_def)
next
  assume "\<exists>e. cbor_item 0 e v \<and> bs = e @ tail"
  then obtain e where e: "cbor_item 0 e v" "bs = e @ tail" by blast
  have "decodeValue 0 (start bs) = Inr (v, start bs\<lparr>offset := length e\<rparr>)"
    using decode_complete(1) [OF e(1), of "start bs" tail] e(2) by simp
  then show "DecodeFirst bs = Inr (v, tail)" using e(2) by (simp add: DecodeFirst_def start_def)
qed

lemma Decode_iff: "Decode bs = Inr v \<longleftrightarrow> cbor_item 0 bs v"
proof
  assume "Decode bs = Inr v"
  then obtain d' where d: "decodeValue 0 (start bs) = Inr (v, d')" "offset d' = length (data d')"
    by (auto simp: Decode_def decode_def start_def split: sum.splits if_splits)
  obtain e where "reads (start bs) e d'" "cbor_item 0 e v"
    using decode_sound(1) [OF d(1)] by auto
  then show "cbor_item 0 bs v" using d(2) by (auto simp: reads_def)
next
  assume e: "cbor_item 0 bs v"
  have "decodeValue 0 (start bs) = Inr (v, start bs\<lparr>offset := length bs\<rparr>)"
    using decode_complete(1) [OF e, of "start bs" "[]"] by simp
  then show "Decode bs = Inr v" by (simp add: Decode_def decode_def start_def)
qed

definition first_item :: "bytes \<Rightarrow> (go_value \<times> bytes) option" where
  "first_item bs = (case DecodeFirst bs of Inl e \<Rightarrow> None | Inr r \<Rightarrow> Some r)"

interpretation cbor_reader: prefix_reader first_item "cbor_item 0"
proof unfold_locales
  show "first_item bs = Some (v, tail) \<longleftrightarrow> (\<exists>e. cbor_item 0 e v \<and> bs = e @ tail)" for bs v tail
    using DecodeFirst_iff [of bs v tail] by (auto simp: first_item_def split: sum.splits)
qed

end
