(* ===== verification/Cbor_Encoding.thy ===== *)
theory Cbor_Encoding
  imports Cbor_Grammar "HOL-Library.Multiset"
begin

text \<open>
  What the CBOR encoder writes: the values it can encode so that the decoder accepts them
  (\<open>encodable\<close>), the value the decoder answers for them (\<open>norm\<close>: the integers as \<open>int64\<close>, the map
  entries in the order of their encoded keys), and the proof that the encoding of an encodable
  value is an encoding of its normal form in the grammar.
\<close>

section \<open>Heads\<close>

lemma write_head: "writeTypeAndArgument buffer mt n = buffer @ writeTypeAndArgument [] mt n"
  by (simp add: writeTypeAndArgument_def)

lemma big_endian_Nil: "big_endian [] = 0"
  by (simp add: big_endian_def)

lemma big_endian_snoc: "big_endian (bs @ [b]) = push_bit 8 (big_endian bs) OR ucast b"
  by (simp add: big_endian_def)

lemma byte_mask: "(0xFF :: uint64) = mask 8"
  by (simp add: mask_eq_exp_minus_1)

lemma next_byte:
  "push_bit 8 (drop_bit (s + 8) n) OR ucast (ucast (drop_bit s n AND 0xFF) :: byte) = drop_bit s (n :: uint64)"
proof (rule bit_word_eqI)
  fix k assume "k < LENGTH(64)"
  show "bit (push_bit 8 (drop_bit (s + 8) n) OR ucast (ucast (drop_bit s n AND 0xFF) :: byte)) k =
      bit (drop_bit s n) k"
    unfolding byte_mask using \<open>k < LENGTH(64)\<close> by (cases "k < 8") (auto simp: bit_simps)
qed

lemma drop_bit_small: "(n :: uint64) \<le> 0xFFFFFFFF \<Longrightarrow> drop_bit 32 n = 0"
  "(n :: uint64) \<le> 0xFFFF \<Longrightarrow> drop_bit 16 n = 0" "(n :: uint64) \<le> 0xFF \<Longrightarrow> drop_bit 8 n = 0"
  unfolding word_unat_eq_iff unat_drop_bit_eq by (simp_all add: word_le_nat_alt drop_bit_eq_div)

lemma drop_bit_all: "drop_bit 64 (n :: uint64) = 0"
  by (rule bit_word_eqI) (auto simp: bit_simps)

lemma head_fields:
  assumes "mt \<le> 7" "info \<le> 31"
  shows "drop_bit 5 (push_bit 5 mt OR info) = (mt :: byte)" "(push_bit 5 mt OR info) AND 0x1F = info"
proof -
  have mt: "take_bit 3 mt = mt" and info: "take_bit 5 info = info"
    using assms unfolding word_unat_eq_iff unsigned_take_bit_eq
    by (auto simp: take_bit_nat_eq_self_iff word_le_nat_alt)
  have a: "bit mt k \<Longrightarrow> k < 3" and b: "bit info k \<Longrightarrow> k < 5" for k
    using mt info by (metis bit_take_bit_iff)+
  show "drop_bit 5 (push_bit 5 mt OR info) = mt"
    by (rule bit_word_eqI) (auto simp: bit_simps dest: a b)
  show "(push_bit 5 mt OR info) AND 0x1F = info"
    unfolding low_bits by (rule bit_word_eqI) (auto simp: bit_simps dest: a b)
qed

lemma small_ucast:
  assumes "(n :: uint64) \<le> 0xFF"
  shows "unat (ucast n :: byte) = unat n" "ucast (ucast n :: byte) = n"
proof -
  show a: "unat (ucast n :: byte) = unat n"
    using assms by (simp add: unsigned_ucast_eq take_bit_nat_eq_self_iff word_le_nat_alt)
  have "unat (ucast (ucast n :: byte) :: uint64) = unat (ucast n :: byte)"
    by (simp add: unsigned_ucast_eq unsigned_take_bit_eq)
  with a show "ucast (ucast n :: byte) = n" by (simp add: word_unat_eq_iff)
qed

lemma written_head:
  assumes "mt \<le> 7"
  shows "\<exists>info. is_head (writeTypeAndArgument [] mt n) mt n info"
proof -
  consider "n < 24" | "24 \<le> n" "n \<le> 0xFF" | "0xFF < n" "n \<le> 0xFFFF" | "0xFFFF < n" "n \<le> 0xFFFFFFFF"
    | "0xFFFFFFFF < n" by (meson linorder_not_le)
  then show ?thesis
  proof cases
    case 1
    then have "n \<le> 0xFF" by (simp add: word_le_nat_alt word_less_nat_alt)
    from small_ucast [OF this] 1
    have le: "ucast n \<le> (31 :: byte)" "ucast n < (24 :: byte)" "ucast (ucast n :: byte) = n"
      by (simp_all add: word_le_nat_alt word_less_nat_alt)
    show ?thesis using 1 head_fields [OF assms le(1)] le(2,3)
      by (auto simp: writeTypeAndArgument_def is_head_def)
  next
    case 2
    have "big_endian [ucast n] = n" using small_ucast(2) [OF 2(2)] by (simp add: big_endian_def)
    then show ?thesis using 2 head_fields [OF assms, of 24]
      by (auto simp: writeTypeAndArgument_def is_head_def)
  next
    case 3
    have "big_endian [ucast (drop_bit 8 n AND 0xFF), ucast (drop_bit 0 n AND 0xFF)] = n"
      using next_byte [of 0 n] next_byte [of 8 n] drop_bit_small(2) [OF 3(2)] by (simp add: big_endian_def)
    moreover have "ucast (drop_bit 8 n AND 0xFF) = (ucast (drop_bit 8 n) :: byte)"
      unfolding byte_mask by (rule bit_word_eqI) (auto simp: bit_simps)
    ultimately have "big_endian [ucast (drop_bit 8 n), ucast (n AND 0xFF)] = n" by simp
    moreover have "\<not> n < 24" using 3 by (simp add: word_less_nat_alt word_le_nat_alt)
    ultimately show ?thesis using 3 head_fields [OF assms, of 25]
      by (auto simp: writeTypeAndArgument_def is_head_def)
  next
    case 4
    have "big_endian (map (\<lambda>shift. ucast (drop_bit shift n AND 0xFF)) [24, 16, 8, 0]) = n"
      using next_byte [of 0 n] next_byte [of 8 n] next_byte [of 16 n] next_byte [of 24 n]
        drop_bit_small(1) [OF 4(2)] by (simp add: big_endian_def)
    moreover have "\<not> n \<le> 255" "\<not> n < 24" using 4 by (simp_all add: word_less_nat_alt word_le_nat_alt)
    ultimately show ?thesis using 4 head_fields [OF assms, of 26]
      by (auto simp: writeTypeAndArgument_def is_head_def)
  next
    case 5
    have "big_endian (map (\<lambda>shift. ucast (drop_bit shift n AND 0xFF)) [56, 48, 40, 32, 24, 16, 8, 0]) = n"
      using next_byte [of 0 n] next_byte [of 8 n] next_byte [of 16 n] next_byte [of 24 n]
        next_byte [of 32 n] next_byte [of 40 n] next_byte [of 48 n] next_byte [of 56 n]
        drop_bit_all [of n] by (simp add: big_endian_def)
    moreover have "\<not> n \<le> 65535" "\<not> n \<le> 255" "\<not> n < 24" using 5 by (simp_all add: word_less_nat_alt word_le_nat_alt)
    ultimately show ?thesis using 5 head_fields [OF assms, of 27]
      by (auto simp: writeTypeAndArgument_def is_head_def)
  qed
qed

lemma le_MaxInt64_iff: "v \<le> MaxInt64 \<longleftrightarrow> \<not> bit v 63"
proof -
  have "take_bit 63 v = v \<longleftrightarrow> unat v < 2 ^ 63"
    unfolding word_unat_eq_iff unsigned_take_bit_eq by (rule take_bit_nat_eq_self_iff)
  then have "v \<le> MaxInt64 \<longleftrightarrow> take_bit 63 v = v" by (auto simp: MaxInt64_def word_le_nat_alt)
  also have "\<dots> \<longleftrightarrow> \<not> bit v 63"
  proof
    assume "take_bit 63 v = v"
    then have "bit (take_bit 63 v) 63 = bit v 63" by (rule arg_cong)
    then show "\<not> bit v 63" by (simp add: bit_take_bit_iff)
  next
    assume "\<not> bit v 63"
    then have "k \<noteq> 63" if "bit v k" for k using that by auto
    then show "take_bit 63 v = v"
      by (intro bit_word_eqI) (auto simp: bit_take_bit_iff nat_less_le [of _ 63] less_Suc_eq_le)
  qed
  finally show ?thesis .
qed

lemma nonnegative_iff: "0 \<le>s v \<longleftrightarrow> \<not> bit (v :: int64) 63"
  by (simp add: word_sle_eq sint_uint signed_take_bit_nonnegative_iff bit_simps)

lemma written_int64:
  assumes "depth \<le> maxDepth"
  shows "\<exists>e. (\<forall>buffer. encodeInt64 buffer v = buffer @ e) \<and> cbor_item depth e (Int64_Value v)"
proof (cases "0 \<le>s v")
  case True
  then have v: "v \<le> MaxInt64" by (simp add: nonnegative_iff le_MaxInt64_iff)
  obtain info where h: "is_head (writeTypeAndArgument [] 0 v) 0 v info" using written_head [of 0 v] by auto
  have "encodeInt64 buffer v = buffer @ writeTypeAndArgument [] 0 v" for buffer
    unfolding encodeInt64_def using True by (simp add: write_head [symmetric])
  with unsigned [OF assms h v] show ?thesis by blast
next
  case False
  then have v: "NOT v \<le> MaxInt64"
    unfolding nonnegative_iff le_MaxInt64_iff by (simp add: bit_not_iff)
  have "- 1 - NOT v = v" by (simp add: not_eq_complement)
  obtain info where h: "is_head (writeTypeAndArgument [] 1 (NOT v)) 1 (NOT v) info"
    using written_head [of 1 "NOT v"] by (auto simp: word_le_nat_alt)
  have "encodeInt64 buffer v = buffer @ writeTypeAndArgument [] 1 (NOT v)" for buffer
    unfolding encodeInt64_def using False by (simp add: write_head [symmetric])
  with negative [OF assms h v] show ?thesis unfolding \<open>- 1 - NOT v = v\<close> by blast
qed

section \<open>Encodable values and their normal form\<close>

definition key_bytes :: "go_value \<Rightarrow> bytes" where
  "key_bytes k = (case Encode k of Inl e \<Rightarrow> [] | Inr bs \<Rightarrow> bs)"

primrec norm :: "go_value \<Rightarrow> go_value" where
  "norm Nil_Value = Nil_Value"
| "norm Undefined = Undefined"
| "norm (Bool_Value b) = Bool_Value b"
| "norm (Int_Value v) = Int64_Value v"
| "norm (Int64_Value v) = Int64_Value v"
| "norm (Uint64_Value v) = Int64_Value v"
| "norm (Bytes_Value origin bs) = Bytes_Value None bs"
| "norm (String_Value s) = String_Value s"
| "norm (Slice_Value vs) = Slice_Value (map norm vs)"
| "norm (MapInt64_Value es) =
     MapAny_Value (sort_key (key_bytes \<circ> fst) (int64_entries (map (map_prod (\<lambda>k. k) norm) es)))"
| "norm (MapAny_Value es) =
     MapAny_Value (sort_key (key_bytes \<circ> fst) (map (map_prod norm norm) es))"
| "norm (Tag_Value n v) = Tag_Value n (norm v)"
| "norm (Unsupported t) = Unsupported t"

fun encodable_key :: "go_value \<Rightarrow> bool" where
  "encodable_key (Int_Value v) = True"
| "encodable_key (Int64_Value v) = True"
| "encodable_key (Uint64_Value v) = (v \<le> MaxInt64)"
| "encodable_key (String_Value s) = (utf8_valid s \<and> length s < 2 ^ 64)"
| "encodable_key _ = False"

primrec encodable :: "go_value \<Rightarrow> nat \<Rightarrow> bool" where
  "encodable Nil_Value depth = (depth \<le> maxDepth)"
| "encodable Undefined depth = (depth \<le> maxDepth)"
| "encodable (Bool_Value b) depth = (depth \<le> maxDepth)"
| "encodable (Int_Value v) depth = (depth \<le> maxDepth)"
| "encodable (Int64_Value v) depth = (depth \<le> maxDepth)"
| "encodable (Uint64_Value v) depth = (depth \<le> maxDepth \<and> v \<le> MaxInt64)"
| "encodable (Bytes_Value origin bs) depth = (depth \<le> maxDepth \<and> length bs < 2 ^ 64)"
| "encodable (String_Value s) depth = (depth \<le> maxDepth \<and> utf8_valid s \<and> length s < 2 ^ 64)"
| "encodable (Slice_Value vs) depth =
     (depth \<le> maxDepth \<and> length vs < 2 ^ 64 \<and> list_all (\<lambda>f. f (depth + 1)) (map encodable vs))"
| "encodable (MapInt64_Value es) depth =
     (depth \<le> maxDepth \<and> length es < 2 ^ 64 \<and> distinct (map fst es) \<and>
      list_all (\<lambda>(k, f). f (depth + 1)) (map (map_prod (\<lambda>k. k) encodable) es))"
| "encodable (MapAny_Value es) depth =
     (depth \<le> maxDepth \<and> length es < 2 ^ 64 \<and> list_all encodable_key (map fst es) \<and>
      distinct (map norm (map fst es)) \<and>
      list_all (\<lambda>(f, g). f (depth + 1) \<and> g (depth + 1)) (map (map_prod encodable encodable) es))"
| "encodable (Tag_Value n v) depth = (depth \<le> maxDepth \<and> encodable v (depth + 1))"
| "encodable (Unsupported t) depth = False"

lemma encodable_depth: "encodable v depth \<Longrightarrow> depth \<le> maxDepth"
  by (cases v) auto

lemma norm_key [simp]:
  assumes "encodable_key k"
  shows "key_bytes (norm k) = key_bytes k" "map_key (norm k)"
  using assms
  by (cases k; auto simp: key_bytes_def Encode_def encodeInt64_def nonnegative_iff le_MaxInt64_iff)+

section \<open>Sorting\<close>

lemma insort_key_map: "insort_key f (g x) (map g xs) = map g (insort_key (f \<circ> g) x xs)"
  by (induction xs) auto

lemma sort_key_map: "sort_key f (map g xs) = map g (sort_key (f \<circ> g) xs)"
  by (induction xs) (simp_all add: insort_key_map comp_def)

lemma insort_key_cong_set:
  "(\<And>y. y \<in> insert x (set xs) \<Longrightarrow> f y = g y) \<Longrightarrow> insort_key f x xs = insort_key g x xs"
  by (induction xs) auto

lemma sort_key_cong_set: "(\<And>y. y \<in> set xs \<Longrightarrow> f y = g y) \<Longrightarrow> sort_key f xs = sort_key g xs"
  by (induction xs) (auto intro!: insort_key_cong_set)

section \<open>The encoding of a map\<close>

definition encoded_entry :: "nat \<Rightarrow> go_value \<times> go_value \<Rightarrow> bytes \<times> bytes \<Rightarrow> bool" where
  "encoded_entry depth kv kvb \<longleftrightarrow>
     encodable_key (fst kv) \<and> fst kvb = key_bytes (fst kv) \<and>
     cbor_item depth (fst kvb) (norm (fst kv)) \<and> cbor_item depth (snd kvb) (norm (snd kv))"

lemma foldl_write:
  "foldl (\<lambda>buffer (key, item). (buffer @ key) @ item) buffer kvs = buffer @ concat (map (\<lambda>(k, v). k @ v) kvs)"
  by (induction kvs arbitrary: buffer) auto

lemma written_entries:
  "list_all2 (encoded_entry depth) es kvs \<Longrightarrow>
     cbor_entries depth (concat (map (\<lambda>(k, v). k @ v) kvs)) (map (map_prod norm norm) es)"
  by (induction rule: list_all2_induct)
    (auto simp: encoded_entry_def cbor_entries_Cons, metis)

lemma list_all2_sorted:
  assumes "list_all2 (encoded_entry depth) es kvs"
  shows "list_all2 (encoded_entry depth) (sort_key (key_bytes \<circ> fst) es) (sort_key fst kvs)"
proof -
  let ?zs = "zip es kvs"
  have len: "length es = length kvs" and entry: "\<And>z. z \<in> set ?zs \<Longrightarrow> encoded_entry depth (fst z) (snd z)"
    using assms by (auto simp: list_all2_iff)
  have "es = map fst ?zs" "kvs = map snd ?zs" using len by simp_all
  then have s: "sort_key (key_bytes \<circ> fst) es = map fst (sort_key (key_bytes \<circ> fst \<circ> fst) ?zs)"
      "sort_key fst kvs = map snd (sort_key (fst \<circ> snd) ?zs)"
    by (metis sort_key_map)+
  have "sort_key (fst \<circ> snd) ?zs = sort_key (key_bytes \<circ> fst \<circ> fst) ?zs"
    using entry by (intro sort_key_cong_set) (auto simp: encoded_entry_def)
  then show ?thesis unfolding s using entry
    by (auto simp: list_all2_map1 list_all2_map2 list_all2_same)
qed

lemma sort_norm_entries:
  assumes "list_all encodable_key (map fst es)"
  shows "sort_key (key_bytes \<circ> fst) (map (map_prod norm norm) es) =
    map (map_prod norm norm) (sort_key (key_bytes \<circ> fst) es)"
  unfolding sort_key_map
  by (intro arg_cong [where f = "map _"] sort_key_cong_set) (use assms in \<open>auto simp: list_all_iff\<close>)

lemma unat_length: "length xs < 2 ^ 64 \<Longrightarrow> unat (of_nat (length xs) :: uint64) = length xs"
  by (simp add: unat_of_nat)

lemma written_map:
  assumes "list_all2 (encoded_entry (depth + 1)) es kvs" "depth \<le> maxDepth" "length es < 2 ^ 64"
    "distinct (map norm (map fst es))"
  shows "\<exists>e. (\<forall>buffer. write_entries buffer kvs = buffer @ e) \<and>
    cbor_item depth e (MapAny_Value (sort_key (key_bytes \<circ> fst) (map (map_prod norm norm) es)))"
proof -
  have keys: "list_all encodable_key (map fst es)"
    using assms(1) by (auto simp: list_all2_conv_all_nth list_all_length encoded_entry_def)
  let ?n = "of_nat (length kvs) :: uint64"
  let ?c = "concat (map (\<lambda>(k, v). k @ v) (sort_key fst kvs))"
  let ?es = "map (map_prod norm norm) (sort_key (key_bytes \<circ> fst) es)"
  obtain info where h: "is_head (writeTypeAndArgument [] 5 ?n) 5 ?n info"
    using written_head [of 5 ?n] by (auto simp: word_le_nat_alt)
  have len: "length kvs = length es" using assms(1) by (auto dest: list_all2_lengthD)
  have "write_entries buffer kvs = buffer @ writeTypeAndArgument [] 5 ?n @ ?c" for buffer
    unfolding write_entries_def sort_entries_def foldl_write write_head [of buffer 5] by simp
  moreover have "cbor_entries (depth + 1) ?c ?es"
    using written_entries [OF list_all2_sorted [OF assms(1)]] .
  moreover have "distinct (map fst ?es)"
  proof -
    have "mset (map fst ?es) = mset (map norm (map fst es))" 
      by (simp add: mset_map comp_def)
    with assms(4) show ?thesis by (metis mset_eq_imp_distinct_iff)
  qed
  ultimately show ?thesis
    using map_ [OF assms(2) h, of ?c ?es] assms(3) len unat_length [of es]
    by (auto simp: sort_norm_entries [OF keys])
qed

section \<open>The encoding of a value\<close>

lemma encodable_list:
  "encodable (Slice_Value vs) depth \<longleftrightarrow>
     depth \<le> maxDepth \<and> length vs < 2 ^ 64 \<and> (\<forall>v \<in> set vs. encodable v (depth + 1))"
  "encodable (MapInt64_Value ns) depth \<longleftrightarrow>
     depth \<le> maxDepth \<and> length ns < 2 ^ 64 \<and> distinct (map fst ns) \<and>
     (\<forall>(k, v) \<in> set ns. encodable v (depth + 1))"
  "encodable (MapAny_Value es) depth \<longleftrightarrow>
     depth \<le> maxDepth \<and> length es < 2 ^ 64 \<and> list_all encodable_key (map fst es) \<and>
     distinct (map norm (map fst es)) \<and>
     (\<forall>(k, v) \<in> set es. encodable k (depth + 1) \<and> encodable v (depth + 1))"
  by (auto simp: list_all_iff)

declare encodable.simps(9-11) [simp del]

lemma int64_entries_simps [simp]:
  "int64_entries [] = []" "int64_entries ((k, v) # es) = (Int64_Value k, v) # int64_entries es"
  "length (int64_entries es) = length es"
  "map fst (int64_entries es) = map Int64_Value (map fst es)"
  "int64_entries (map (map_prod (\<lambda>k. k) norm) es) = map (map_prod norm norm) (int64_entries es)"
  by (auto simp: int64_entries_def)

lemma encode_head:
  "mt \<le> 7 \<Longrightarrow> (\<And>info. is_head (writeTypeAndArgument [] mt n) mt n info \<Longrightarrow> P) \<Longrightarrow> P"
  using written_head by blast

lemma writtenI:
  "(\<And>buffer. encodeValue buffer v = Inr (buffer @ e)) \<Longrightarrow> cbor_item depth e w \<Longrightarrow> norm v = w \<Longrightarrow>
     \<exists>e. (\<forall>buffer. encodeValue buffer v = Inr (buffer @ e)) \<and> cbor_item depth e (norm v)"
  by blast

theorem encode_encodable:
  "encodable v depth \<Longrightarrow> \<exists>e. (\<forall>buffer. encodeValue buffer v = Inr (buffer @ e)) \<and> cbor_item depth e (norm v)"
  "\<forall>v \<in> set vs. encodable v depth \<Longrightarrow>
     \<exists>e. (\<forall>buffer. encodeItems buffer vs = Inr (buffer @ e)) \<and> cbor_items depth e (map norm vs)"
  "\<forall>(k, v) \<in> set es. encodable_key k \<and> encodable k depth \<and> encodable v depth \<Longrightarrow>
     \<exists>kvs. encodeEntries es = Inr kvs \<and> list_all2 (encoded_entry depth) es kvs"
proof (induction "b :: bytes" v and "c :: bytes" vs and es arbitrary: depth and depth and depth
    rule: encodeValue_encodeItems_encodeEntries.induct)
  case (6 b v)
  then obtain info where h: "is_head (writeTypeAndArgument [] 0 v) 0 v info" using encode_head [of 0 v] by auto
  have eq: "encodeValue buffer (Uint64_Value v) = Inr (buffer @ writeTypeAndArgument [] 0 v)" for buffer
    using write_head [of buffer 0 v] by simp
  show ?case by (rule writtenI [OF eq unsigned [OF _ h]]) (use 6 in simp_all)
next
  case (7 b origin bs)
  let ?n = "of_nat (length bs) :: uint64"
  obtain info where h: "is_head (writeTypeAndArgument [] 2 ?n) 2 ?n info"
    using encode_head [of 2 ?n] by (auto simp: word_le_nat_alt)
  have "encodeValue buffer (Bytes_Value origin bs) = Inr (buffer @ writeTypeAndArgument [] 2 ?n @ bs)" for buffer
    using write_head [of buffer 2 ?n] by simp
  note eq = this
  show ?case by (rule writtenI [OF eq byte_string [OF _ h]]) (use 7 unat_length [of bs] in simp_all)
next
  case (8 b s)
  let ?n = "of_nat (length s) :: uint64"
  obtain info where h: "is_head (writeTypeAndArgument [] 3 ?n) 3 ?n info"
    using encode_head [of 3 ?n] by (auto simp: word_le_nat_alt)
  have "encodeValue buffer (String_Value s) = Inr (buffer @ writeTypeAndArgument [] 3 ?n @ s)" for buffer
    using write_head [of buffer 3 ?n] by simp
  note eq = this
  show ?case by (rule writtenI [OF eq text_string [OF _ h]]) (use 8 unat_length [of s] in simp_all)
next
  case (9 b vs)
  let ?n = "of_nat (length vs) :: uint64"
  obtain info where h: "is_head (writeTypeAndArgument [] 4 ?n) 4 ?n info"
    using encode_head [of 4 ?n] by (auto simp: word_le_nat_alt)
  obtain e where e: "\<And>buffer. encodeItems buffer vs = Inr (buffer @ e)" "cbor_items (depth + 1) e (map norm vs)"
    using 9(1) [of "depth + 1"] 9(2) by (auto simp: encodable_list)
  have "encodeValue buffer (Slice_Value vs) = Inr (buffer @ writeTypeAndArgument [] 4 ?n @ e)" for buffer
    using e(1) write_head [of buffer 4 ?n] by simp
  note eq = this
  show ?case
    by (rule writtenI [OF eq array [OF _ h e(2)]]) (use 9(2) unat_length [of vs] in \<open>simp_all add: encodable_list\<close>)
next
  case (10 b es)
  have "\<forall>(k, v) \<in> set (int64_entries es). encodable_key k \<and> encodable k (depth + 1) \<and> encodable v (depth + 1)"
    using 10(2) encodable_depth [of _ "depth + 1"] by (fastforce simp: encodable_list int64_entries_def)
  then obtain kvs where kvs: "encodeEntries (int64_entries es) = Inr kvs"
      "list_all2 (encoded_entry (depth + 1)) (int64_entries es) kvs" using 10(1) by blast
  have "distinct (map norm (map fst (int64_entries es)))"
    using 10(2) by (auto simp: encodable_list distinct_map comp_def inj_on_def)
  with written_map [OF kvs(2)] 10(2) kvs(1) show ?case by (auto simp: encodable_list)
next
  case (11 b es)
  then have "\<forall>(k, v) \<in> set es. encodable_key k \<and> encodable k (depth + 1) \<and> encodable v (depth + 1)"
    by (auto simp: encodable_list list_all_iff)
  then obtain kvs where kvs: "encodeEntries es = Inr kvs" "list_all2 (encoded_entry (depth + 1)) es kvs"
    using 11(1) by blast
  with written_map [OF kvs(2)] 11(2) show ?case by (auto simp: encodable_list)
next
  case (12 b n v)
  obtain info where h: "is_head (writeTypeAndArgument [] 6 n) 6 n info"
    using encode_head [of 6 n] by (auto simp: word_le_nat_alt)
  obtain e where e: "\<And>buffer. encodeValue buffer v = Inr (buffer @ e)" "cbor_item (depth + 1) e (norm v)"
    using 12(1) [of "depth + 1"] 12(2) by auto
  have "encodeValue buffer (Tag_Value n v) = Inr (buffer @ writeTypeAndArgument [] 6 n @ e)" for buffer
    using e(1) write_head [of buffer 6 n] by simp
  note eq = this
  show ?case by (rule writtenI [OF eq tag [OF _ h e(2)]]) (use 12(2) in simp_all)
next
  case (15 b v vs)
  obtain e where e: "\<And>buffer. encodeValue buffer v = Inr (buffer @ e)" "cbor_item depth e (norm v)"
    using 15(1) [of depth] 15(3) by auto
  obtain f where f: "\<And>buffer. encodeItems buffer vs = Inr (buffer @ f)" "cbor_items depth f (map norm vs)"
    using 15(2) [OF e(1), of depth] 15(3) by auto
  show ?case using e f by (intro exI [of _ "e @ f"]) (auto intro: cbor_item_cbor_items_cbor_entries.intros)
next
  case (17 k v es)
  obtain e where e: "encodeValue [] k = Inr e" "cbor_item depth e (norm k)"
    using 17(1) [of depth] 17(4) by auto
  obtain f where f: "encodeValue [] v = Inr f" "cbor_item depth f (norm v)"
    using 17(2) [OF e(1), of depth] 17(4) by auto
  obtain kvs where kvs: "encodeEntries es = Inr kvs" "list_all2 (encoded_entry depth) es kvs"
    using 17(3) [OF e(1) f(1), of depth] 17(4) by auto
  have "encoded_entry depth (k, v) (e, f)"
    using e f 17(4) by (simp add: encoded_entry_def key_bytes_def Encode_def)
  then show ?case using e(1) f(1) kvs by simp
qed (auto intro: cbor_item_cbor_items_cbor_entries.intros written_int64)

end
