(* ===== verification/Cbor_Properties.thy ===== *)
theory Cbor_Properties
  imports Cbor_Encoding
begin

text \<open>
  The properties of the CBOR package: the decoder reads exactly the grammar, the encoder writes
  encodings the decoder maps back to the value, encodings do not depend on the iteration order of
  Go maps whose keys have different encodings, and decoding without copying differs only in where the byte strings live.
\<close>

section \<open>Shared facts\<close>

lemma encodable_Encode:
  assumes "encodable v 0"
  obtains e where "Encode v = Inr e" "cbor_item 0 e (norm v)"
  using encode_encodable(1) [OF assms] by (auto simp: Encode_def)

lemma map_key_norm [simp]: "map_key k \<Longrightarrow> norm k = k"
  by (cases k) auto

text \<open>Whatever the decoder accepts can be encoded.\<close>

lemma item_encodable:
  "cbor_item depth e v \<Longrightarrow> encodable v depth"
  "cbor_items depth e us \<Longrightarrow> \<forall>v \<in> set us. encodable v depth"
  "cbor_entries depth e fs \<Longrightarrow>
     \<forall>(k, v) \<in> set fs. map_key k \<and> encodable_key k \<and> encodable k depth \<and> encodable v depth"
proof (induction rule: cbor_item_cbor_items_cbor_entries.inducts)
  case (byte_string depth h n info bs)
  then show ?case using unsigned_less [of n] by simp
next
  case (text_string depth h n info s)
  then show ?case using unsigned_less [of n] by simp
next
  case (array depth h n info e vs)
  then show ?case using unsigned_less [of n] by (simp add: encodable_list)
next
  case (map_ depth h n info e es)
  have "map norm (map fst es) = map fst es" using map_.IH by (intro map_idI) auto
  then have d: "distinct (map norm (map fst es))" using map_.hyps(5) by (simp only:)
  have "list_all encodable_key (map fst es)" "\<forall>(k, v) \<in> set es. encodable k (depth + 1) \<and> encodable v (depth + 1)"
    using map_.IH by (auto simp: list_all_iff)
  then show ?case unfolding encodable_list using d map_.hyps unsigned_less [of n] by simp
next
  case (more_entries depth e k f v g es)
  then have "encodable_key k" by (cases k) auto
  with more_entries show ?case by auto
qed auto

text \<open>Encoding the entries of a map is encoding each key and item.\<close>

definition encodes_entry :: "go_value \<times> go_value \<Rightarrow> bytes \<times> bytes \<Rightarrow> bool" where
  "encodes_entry kv kvb \<longleftrightarrow> Encode (fst kv) = Inr (fst kvb) \<and> Encode (snd kv) = Inr (snd kvb)"

lemma encodes_entry_pair [simp]:
  "encodes_entry (k, v) (a, b) \<longleftrightarrow> encodeValue [] k = Inr a \<and> encodeValue [] v = Inr b"
  by (simp add: encodes_entry_def Encode_def)

lemma encodeEntries_iff: "encodeEntries es = Inr kvs \<longleftrightarrow> list_all2 encodes_entry es kvs"
proof (induction es arbitrary: kvs)
  case (Cons kv es)
  show ?case
    by (cases kv; cases kvs) (auto simp flip: Cons.IH split: sum.splits)
qed auto

lemma list_all2_sort_key:
  assumes "list_all2 R xs ys" "\<And>x y. x \<in> set xs \<Longrightarrow> R x y \<Longrightarrow> f x = g y"
  shows "list_all2 R (sort_key f xs) (sort_key g ys)"
proof -
  let ?zs = "zip xs ys"
  have len: "length xs = length ys" and entry: "\<And>z. z \<in> set ?zs \<Longrightarrow> R (fst z) (snd z)"
    using assms(1) by (auto simp: list_all2_iff)
  have "xs = map fst ?zs" "ys = map snd ?zs" using len by simp_all
  then have s: "sort_key f xs = map fst (sort_key (f \<circ> fst) ?zs)"
      "sort_key g ys = map snd (sort_key (g \<circ> snd) ?zs)"
    by (metis sort_key_map)+
  have "sort_key (f \<circ> fst) ?zs = sort_key (g \<circ> snd) ?zs"
  proof (rule sort_key_cong_set)
    fix z assume "z \<in> set ?zs"
    moreover from this have "fst z \<in> set xs" by (metis prod.collapse set_zip_leftD)
    ultimately show "(f \<circ> fst) z = (g \<circ> snd) z"
      using assms(2) [of "fst z" "snd z"] entry [of z] by simp
  qed
  then show ?thesis unfolding s using entry
    by (auto simp: list_all2_map1 list_all2_map2 list_all2_same)
qed

lemma sort_key_idem: "sort_key f (sort_key f xs) = sort_key f xs"
  by (simp add: sort_key_id_if_sorted)

lemma write_sorted: "write_entries buffer (sort_key fst kvs) = write_entries buffer kvs"
  by (simp add: write_entries_def sort_entries_def sort_key_idem)

lemma encode_sorted_entries:
  assumes "encodeEntries es = Inr kvs"
  shows "encodeEntries (sort_key (key_bytes \<circ> fst) es) = Inr (sort_key fst kvs)"
  using assms unfolding encodeEntries_iff
  by (rule list_all2_sort_key) (simp add: key_bytes_def encodes_entry_def)

text \<open>A value and its normal form are encoded alike.\<close>

lemma encode_norm:
  "encodable v depth \<Longrightarrow> encodeValue b (norm v) = encodeValue b v"
  "\<forall>v \<in> set vs. encodable v depth \<Longrightarrow> encodeItems c (map norm vs) = encodeItems c vs"
  "\<forall>(k, v) \<in> set es. encodable_key k \<and> encodable k depth \<and> encodable v depth \<Longrightarrow>
     encodeEntries (map (map_prod norm norm) es) = encodeEntries es"
proof (induction b v and c vs and es arbitrary: depth and depth and depth
    rule: encodeValue_encodeItems_encodeEntries.induct)
  case (6 b v)
  then show ?case by (simp add: encodeInt64_def nonnegative_iff le_MaxInt64_iff)
next
  case (9 b vs)
  then show ?case by (auto simp: encodable_list)
next
  case (10 b es)
  have ok: "\<forall>(k, v) \<in> set (int64_entries es).
      encodable_key k \<and> encodable k (depth + 1) \<and> encodable v (depth + 1)"
    using 10(2) encodable_depth [of _ "depth + 1"] by (fastforce simp: encodable_list int64_entries_def)
  obtain kvs where kvs: "encodeEntries (int64_entries es) = Inr kvs" using encode_encodable(3) [OF ok] by blast
  then have "encodeEntries (map (map_prod norm norm) (int64_entries es)) = Inr kvs" using 10(1) [OF ok] by simp
  from encode_sorted_entries [OF this] show ?case by (simp add: kvs write_sorted)
next
  case (11 b es)
  have ok: "\<forall>(k, v) \<in> set es. encodable_key k \<and> encodable k (depth + 1) \<and> encodable v (depth + 1)"
    using 11(2) by (auto simp: encodable_list list_all_iff)
  obtain kvs where kvs: "encodeEntries es = Inr kvs" using encode_encodable(3) [OF ok] by blast
  then have "encodeEntries (map (map_prod norm norm) es) = Inr kvs" using 11(1) [OF ok] by simp
  from encode_sorted_entries [OF this] show ?case by (simp add: kvs write_sorted)
next
  case (15 b v vs)
  then show ?case by (cases "encodeValue b v") auto
next
  case (17 k v es)
  have ok: "encodable k depth" "encodable v depth"
      "\<forall>(k, v) \<in> set es. encodable_key k \<and> encodable k depth \<and> encodable v depth"
    using 17(4) by auto
  obtain e f where e: "encodeValue [] k = Inr e" and f: "encodeValue [] v = Inr f"
    using encode_encodable(1) [OF ok(1)] encode_encodable(1) [OF ok(2)] by blast
  show ?case using 17(1) [OF ok(1)] 17(2) [OF e ok(2)] 17(3) [OF e f ok(3)] by (simp add: e f)
qed auto

section \<open>Decoding without copying\<close>

primrec erase :: "go_value \<Rightarrow> go_value" where
  "erase Nil_Value = Nil_Value"
| "erase Undefined = Undefined"
| "erase (Bool_Value b) = Bool_Value b"
| "erase (Int_Value v) = Int_Value v"
| "erase (Int64_Value v) = Int64_Value v"
| "erase (Uint64_Value v) = Uint64_Value v"
| "erase (Bytes_Value origin bs) = Bytes_Value None bs"
| "erase (String_Value s) = String_Value s"
| "erase (Slice_Value vs) = Slice_Value (map erase vs)"
| "erase (MapInt64_Value es) = MapInt64_Value (map (map_prod (\<lambda>k. k) erase) es)"
| "erase (MapAny_Value es) = MapAny_Value (map (map_prod erase erase) es)"
| "erase (Tag_Value n v) = Tag_Value n (erase v)"
| "erase (Unsupported t) = Unsupported t"

text \<open>The byte slices of a value, with the offset each aliases.\<close>

primrec slices :: "go_value \<Rightarrow> (nat option \<times> bytes) list" where
  "slices Nil_Value = []"
| "slices Undefined = []"
| "slices (Bool_Value b) = []"
| "slices (Int_Value v) = []"
| "slices (Int64_Value v) = []"
| "slices (Uint64_Value v) = []"
| "slices (Bytes_Value origin bs) = [(origin, bs)]"
| "slices (String_Value s) = []"
| "slices (Slice_Value vs) = concat (map slices vs)"
| "slices (MapInt64_Value es) = concat (map snd (map (map_prod (\<lambda>k. k) slices) es))"
| "slices (MapAny_Value es) = concat (map (\<lambda>(a, b). a @ b) (map (map_prod slices slices) es))"
| "slices (Tag_Value n v) = slices v"
| "slices (Unsupported t) = []"

definition aliases :: "bytes \<Rightarrow> nat option \<times> bytes \<Rightarrow> bool" where
  "aliases input s \<longleftrightarrow>
     (\<exists>start. fst s = Some start \<and> snd s = take (length (snd s)) (drop start input))"

definition copying :: "decoder \<Rightarrow> decoder" where "copying d = d\<lparr>noCopy := False\<rparr>"

lemma copying_simps [simp]: "data (copying d) = data d" "offset (copying d) = offset d"
  "copying (d\<lparr>offset := n\<rparr>) = copying d\<lparr>offset := n\<rparr>" "\<not> noCopy (copying d)"
  by (simp_all add: copying_def)

lemma copying_head:
  "readTypeAndArgument (copying d) = map_sum id (map_prod id copying) (readTypeAndArgument d)"
  by (simp add: readTypeAndArgument_def Let_def)

lemma copying_slice: "readSlice (copying d) n = map_sum id (map_prod id copying) (readSlice d n)"
  by (simp add: readSlice_def Let_def)

lemma copying_bytes: "readBytes (copying d) n = map_sum id (map_prod erase copying) (readBytes d n)"
  by (auto simp: readBytes_def copying_slice split: sum.splits)

lemma erase_key [simp]: "map_key (erase k) = map_key k" "map_key k \<Longrightarrow> erase k = k"
  by (cases k; simp)+

lemma erase_keys: "list_all map_key (map fst es) \<Longrightarrow> map_key k \<Longrightarrow>
  k \<in> set (map fst (map (map_prod erase erase) es)) \<longleftrightarrow> k \<in> set (map fst es)"
  by (induction es) auto

lemma decode_copying:
  "decodeValue depth (copying d) = map_sum id (map_prod erase copying) (decodeValue depth d)"
  "decodeItems depth n (map erase vs) (copying d) =
     map_sum id (map_prod (map erase) copying) (decodeItems depth n vs d)"
  "list_all map_key (map fst es) \<Longrightarrow>
     decodeEntries depth n (map (map_prod erase erase) es) (copying d) =
     map_sum id (map_prod (map (map_prod erase erase)) copying) (decodeEntries depth n es d)"
proof (induction depth d and depth n vs d and depth n es d
    rule: decodeValue_decodeItems_decodeEntries.induct)
  case (1 depth d)
  show ?case
  proof (cases "depth > maxDepth")
    case True
    then show ?thesis by (subst decodeValue.simps, subst decodeValue.simps) simp
  next
    case False
    show ?thesis
    proof (cases "readTypeAndArgument d")
      case (Inl e)
      then show ?thesis using False
        by (subst decodeValue.simps, subst decodeValue.simps) (simp add: copying_head)
    next
      case (Inr r)
      obtain mt n info d1 where r: "r = ((mt, n, info), d1)" by (metis prod_cases4 prod.collapse)
      have head: "readTypeAndArgument d = Inr ((mt, n, info), d1)"
          "readTypeAndArgument (copying d) = Inr ((mt, n, info), copying d1)"
        using Inr r by (simp_all add: copying_head)
      note run = decodeValue.simps [of depth d, unfolded head] decodeValue.simps [of depth "copying d", unfolded head]
      have ih: "mt = 4 \<Longrightarrow> unat n \<le> length (data d1) - offset d1 \<Longrightarrow> decodeItems (depth + 1) (unat n) [] (copying d1) =
            map_sum id (map_prod (map erase) copying) (decodeItems (depth + 1) (unat n) [] d1)"
          "mt = 5 \<Longrightarrow> unat n \<le> (length (data d1) - offset d1) div 2 \<Longrightarrow> decodeEntries (depth + 1) (unat n) [] (copying d1) =
            map_sum id (map_prod (map (map_prod erase erase)) copying) (decodeEntries (depth + 1) (unat n) [] d1)"
          "mt = 6 \<Longrightarrow> decodeValue (depth + 1) (copying d1) = map_sum id (map_prod erase copying) (decodeValue (depth + 1) d1)"
        using 1(1) [OF False Inr r [symmetric] refl refl] 1(2) [OF False Inr r [symmetric] refl refl]
          1(3) [OF False Inr r [symmetric] refl refl] by (simp_all add: id_def)
      consider "mt = 2" | "mt = 3" | "mt = 4" | "mt = 5" | "mt = 6" | "mt \<notin> {2, 3, 4, 5, 6}" by blast
      then show ?thesis
      proof cases
        case 1
        then show ?thesis using False by (simp add: run copying_bytes id_def)
      next
        case 2
        then show ?thesis using False by (simp add: run copying_slice split: sum.split)
      next
        case 3
        then show ?thesis using False ih(1) by (simp add: run split: sum.split)
      next
        case 4
        then show ?thesis using False ih(2) by (simp add: run split: sum.split)
      next
        case 5
        then show ?thesis using False ih(3) by (simp add: run split: sum.split)
      next
        case 6
        then show ?thesis using False by (simp add: run)
      qed
    qed
  qed
next
  case (3 depth n vs d)
  then show ?case by (auto split: sum.splits)
next
  case (5 depth n es d)
  show ?case
  proof (cases "decodeValue depth d")
    case (Inl e)
    then show ?thesis using 5(1) 5(4) by simp
  next
    case (Inr r)
    obtain k d1 where r: "r = (k, d1)" by fastforce
    show ?thesis
    proof (cases "map_key k \<and> k \<notin> set (map fst es)")
      case False
      then show ?thesis using 5(1) 5(4) Inr r erase_keys [of es k] by auto
    next
      case True
      have key: "decodeValue depth (copying d) = Inr (k, copying d1)" using 5(1) Inr r True by simp
      have item: "decodeValue depth (copying d1) = map_sum id (map_prod erase copying) (decodeValue depth d1)"
        using 5(2) [OF Inr r [symmetric]] True by (simp add: id_def)
      show ?thesis
      proof (cases "decodeValue depth d1")
        case (Inl e)
        then show ?thesis using Inr r True key item erase_keys [OF 5(4), of k] by simp
      next
        case 2: (Inr r2)
        obtain v d2 where r2: "r2 = (v, d2)" by fastforce
        have "decodeEntries depth n (map (map_prod erase erase) (es @ [(k, v)])) (copying d2) =
            map_sum id (map_prod (map (map_prod erase erase)) copying) (decodeEntries depth n (es @ [(k, v)]) d2)"
          using 5(3) [OF Inr r [symmetric] _ _ 2 r2 [symmetric]] True 5(4) by (simp add: id_def)
        then show ?thesis using Inr r True key item 2 r2 erase_keys [OF 5(4), of k] by (simp add: id_def)
      qed
    qed
  qed
qed auto

lemma read_head_frame:
  "readTypeAndArgument d = Inr (x, d') \<Longrightarrow> data d' = data d \<and> noCopy d' = noCopy d"
  using read_head_sound [of d "fst x" "fst (snd x)" "snd (snd x)" d'] by (auto dest: reads_frame)

lemma read_bytes_aliases:
  assumes "readBytes d n = Inr (v, d')" "noCopy d"
  shows "data d' = data d \<and> noCopy d' \<and> list_all (aliases (data d)) (slices v)"
proof -
  obtain bs where bs: "readSlice d n = Inr (bs, d')" "v = Bytes_Value (Some (offset d)) bs"
    using assms by (auto simp: readBytes_def readSlice_def Let_def split: if_splits)
  note sl = read_slice_sound [OF bs(1)]
  then have "bs = take (length bs) (drop (offset d) (data d))" by (auto simp: reads_def rest_def)
  then show ?thesis using sl assms(2) bs(2) by (auto simp: aliases_def reads_def)
qed

lemma decode_aliases:
  "decodeValue depth d = Inr (v, d') \<Longrightarrow> noCopy d \<Longrightarrow>
     data d' = data d \<and> noCopy d' \<and> list_all (aliases (data d)) (slices v)"
  "decodeItems depth n vs d = Inr (ws, d') \<Longrightarrow> noCopy d \<Longrightarrow> list_all (aliases (data d)) (slices (Slice_Value vs)) \<Longrightarrow>
     data d' = data d \<and> noCopy d' \<and> list_all (aliases (data d)) (slices (Slice_Value ws))"
  "decodeEntries depth n es d = Inr (fs, d') \<Longrightarrow> noCopy d \<Longrightarrow> list_all (aliases (data d)) (slices (MapAny_Value es)) \<Longrightarrow>
     data d' = data d \<and> noCopy d' \<and> list_all (aliases (data d)) (slices (MapAny_Value fs))"
proof (induction depth d and depth n vs d and depth n es d arbitrary: v d' and ws d' and fs d'
    rule: decodeValue_decodeItems_decodeEntries.induct)
  case (1 depth d)
  have depth: "depth \<le> maxDepth" using 1(4) by (subst (asm) decodeValue.simps) (simp split: if_splits)
  obtain mt n info d1 where head: "readTypeAndArgument d = Inr ((mt, n, info), d1)"
    using 1(4) depth by (subst (asm) decodeValue.simps) (auto split: sum.splits)
  have d1: "data d1 = data d" "noCopy d1" using read_head_frame [OF head] 1(5) by simp_all
  note run = 1(4) [unfolded decodeValue.simps [of depth d] head]
  consider "mt = 2" | "mt = 3" | "mt = 4" | "mt = 5" | "mt = 6" | "mt \<notin> {2, 3, 4, 5, 6}" by blast
  then show ?case
  proof cases
    case 1
    then show ?thesis using run depth read_bytes_aliases [of d1 n v d'] d1 by simp
  next
    case 2
    with run depth obtain bs where bs: "readSlice d1 n = Inr (bs, d')" "v = String_Value bs"
      by (auto split: if_splits sum.splits)
    show ?thesis using read_slice_sound [OF bs(1)] bs(2) d1 by (auto simp: reads_def)
  next
    case 3
    with run depth obtain vs where vs: "\<not> unat n > length (data d1) - offset d1"
        "decodeItems (depth + 1) (unat n) [] d1 = Inr (vs, d')" "v = Slice_Value vs"
      by (auto split: if_splits sum.splits)
    have "data d' = data d1 \<and> noCopy d' \<and> list_all (aliases (data d1)) (slices (Slice_Value vs))"
      by (rule 1(1) [OF _ head refl refl refl]) (use depth 3 d1 vs in simp_all)
    then show ?thesis using d1 vs(3) by simp
  next
    case 4
    with run depth obtain es where es: "\<not> unat n > (length (data d1) - offset d1) div 2"
        "decodeEntries (depth + 1) (unat n) [] d1 = Inr (es, d')" "v = MapAny_Value es"
      by (auto split: if_splits sum.splits)
    have "data d' = data d1 \<and> noCopy d' \<and> list_all (aliases (data d1)) (slices (MapAny_Value es))"
      by (rule 1(2) [OF _ head refl refl refl]) (use depth 4 d1 es in simp_all)
    then show ?thesis using d1 es(3) by simp
  next
    case 5
    with run depth obtain c where c: "decodeValue (depth + 1) d1 = Inr (c, d')" "v = Tag_Value n c"
      by (auto split: if_splits sum.splits)
    have "data d' = data d1 \<and> noCopy d' \<and> list_all (aliases (data d1)) (slices c)"
      by (rule 1(3) [OF _ head refl refl refl]) (use depth 5 d1 c in simp_all)
    then show ?thesis using d1 c(2) by simp
  next
    case 6
    then show ?thesis using run depth d1 by (auto split: if_splits)
  qed
next
  case (3 depth n vs d)
  obtain item d1 where i: "decodeValue depth d = Inr (item, d1)"
      "decodeItems depth n (vs @ [item]) d1 = Inr (ws, d')"
    using 3(3) by (auto split: sum.splits)
  have "data d1 = data d" "noCopy d1" "list_all (aliases (data d)) (slices item)"
    using 3(1) [OF i(1) 3(4)] by auto
  then show ?case using 3(2) [OF i(1) refl i(2)] 3(5) by simp
next
  case (5 depth n es d)
  obtain k d1 v d2 where i: "decodeValue depth d = Inr (k, d1)" "map_key k" "k \<notin> set (map fst es)"
      "decodeValue depth d1 = Inr (v, d2)" "decodeEntries depth n (es @ [(k, v)]) d2 = Inr (fs, d')"
    using 5(4) by (auto split: sum.splits if_splits)
  have a: "data d1 = data d" "noCopy d1" "list_all (aliases (data d)) (slices k)"
    using 5(1) [OF i(1) 5(5)] by auto
  have "data d2 = data d" "noCopy d2" "list_all (aliases (data d)) (slices v)"
    using 5(2) [OF i(1) refl _ _ i(4)] i a by auto
  then show ?case using 5(3) [OF i(1) refl _ _ i(4) refl i(5)] i a 5(6) by simp
qed auto

lemma own_storage:
  "cbor_item depth e v \<Longrightarrow> list_all (\<lambda>s. fst s = None) (slices v)"
  "cbor_items depth e us \<Longrightarrow> list_all (\<lambda>s. fst s = None) (slices (Slice_Value us))"
  "cbor_entries depth e fs \<Longrightarrow> list_all (\<lambda>s. fst s = None) (slices (MapAny_Value fs))"
  by (induction rule: cbor_item_cbor_items_cbor_entries.inducts) auto

section \<open>Iteration order\<close>

lemma encodable_key_value: "encodable_key k \<Longrightarrow> encodable k 0"
  by (cases k) auto

lemma key_bytes_inj:
  assumes "encodable_key k" "encodable_key l" "key_bytes k = key_bytes l"
  shows "norm k = norm l"
proof -
  have "encodable k 0" "encodable l 0" using assms(1,2) encodable_key_value by blast+
  then show ?thesis using assms(3) cbor_reader.unambiguous
    by (elim encodable_Encode) (simp add: key_bytes_def)
qed

lemma sort_key_inj:
  fixes f :: "'a \<Rightarrow> 'b::linorder"
  assumes "mset ys = mset xs" "inj_on f (set xs)"
  shows "sort_key f ys = sort_key f xs"
proof -
  have "map f (sort_key f zs) = sort (map f zs)" for zs
    by (intro properties_for_sort [symmetric]) simp_all
  moreover have "sort (map f ys) = sort (map f xs)"
    using assms(1) by (intro properties_for_sort) simp_all
  ultimately have "map f (sort_key f ys) = map f (sort_key f xs)" by simp
  moreover have "set ys = set xs" using assms(1) by (rule mset_eq_setD)
  ultimately show ?thesis using assms(2) by (auto intro: map_inj_on)
qed

text \<open>The keys of an encodable map have different encodings.\<close>

lemma encodable_keys_apart:
  assumes "encodable (MapAny_Value es) depth"
  shows "case encodeEntries es of Inl e \<Rightarrow> True | Inr kvs \<Rightarrow> distinct (map fst kvs)"
proof (cases "encodeEntries es")
  case (Inr kvs)
  then have "list_all2 encodes_entry es kvs" by (simp add: encodeEntries_iff)
  then have keys: "map fst kvs = map key_bytes (map fst es)"
    by (induction rule: list_all2_induct) (simp_all add: encodes_entry_def key_bytes_def)
  have "\<And>k. k \<in> set (map fst es) \<Longrightarrow> encodable_key k" "distinct (map norm (map fst es))"
    using assms by (auto simp: encodable_list list_all_iff)
  moreover from this have "distinct (map fst es)" unfolding distinct_map by blast
  ultimately have "inj_on key_bytes (set (map fst es))" "distinct (map fst es)"
    using key_bytes_inj by (auto simp only: distinct_map [of norm] inj_on_def)
  then show ?thesis unfolding Inr sum.case keys by (simp only: distinct_map [of key_bytes])
qed simp

section \<open>Values without an encoding\<close>

primrec supported :: "go_value \<Rightarrow> bool" where
  "supported Nil_Value = True"
| "supported Undefined = True"
| "supported (Bool_Value b) = True"
| "supported (Int_Value v) = True"
| "supported (Int64_Value v) = True"
| "supported (Uint64_Value v) = True"
| "supported (Bytes_Value origin bs) = True"
| "supported (String_Value s) = True"
| "supported (Slice_Value vs) = list_all id (map supported vs)"
| "supported (MapInt64_Value es) = list_all snd (map (map_prod (\<lambda>k. k) supported) es)"
| "supported (MapAny_Value es) = list_all (\<lambda>(a, b). a \<and> b) (map (map_prod supported supported) es)"
| "supported (Tag_Value n v) = supported v"
| "supported (Unsupported t) = False"

lemma encode_supported:
  "isl (encodeValue b v) \<longleftrightarrow> \<not> supported v"
  "isl (encodeItems c vs) \<longleftrightarrow> \<not> list_all supported vs"
  "isl (encodeEntries es) \<longleftrightarrow> \<not> list_all (\<lambda>(k, v). supported k \<and> supported v) es"
proof (induction b v and c vs and es rule: encodeValue_encodeItems_encodeEntries.induct)
  case (9 b vs)
  then show ?case by (simp add: list_all_iff)
next
  case (10 b es)
  have "list_all (\<lambda>(k, v). supported k \<and> supported v) (int64_entries es) = supported (MapInt64_Value es)"
    by (induction es) auto
  then show ?case using 10 by (auto split: sum.splits)
next
  case (11 b es)
  have "list_all (\<lambda>(k, v). supported k \<and> supported v) es = supported (MapAny_Value es)"
    by (induction es) auto
  then show ?case using 11 by (auto split: sum.splits)
next
  case (15 b v vs)
  then show ?case by (cases "encodeValue b v") auto
next
  case (17 k v es)
  then show ?case
    by (cases "encodeValue [] k"; cases "encodeValue [] v"; cases "encodeEntries es") auto
qed auto

lemma encode_error_unique: "e = f" for e f :: encode_error
  by (cases e; cases f) simp

section \<open>Decoding\<close>

text \<open>C10: The decoder accepts exactly the encodings of the grammar and answers the value they
  encode: minimal or longer heads, but no indefinite lengths, floats, other simple values,
  integers beyond int64, invalid UTF-8, repeated or other map keys, nesting deeper than
  \<open>maxDepth\<close>, truncated or trailing data.\<close>

theorem cbor_decode_grammar: "Decode bs = Inr v \<longleftrightarrow> cbor_item 0 bs v"
  by (rule Decode_iff)

text \<open>C11: \<open>DecodeFirst\<close> splits off the one prefix of its input that \<open>Decode\<close> accepts, and
  answers what \<open>Decode\<close> answers for it together with the rest.\<close>

theorem cbor_decode_first: "DecodeFirst bs = Inr (v, tail) \<longleftrightarrow> (\<exists>e. Decode e = Inr v \<and> bs = e @ tail)"
  by (simp add: DecodeFirst_iff Decode_iff)

text \<open>C12: Data after a whole item never changes how it is read: the answer is that there is
  trailing data, so no encoding is a proper prefix of another.\<close>

theorem cbor_trailing_data:
  assumes "Decode e = Inr v" "tail \<noteq> []"
  shows "Decode (e @ tail) = Inl TrailingData"
proof -
  have "cbor_item 0 e v" using assms(1) by (simp add: Decode_iff)
  from decode_complete(1) [OF this, of "start (e @ tail)" tail]
  have "decodeValue 0 (start (e @ tail)) = Inr (v, start (e @ tail)\<lparr>offset := length e\<rparr>)" by simp
  then show ?thesis using assms(2) by (simp add: Decode_def decode_def start_def)
qed

lemma cbor_trailing_data_witness: "Decode ([0x82, 0x01, 0x20] @ [0x00]) = Inl TrailingData"
proof -
  have "Decode [0x82, 0x01, 0x20] = Inr (Slice_Value [Int64_Value 1, Int64_Value (- 1)])" by code_simp
  then show ?thesis by (rule cbor_trailing_data) simp
qed

text \<open>C13: \<open>DecodeNoCopy\<close> answers what \<open>Decode\<close> answers, with the same errors, except that its
  byte strings alias the input at the offsets they name; \<open>Decode\<close>'s own none.\<close>

theorem cbor_no_copy:
  "map_sum id erase (DecodeNoCopy bs) = Decode bs \<and>
   list_all (aliases bs) (case DecodeNoCopy bs of Inl e \<Rightarrow> [] | Inr v \<Rightarrow> slices v) \<and>
   list_all (\<lambda>s. fst s = None) (case Decode bs of Inl e \<Rightarrow> [] | Inr v \<Rightarrow> slices v)"
proof (intro conjI)
  let ?d = "\<lparr>data = bs, offset = 0, noCopy = True\<rparr>"
  have c: "copying ?d = start bs" by (simp add: copying_def start_def)
  have "decodeValue 0 (start bs) = map_sum id (map_prod erase copying) (decodeValue 0 ?d)"
    using decode_copying(1) [of 0 ?d] by (simp add: c)
  then show "map_sum id erase (DecodeNoCopy bs) = Decode bs"
    unfolding DecodeNoCopy_def Decode_def decode_def start_def [symmetric]
    by (auto split: sum.split)
  show "list_all (aliases bs) (case DecodeNoCopy bs of Inl e \<Rightarrow> [] | Inr v \<Rightarrow> slices v)"
    using decode_aliases(1) [of 0 ?d]
    by (auto simp: DecodeNoCopy_def decode_def split: sum.splits if_splits)
  show "list_all (\<lambda>s. fst s = None) (case Decode bs of Inl e \<Rightarrow> [] | Inr v \<Rightarrow> slices v)"
    using own_storage(1) by (auto simp: Decode_iff split: sum.split)
qed

section \<open>Encoding\<close>

text \<open>C14: Every encodable value is encoded, and decoding the encoding answers the value, its
  integers as int64 and its map entries in the order of their encoded keys.\<close>

theorem cbor_roundtrip:
  assumes "encodable v 0"
  shows "\<exists>e. Encode v = Inr e \<and> Decode e = Inr (norm v)"
  using encodable_Encode [OF assms] by (metis Decode_iff)

lemma cbor_roundtrip_witness:
  "\<exists>e. Encode (MapAny_Value [(String_Value [0x62], Nil_Value), (Int_Value 7, Slice_Value [Bool_Value True])]) = Inr e \<and>
     Decode e = Inr (MapAny_Value [(Int64_Value 7, Slice_Value [Bool_Value True]), (String_Value [0x62], Nil_Value)])"
proof -
  let ?v = "MapAny_Value [(String_Value [0x62], Nil_Value), (Int_Value 7, Slice_Value [Bool_Value True])]"
  have "utf8_valid [0x62]" by (simp add: utf8_valid.simps decode_rune_def decode_nats_def RuneError_def)
  then have "encodable ?v 0" by (simp add: encodable_list maxDepth_def)
  moreover have "norm ?v = MapAny_Value [(Int64_Value 7, Slice_Value [Bool_Value True]), (String_Value [0x62], Nil_Value)]"
    by (simp add: key_bytes_def Encode_def encodeInt64_def nonnegative_iff writeTypeAndArgument_def)
  ultimately show ?thesis using cbor_roundtrip [of ?v] by simp
qed

text \<open>C15: What the decoder accepts is encodable, so it can be encoded again and read back.\<close>

theorem cbor_reencode:
  assumes "Decode bs = Inr v"
  shows "encodable v 0 \<and> (\<exists>e. Encode v = Inr e \<and> Decode e = Inr (norm v))"
proof -
  have v: "encodable v 0" using item_encodable(1) assms by (simp add: Decode_iff)
  from encodable_Encode [OF this] obtain e where "Encode v = Inr e" "cbor_item 0 e (norm v)" .
  with v show ?thesis by (auto simp: Decode_iff)
qed

lemma cbor_reencode_witness: "\<exists>e. Encode (Tag_Value 24 (Int64_Value 9)) = Inr e \<and> Decode e = Inr (Tag_Value 24 (Int64_Value 9))"
proof -
  have "Decode [0xD8, 0x18, 0x18, 0x09] = Inr (Tag_Value 24 (Int64_Value 9))" by code_simp
  from cbor_reencode [OF this] show ?thesis by simp
qed

text \<open>C16: Two encodable values have the same encoding exactly when they are the same CBOR value.\<close>

theorem cbor_deterministic:
  assumes "encodable v 0" "encodable w 0"
  shows "Encode v = Encode w \<longleftrightarrow> norm v = norm w"
proof
  assume "Encode v = Encode w"
  then show "norm v = norm w"
    using encodable_Encode [OF assms(1)] encodable_Encode [OF assms(2)] cbor_reader.unambiguous by (metis sum.inject(2))
next
  assume "norm v = norm w"
  then show "Encode v = Encode w"
    using encode_norm(1) [OF assms(1), of "[]"] encode_norm(1) [OF assms(2), of "[]"] by (simp add: Encode_def)
qed

lemma cbor_deterministic_witness:
  "Encode (MapAny_Value [(Int_Value 2, Nil_Value), (Uint64_Value 1, Undefined)]) =
   Encode (MapInt64_Value [(1, Undefined), (2, Nil_Value)])"
proof -
  let ?v = "MapAny_Value [(Int_Value 2, Nil_Value), (Uint64_Value 1, Undefined)]"
  let ?w = "MapInt64_Value [(1, Undefined), (2, Nil_Value)]"
  have "encodable ?v 0" "encodable ?w 0" by (simp_all add: encodable_list maxDepth_def MaxInt64_def)
  moreover have "norm ?v = norm ?w" by code_simp
  ultimately show ?thesis using cbor_deterministic [of ?v ?w] by simp
qed

text \<open>C17: The order in which Go iterates over a map does not change its encoding, or the kind of its error, when no
  two of the keys have the same encoding. An \<open>int\<close> and an \<open>int64\<close> key of the same number have; the
  order of their two entries is left to the iteration, and such maps are excluded.\<close>

theorem cbor_iteration_order:
  assumes "case encodeEntries es of Inl e \<Rightarrow> True | Inr kvs \<Rightarrow> distinct (map fst kvs)" "mset fs = mset es"
  shows "Encode (MapAny_Value fs) = Encode (MapAny_Value es)"
proof -
  have same: "set fs = set es" using assms(2) by (rule mset_eq_setD)
  consider (error) "isl (encodeEntries es)" | (entries) kvs where "encodeEntries es = Inr kvs"
    by (cases "encodeEntries es") auto
  then show ?thesis
  proof cases
    case error
    then have "isl (encodeEntries fs)" using same by (simp add: encode_supported list_all_iff)
    with error show ?thesis by (cases "encodeEntries es"; cases "encodeEntries fs") (simp_all add: Encode_def encode_error_unique)
  next
    case entries
    then obtain kvs' where kvs': "encodeEntries fs = Inr kvs'" "mset kvs' = mset kvs"
      using list_all2_reorder_left_invariance [OF _ assms(2)] unfolding encodeEntries_iff by metis
    have "inj_on fst (set kvs)" using assms(1) entries by (simp add: distinct_map)
    then have "sort_entries kvs' = sort_entries kvs" using sort_key_inj [OF kvs'(2)] by (simp add: sort_entries_def)
    moreover have "length kvs' = length kvs" using kvs'(2) by (rule mset_eq_length)
    ultimately show ?thesis using entries kvs'(1) by (simp add: Encode_def write_entries_def)
  qed
qed

lemma cbor_iteration_order_witness:
  "Encode (MapAny_Value [(Int_Value 2, Nil_Value), (Uint64_Value 0x8000000000000000, Undefined)]) =
   Encode (MapAny_Value [(Uint64_Value 0x8000000000000000, Undefined), (Int_Value 2, Nil_Value)])"
proof (rule cbor_iteration_order)
  show "case encodeEntries [(Uint64_Value 0x8000000000000000, Undefined), (Int_Value 2, Nil_Value)] of
      Inl e \<Rightarrow> True | Inr kvs \<Rightarrow> distinct (map fst kvs)" by code_simp
qed simp

text \<open>C18: Encoding fails exactly for values with a part of a type the package does not know.\<close>

theorem cbor_encode_error: "Encode v = Inl ErrUnsupportedValue \<longleftrightarrow> \<not> supported v"
proof -
  have "Encode v = Inl ErrUnsupportedValue \<longleftrightarrow> isl (Encode v)"
    by (cases "Encode v") (auto, metis encode_error.exhaust)
  then show ?thesis by (simp add: Encode_def encode_supported(1))
qed

text \<open>The encoder writes values its own decoder refuses: a map whose keys are the same number
  as an \<open>int\<close> and as an \<open>int64\<close> gets the key twice, and a \<open>uint64\<close> above the int64 range is
  written as an integer the decoder does not support.\<close>

lemma cbor_encoder_exceeds_decoder:
  "Encode (MapAny_Value [(Int_Value 1, Nil_Value), (Int64_Value 1, Nil_Value)]) = Inr [0xA2, 0x01, 0xF6, 0x01, 0xF6] \<and>
   Decode [0xA2, 0x01, 0xF6, 0x01, 0xF6] = Inl (DuplicateMapKey (Int64_Value 1)) \<and>
   Encode (Uint64_Value 0x8000000000000000) = Inr [0x1B, 0x80, 0, 0, 0, 0, 0, 0, 0] \<and>
   Decode [0x1B, 0x80, 0, 0, 0, 0, 0, 0, 0] = Inl (UnsupportedInteger 0x8000000000000000)"
  by (intro conjI; code_simp)

end
