(* ===== verification/Go_Strings.thy ===== *)
theory Go_Strings
  imports Utf8
begin

text \<open>
  What the string-processing packages use of Go's language and \<open>strings\<close> package: byte literals
  (\<open>ch CHR ''T''\<close> is the Go byte \<open>'T'\<close>), string literals, ASCII classes, prefixes and cuts.
  A Go string is the list of its bytes; a value of type \<open>any\<close> that a format function is given is
  a string or something else.
\<close>

abbreviation ch :: "char \<Rightarrow> byte" where "ch c \<equiv> of_char c"

abbreviation str :: "string \<Rightarrow> bytes" where "str s \<equiv> map of_char s"

datatype any_value = String_Any bytes | Other_Any

definition digit_byte :: "byte \<Rightarrow> bool" where
  "digit_byte b \<longleftrightarrow> ch CHR ''0'' \<le> b \<and> b \<le> ch CHR ''9''"

definition lower_byte :: "byte \<Rightarrow> bool" where
  "lower_byte b \<longleftrightarrow> ch CHR ''a'' \<le> b \<and> b \<le> ch CHR ''z''"

definition upper_byte :: "byte \<Rightarrow> bool" where
  "upper_byte b \<longleftrightarrow> ch CHR ''A'' \<le> b \<and> b \<le> ch CHR ''Z''"

text \<open>\<open>strings.HasPrefix\<close>, \<open>strings.HasSuffix\<close>, \<open>strings.Cut\<close> at a byte and \<open>strings.LastIndexByte\<close>.\<close>

definition has_prefix :: "bytes \<Rightarrow> bytes \<Rightarrow> bool" where
  "has_prefix s p \<longleftrightarrow> take (length p) s = p"

definition has_suffix :: "bytes \<Rightarrow> bytes \<Rightarrow> bool" where
  "has_suffix s p \<longleftrightarrow> length p \<le> length s \<and> drop (length s - length p) s = p"

fun cut_byte :: "bytes \<Rightarrow> byte \<Rightarrow> (bytes \<times> bytes) option" where
  "cut_byte [] b = None"
| "cut_byte (c # s) b =
     (if c = b then Some ([], s)
      else case cut_byte s b of None \<Rightarrow> None | Some (before, after) \<Rightarrow> Some (c # before, after))"

fun split_byte :: "bytes \<Rightarrow> byte \<Rightarrow> bytes list" where
  "split_byte [] b = [[]]"
| "split_byte (c # s) b =
     (if c = b then [] # split_byte s b
      else case split_byte s b of [] \<Rightarrow> [[c]] | p # ps \<Rightarrow> (c # p) # ps)"

definition ascii_lower :: "byte \<Rightarrow> byte" where
  "ascii_lower b = (if upper_byte b then b + 32 else b)"

text \<open>The value of a decimal digit.\<close>

definition digit_value :: "byte \<Rightarrow> nat" where
  "digit_value b = unat (b - ch CHR ''0'')"

lemma cut_byte_Some: "cut_byte s b = Some (before, after) \<longleftrightarrow> s = before @ b # after \<and> b \<notin> set before"
proof (induction s arbitrary: before)
  case (Cons c s)
  show ?case
  proof (cases "c = b")
    case True
    then show ?thesis by (cases before) auto
  next
    case False
    then have "cut_byte (c # s) b = Some (before, after) \<longleftrightarrow>
        (\<exists>p. cut_byte s b = Some (p, after) \<and> before = c # p)"
      by (auto split: option.splits)
    also have "\<dots> \<longleftrightarrow> c # s = before @ b # after \<and> b \<notin> set before"
      unfolding Cons.IH using False by (cases before) auto
    finally show ?thesis .
  qed
qed simp

lemma cut_byte_None: "cut_byte s b = None \<longleftrightarrow> b \<notin> set s"
  by (induction s) (auto split: option.splits)

lemma digit_value_less: "digit_byte b \<Longrightarrow> digit_value b < 10"
  by (simp add: digit_byte_def digit_value_def word_le_nat_alt unat_sub) arith

lemma digit_byte_cases:
  "digit_byte b \<longleftrightarrow> b \<in> {48, 49, 50, 51, 52, 53, 54, 55, 56, 57}"
proof
  assume "digit_byte b"
  then have "48 \<le> unat b" "unat b \<le> 57" by (simp_all add: digit_byte_def word_le_nat_alt)
  then have "unat b \<in> {48, 49, 50, 51, 52, 53, 54, 55, 56, 57}" by simp arith
  then show "b \<in> {48, 49, 50, 51, 52, 53, 54, 55, 56, 57}"
    by (auto simp: word_unat_eq_iff)
qed (auto simp: digit_byte_def)

text \<open>Dropping a run of digits.\<close>

fun drop_digits :: "bytes \<Rightarrow> bytes" where
  "drop_digits [] = []"
| "drop_digits (c # s) = (if digit_byte c then drop_digits s else c # s)"

definition digits1 :: "bytes \<Rightarrow> bool" where
  "digits1 ds \<longleftrightarrow> ds \<noteq> [] \<and> list_all digit_byte ds"

lemma drop_digits_append [simp]:
  "list_all digit_byte ds \<Longrightarrow> drop_digits (ds @ s) = drop_digits s"
  by (induction ds) auto

lemma drop_digits_split: "\<exists>ds. list_all digit_byte ds \<and> s = ds @ drop_digits s"
proof (induction s)
  case (Cons c s)
  then obtain ds where "list_all digit_byte ds" "s = ds @ drop_digits s" by blast
  then show ?case by (cases "digit_byte c") (auto intro: exI [of _ "c # ds"])
qed simp

lemma drop_digits_stop: "drop_digits s = c # t \<Longrightarrow> \<not> digit_byte c"
  by (induction s) (auto split: if_splits)

end
