(* ===== verification/Format_Time.thy ===== *)
theory Format_Time
  imports Go_Strings
begin

text \<open>
  The date, time and duration formats of \<open>src/pkg/json/schema/format/time.go\<close>, with the calendar
  of Go's \<open>time.Date\<close> (\<open>time_Date\<close>, which carries days beyond the month's end into the next
  month). A format function answers \<open>None\<close> where the code answers a nil error, and the string
  the error message names otherwise. Go's \<open>int\<close> is a natural number here: every number read has
  at most four digits.
\<close>

section \<open>Numbers and dates\<close>

fun atoi_loop :: "nat \<Rightarrow> bytes \<Rightarrow> nat option" where
  "atoi_loop n [] = Some n"
| "atoi_loop n (c # s) =
     (if c < ch CHR ''0'' \<or> c > ch CHR ''9'' then None else atoi_loop (n * 10 + digit_value c) s)"

definition atoiDigits :: "bytes \<Rightarrow> nat option" where
  "atoiDigits s = (if length s = 0 then None else atoi_loop 0 s)"

definition dateLen :: nat where "dateLen = 10"

definition leap_year :: "nat \<Rightarrow> bool" where
  "leap_year y \<longleftrightarrow> y mod 4 = 0 \<and> (y mod 100 \<noteq> 0 \<or> y mod 400 = 0)"

definition month_days :: "nat \<Rightarrow> nat \<Rightarrow> nat" where
  "month_days y m =
     (if m = 2 then (if leap_year y then 29 else 28)
      else if m \<in> {4, 6, 9, 11} then 30 else 31)"

text \<open>\<open>time.Date(year, month, mday, ...).Date()\<close> for a month from 1 to 12 and a day from 1.\<close>

function time_Date :: "nat \<Rightarrow> nat \<Rightarrow> nat \<Rightarrow> nat \<times> nat \<times> nat" where
  "time_Date year month mday =
     (if mday \<le> month_days year month then (year, month, mday)
      else if month = 12 then time_Date (year + 1) 1 (mday - month_days year month)
      else time_Date year (month + 1) (mday - month_days year month))"
  by pat_completeness auto
termination
  by (relation "measure (\<lambda>(y, m, d). d)") (auto simp: month_days_def)

declare time_Date.simps [simp del]

definition isValidDate :: "bytes \<Rightarrow> bool" where
  "isValidDate s =
     (if length s \<noteq> dateLen then False
      else if s ! 4 \<noteq> ch CHR ''-'' \<or> s ! 7 \<noteq> ch CHR ''-'' then False
      else
        case atoiDigits (take 4 s) of
          None \<Rightarrow> False
        | Some year \<Rightarrow>
            case atoiDigits (take 2 (drop 5 s)) of
              None \<Rightarrow> False
            | Some month \<Rightarrow>
                case atoiDigits (drop 8 s) of
                  None \<Rightarrow> False
                | Some mday \<Rightarrow>
                    if month < 1 \<or> month > 12 \<or> mday < 1 \<or> mday > 31 then False
                    else
                      let (dy, dm, dd) = time_Date year month mday
                      in \<not> (dy \<noteq> year \<or> dm \<noteq> month \<or> dd \<noteq> mday))"

definition dateFormat :: "any_value \<Rightarrow> bytes option" where
  "dateFormat inst =
     (case inst of Other_Any \<Rightarrow> None
      | String_Any s \<Rightarrow> if \<not> isValidDate s then Some s else None)"

section \<open>Times\<close>

text \<open>The zone offset that follows a sign, and the leap second it allows.\<close>

definition isValidOffset :: "nat \<Rightarrow> nat \<Rightarrow> nat \<Rightarrow> bool \<Rightarrow> bytes \<Rightarrow> bool" where
  "isValidOffset hour minute second negOffset s =
     (if length s \<noteq> 5 then False
      else if s ! 2 \<noteq> ch CHR '':'' then False
      else
        case atoiDigits (take 2 s) of
          None \<Rightarrow> False
        | Some hourOffset \<Rightarrow>
            case atoiDigits (drop 3 s) of
              None \<Rightarrow> False
            | Some minuteOffset \<Rightarrow>
                if hourOffset > 23 \<or> minuteOffset > 59 then False
                else if second = 60 then
                  let hourOffset' = (if \<not> negOffset then - int hourOffset else int hourOffset);
                      minuteOffset' = (if \<not> negOffset then - int minuteOffset else int minuteOffset)
                  in \<not> ((int hour + hourOffset' \<noteq> 23 \<and> int hour + hourOffset' \<noteq> 0) \<or>
                        (int minute + minuteOffset' \<noteq> 59 \<and> int minute + minuteOffset' \<noteq> -1))
                else True)"

text \<open>The zone, the last part of a time.\<close>

definition valid_zone :: "nat \<Rightarrow> nat \<Rightarrow> nat \<Rightarrow> bytes \<Rightarrow> bool" where
  "valid_zone hour minute second s =
     (if length s = 0 then False
      else if s ! 0 = ch CHR ''Z'' \<or> s ! 0 = ch CHR ''z'' then
        if second = 60 \<and> (hour \<noteq> 23 \<or> minute \<noteq> 59) then False else length s = 1
      else if s ! 0 = ch CHR ''+'' then isValidOffset hour minute second False (drop 1 s)
      else if s ! 0 = ch CHR ''-'' then isValidOffset hour minute second True (drop 1 s)
      else False)"

text \<open>What follows the seconds: a fraction if there is one, and the zone.\<close>

definition valid_rest :: "nat \<Rightarrow> nat \<Rightarrow> nat \<Rightarrow> bytes \<Rightarrow> bool" where
  "valid_rest hour minute second s =
     (let fraction = (length s > 0 \<and> s ! 0 = ch CHR ''.'')
      in if fraction \<and>
            (length (drop 1 s) = 0 \<or> drop 1 s ! 0 < ch CHR ''0'' \<or> drop 1 s ! 0 > ch CHR ''9'')
         then False
         else valid_zone hour minute second (if fraction then drop_digits (drop 1 s) else s))"

definition isValidTime :: "bytes \<Rightarrow> bool" where
  "isValidTime s =
     (if length s < 8 then False
      else if s ! 2 \<noteq> ch CHR '':'' \<or> s ! 5 \<noteq> ch CHR '':'' then False
      else
        (case atoiDigits (take 2 s) of
           None \<Rightarrow> False
         | Some hour \<Rightarrow>
             (case atoiDigits (take 2 (drop 3 s)) of
                None \<Rightarrow> False
              | Some minute \<Rightarrow>
                  (case atoiDigits (take 2 (drop 6 s)) of
                     None \<Rightarrow> False
                   | Some second \<Rightarrow>
                       if hour > 23 \<or> minute > 59 \<or> second > 60 then False
                       else valid_rest hour minute second (drop 8 s)))))"

definition timeFormat :: "any_value \<Rightarrow> bytes option" where
  "timeFormat inst =
     (case inst of Other_Any \<Rightarrow> None
      | String_Any s \<Rightarrow> if \<not> isValidTime s then Some s else None)"

definition isValidDateTime :: "bytes \<Rightarrow> bool" where
  "isValidDateTime s =
     (if length s < dateLen then False
      else if \<not> isValidDate (take dateLen s) then False
      else
        let s = drop dateLen s
        in if length s = 0 \<or> s ! 0 \<noteq> ch CHR ''T'' \<and> s ! 0 \<noteq> ch CHR ''t'' then False
           else isValidTime (drop 1 s))"

definition dateTimeFormat :: "any_value \<Rightarrow> bytes option" where
  "dateTimeFormat inst =
     (case inst of Other_Any \<Rightarrow> None
      | String_Any s \<Rightarrow> if \<not> isValidDateTime s then Some s else None)"

section \<open>Durations\<close>

definition isChar :: "bytes \<Rightarrow> byte \<Rightarrow> byte \<Rightarrow> bool" where
  "isChar s ch1 ch2 = (if length s = 0 then False else s ! 0 = ch1 \<or> s ! 0 = ch2)"

definition isDigit :: "bytes \<Rightarrow> bool" where
  "isDigit s = (if length s = 0 then False else s ! 0 \<ge> ch CHR ''0'' \<and> s ! 0 \<le> ch CHR ''9'')"

definition skipDigits :: "bytes \<Rightarrow> bytes option" where
  "skipDigits s = (if \<not> isDigit s then None else Some (drop_digits (drop 1 s)))"

definition validDurTime :: "bytes \<Rightarrow> bool" where
  "validDurTime s =
     (if \<not> isChar s (ch CHR ''T'') (ch CHR ''t'') then False
      else
        case skipDigits (drop 1 s) of
          None \<Rightarrow> False
        | Some s \<Rightarrow>
            let minutes = (\<lambda>s.
                  if isChar s (ch CHR ''M'') (ch CHR ''m'') then
                    if length (drop 1 s) = 0 then True
                    else
                      case skipDigits (drop 1 s) of
                        None \<Rightarrow> False
                      | Some s \<Rightarrow> length s = 1 \<and> isChar s (ch CHR ''S'') (ch CHR ''s'')
                  else length s = 1 \<and> isChar s (ch CHR ''S'') (ch CHR ''s''))
            in if isChar s (ch CHR ''H'') (ch CHR ''h'') then
                 if length (drop 1 s) = 0 then True
                 else
                   case skipDigits (drop 1 s) of
                     None \<Rightarrow> False
                   | Some s \<Rightarrow>
                       if \<not> isChar s (ch CHR ''M'') (ch CHR ''m'') then False else minutes s
               else minutes s)"

definition validDurDays :: "bytes \<Rightarrow> bool" where
  "validDurDays s =
     (if \<not> isChar s (ch CHR ''D'') (ch CHR ''d'') then False
      else if length (drop 1 s) = 0 then True
      else validDurTime (drop 1 s))"

definition validDurMonths :: "bytes \<Rightarrow> bool" where
  "validDurMonths s =
     (if isChar s (ch CHR ''M'') (ch CHR ''m'') then
        if length (drop 1 s) = 0 then True
        else if isChar (drop 1 s) (ch CHR ''T'') (ch CHR ''t'') then validDurTime (drop 1 s)
        else
          case skipDigits (drop 1 s) of
            None \<Rightarrow> False
          | Some s \<Rightarrow> if \<not> isChar s (ch CHR ''D'') (ch CHR ''d'') then False else validDurDays s
      else validDurDays s)"

definition validDurDateOrWeek :: "bytes \<Rightarrow> bool" where
  "validDurDateOrWeek s =
     (case skipDigits s of
        None \<Rightarrow> False
      | Some s \<Rightarrow>
          if isChar s (ch CHR ''W'') (ch CHR ''w'') then length s = 1
          else if isChar s (ch CHR ''Y'') (ch CHR ''y'') then
            if length (drop 1 s) = 0 then True
            else if isChar (drop 1 s) (ch CHR ''T'') (ch CHR ''t'') then validDurTime (drop 1 s)
            else
              case skipDigits (drop 1 s) of
                None \<Rightarrow> False
              | Some s \<Rightarrow>
                  if \<not> isChar s (ch CHR ''M'') (ch CHR ''m'') then False else validDurMonths s
          else validDurMonths s)"

definition isValidDuration :: "bytes \<Rightarrow> bool" where
  "isValidDuration s =
     (if \<not> isChar s (ch CHR ''P'') (ch CHR ''p'') then False
      else if isChar (drop 1 s) (ch CHR ''T'') (ch CHR ''t'') then validDurTime (drop 1 s)
      else validDurDateOrWeek (drop 1 s))"

definition durationFormat :: "any_value \<Rightarrow> bytes option" where
  "durationFormat inst =
     (case inst of Other_Any \<Rightarrow> None
      | String_Any s \<Rightarrow> if \<not> isValidDuration s then Some s else None)"

end
