(* ===== verification/Format_Time_Spec.thy ===== *)
theory Format_Time_Spec
  imports Format_Time
begin

text \<open>
  The grammars of RFC 3339 that \<open>time.go\<close> quotes, as relations on byte strings, and the proof
  that the checks accept them: full dates of the calendar, full times with their zone offset, and
  the durations of appendix A.
\<close>

section \<open>Decimal numbers\<close>

definition decimal :: "bytes \<Rightarrow> nat" where
  "decimal ds = foldl (\<lambda>n c. n * 10 + digit_value c) 0 ds"

lemma atoi_loop_eq:
  "atoi_loop n s = (if list_all digit_byte s then Some (foldl (\<lambda>n c. n * 10 + digit_value c) n s) else None)"
  by (induction n s rule: atoi_loop.induct) (auto simp: digit_byte_def not_le)

lemma atoiDigits_eq: "atoiDigits s = (if digits1 s then Some (decimal s) else None)"
  by (simp add: atoiDigits_def atoi_loop_eq digits1_def decimal_def)

definition two_digits :: "bytes \<Rightarrow> bool" where
  "two_digits ds \<longleftrightarrow> length ds = 2 \<and> list_all digit_byte ds"

section \<open>Dates\<close>

definition full_date :: "bytes \<Rightarrow> nat \<Rightarrow> nat \<Rightarrow> nat \<Rightarrow> bool" where
  "full_date s year month mday \<longleftrightarrow>
     (\<exists>ys ms ds. s = ys @ [ch CHR ''-''] @ ms @ [ch CHR ''-''] @ ds \<and> length ys = 4 \<and> list_all digit_byte ys \<and>
        two_digits ms \<and> two_digits ds \<and> year = decimal ys \<and> month = decimal ms \<and> mday = decimal ds \<and>
        1 \<le> month \<and> month \<le> 12 \<and> 1 \<le> mday \<and> mday \<le> month_days year month)"

lemma month_days_pos: "0 < month_days y m" "month_days y m \<le> 31"
  by (auto simp: month_days_def)

lemma time_Date_le: "time_Date y m d = (y', m', d') \<Longrightarrow> d' \<le> d"
proof (induction y m d rule: time_Date.induct)
  case (1 y m d)
  note run = 1(3) [unfolded time_Date.simps [of y m d]]
  consider "d \<le> month_days y m" | "\<not> d \<le> month_days y m" "m = 12" | "\<not> d \<le> month_days y m" "m \<noteq> 12"
    by blast
  then show ?case
  proof cases
    case 1
    then show ?thesis using run by simp
  next
    case 2
    with run have "d' \<le> d - month_days y m" by (intro "1.IH"(1)) simp_all
    then show ?thesis by simp
  next
    case 3
    with run have "d' \<le> d - month_days y m" by (intro "1.IH"(2)) simp_all
    then show ?thesis by simp
  qed
qed

lemma time_Date_same: "time_Date y m d = (y, m, d) \<longleftrightarrow> d \<le> month_days y m"
proof
  assume r: "time_Date y m d = (y, m, d)"
  show "d \<le> month_days y m"
  proof (rule ccontr)
    assume "\<not> d \<le> month_days y m"
    with r obtain y' m' where "time_Date y' m' (d - month_days y m) = (y, m, d)"
      by (subst (asm) time_Date.simps) (auto split: if_splits)
    from time_Date_le [OF this] show False using month_days_pos [of y m] \<open>\<not> d \<le> month_days y m\<close> by simp
  qed
qed (simp add: time_Date.simps)

lemma isValidDate_full_date: "isValidDate s \<longleftrightarrow> (\<exists>year month mday. full_date s year month mday)"
proof
  assume v: "isValidDate s"
  let ?ys = "take 4 s" let ?ms = "take 2 (drop 5 s)" let ?ds = "drop 8 s"
  have len: "length s = 10" and dash: "s ! 4 = ch CHR ''-''" "s ! 7 = ch CHR ''-''"
    using v by (auto simp: isValidDate_def dateLen_def split: if_splits)
  have s: "s = ?ys @ [s ! 4] @ ?ms @ [s ! 7] @ ?ds"
  proof (rule nth_equalityI)
    show "length s = length (?ys @ [s ! 4] @ ?ms @ [s ! 7] @ ?ds)" using len by simp
    show "s ! i = (?ys @ [s ! 4] @ ?ms @ [s ! 7] @ ?ds) ! i" if "i < length s" for i
    proof -
      have "i < 4 \<or> i = 4 \<or> i = 5 \<or> i = 6 \<or> i = 7 \<or> i = 8 \<or> i = 9" using that len by linarith
      then show ?thesis using len by (elim disjE) (simp_all add: nth_append)
    qed
  qed
  have d: "digits1 ?ys" "digits1 ?ms" "digits1 ?ds"
    and r: "1 \<le> decimal ?ms" "decimal ?ms \<le> 12" "1 \<le> decimal ?ds"
      "decimal ?ds \<le> month_days (decimal ?ys) (decimal ?ms)"
    using v by (auto simp: isValidDate_def atoiDigits_eq time_Date_same [symmetric] not_less split: if_splits)
  have "full_date s (decimal ?ys) (decimal ?ms) (decimal ?ds)"
    unfolding full_date_def using s dash d r len
    by (intro exI [of _ ?ys] exI [of _ ?ms] exI [of _ ?ds]) (simp add: two_digits_def digits1_def)
  then show "\<exists>year month mday. full_date s year month mday" by blast
next
  assume "\<exists>year month mday. full_date s year month mday"
  then obtain ys ms ds where s: "s = ys @ [ch CHR ''-''] @ ms @ [ch CHR ''-''] @ ds" "length ys = 4"
      "list_all digit_byte ys" "two_digits ms" "two_digits ds"
      "1 \<le> decimal ms" "decimal ms \<le> 12" "1 \<le> decimal ds" "decimal ds \<le> month_days (decimal ys) (decimal ms)"
    by (auto simp: full_date_def)
  have "length ms = 2" "length ds = 2" using s by (simp_all add: two_digits_def)
  then have "length s = 10" "s ! 4 = ch CHR ''-''" "s ! 7 = ch CHR ''-''" "take 4 s = ys" "take 2 (drop 5 s) = ms"
      "drop 8 s = ds"
    using s(1,2) by (simp_all add: nth_append)
  moreover have "digits1 ys" "digits1 ms" "digits1 ds" using s by (auto simp: digits1_def two_digits_def)
  moreover have "decimal ds \<le> 31" using s(9) month_days_pos(2) order_trans by blast
  ultimately show "isValidDate s" using s(6-9)
    by (simp add: isValidDate_def dateLen_def atoiDigits_eq time_Date_same [THEN iffD2])
qed

section \<open>Times\<close>

text \<open>The zone: UTC, or an offset as a signed number of hours and a signed number of minutes, the
  amounts local time is ahead of UTC.\<close>

definition zone :: "bytes \<Rightarrow> (int \<times> int) option \<Rightarrow> bool" where
  "zone s z \<longleftrightarrow>
     (case z of
        None \<Rightarrow> s = [ch CHR ''Z''] \<or> s = [ch CHR ''z'']
      | Some (h, m) \<Rightarrow>
          \<exists>sign hs ms. s = [sign] @ hs @ [ch CHR '':''] @ ms \<and> two_digits hs \<and> two_digits ms \<and>
            decimal hs \<le> 23 \<and> decimal ms \<le> 59 \<and>
            (sign = ch CHR ''+'' \<and> h = int (decimal hs) \<and> m = int (decimal ms) \<or>
             sign = ch CHR ''-'' \<and> h = - int (decimal hs) \<and> m = - int (decimal ms)))"

definition fraction :: "bytes \<Rightarrow> bool" where
  "fraction s \<longleftrightarrow> s = [] \<or> (\<exists>ds. s = ch CHR ''.'' # ds \<and> digits1 ds)"

definition full_time :: "bytes \<Rightarrow> nat \<Rightarrow> nat \<Rightarrow> nat \<Rightarrow> (int \<times> int) option \<Rightarrow> bool" where
  "full_time s hour minute second z \<longleftrightarrow>
     (\<exists>hs ms ss frac zs. s = hs @ [ch CHR '':''] @ ms @ [ch CHR '':''] @ ss @ frac @ zs \<and>
        two_digits hs \<and> two_digits ms \<and> two_digits ss \<and> fraction frac \<and> zone zs z \<and>
        hour = decimal hs \<and> minute = decimal ms \<and> second = decimal ss \<and>
        hour \<le> 23 \<and> minute \<le> 59 \<and> second \<le> 60)"

text \<open>The leap seconds the code admits: with an offset it looks at the hour and at the minute
  separately.\<close>

definition leap_second_checked :: "nat \<Rightarrow> nat \<Rightarrow> (int \<times> int) option \<Rightarrow> bool" where
  "leap_second_checked hour minute z \<longleftrightarrow>
     (case z of
        None \<Rightarrow> hour = 23 \<and> minute = 59
      | Some (zh, zm) \<Rightarrow> int hour - zh \<in> {23, 0} \<and> int minute - zm \<in> {59, - 1})"

lemma two_digits_digits1: "two_digits ds \<Longrightarrow> digits1 ds"
  by (auto simp: two_digits_def digits1_def)

lemma isValidOffset_iff:
  assumes "sign = ch CHR ''+'' \<and> \<not> neg \<or> sign = ch CHR ''-'' \<and> neg"
  shows "isValidOffset hour minute second neg s \<longleftrightarrow>
    (\<exists>z. zone (sign # s) (Some z) \<and> (second = 60 \<longrightarrow> leap_second_checked hour minute (Some z)))"
proof
  assume v: "isValidOffset hour minute second neg s"
  let ?hs = "take 2 s" let ?ms = "drop 3 s"
  have len: "length s = 5" and colon: "s ! 2 = ch CHR '':''"
    and d: "digits1 ?hs" "digits1 ?ms" "decimal ?hs \<le> 23" "decimal ?ms \<le> 59"
    using v by (auto simp: isValidOffset_def atoiDigits_eq split: if_splits)
  obtain a b c e f where s: "s = [a, b, c, e, f]"
    using len by (auto simp: eval_nat_numeral length_Suc_conv)
  let ?zh = "if neg then - int (decimal ?hs) else int (decimal ?hs)"
  let ?zm = "if neg then - int (decimal ?ms) else int (decimal ?ms)"
  have "zone (sign # s) (Some (?zh, ?zm))"
    unfolding zone_def option.case prod.case using assms colon d s
    by (intro exI [of _ sign] exI [of _ ?hs] exI [of _ ?ms]) (auto simp: two_digits_def digits1_def)
  moreover have "second = 60 \<longrightarrow> leap_second_checked hour minute (Some (?zh, ?zm))"
    using v len colon d by (auto simp: isValidOffset_def leap_second_checked_def atoiDigits_eq Let_def split: if_splits)
  ultimately show "\<exists>z. zone (sign # s) (Some z) \<and> (second = 60 \<longrightarrow> leap_second_checked hour minute (Some z))"
    by blast
next
  assume "\<exists>z. zone (sign # s) (Some z) \<and> (second = 60 \<longrightarrow> leap_second_checked hour minute (Some z))"
  then obtain zh zm hs ms where z: "s = hs @ [ch CHR '':''] @ ms" "two_digits hs" "two_digits ms"
      "decimal hs \<le> 23" "decimal ms \<le> 59"
      "zh = (if neg then - int (decimal hs) else int (decimal hs))"
      "zm = (if neg then - int (decimal ms) else int (decimal ms))"
      "second = 60 \<longrightarrow> leap_second_checked hour minute (Some (zh, zm))"
    using assms by (auto simp: zone_def)
  have "length hs = 2" "length ms = 2" using z by (simp_all add: two_digits_def)
  then have "length s = 5" "s ! 2 = ch CHR '':''" "take 2 s = hs" "drop 3 s = ms"
    using z(1) by (simp_all add: nth_append)
  then show "isValidOffset hour minute second neg s"
    using z(2-8) by (auto simp: isValidOffset_def atoiDigits_eq two_digits_digits1 leap_second_checked_def Let_def)
qed

lemma zone_start: "zone (c # s) z \<Longrightarrow> c \<in> {ch CHR ''Z'', ch CHR ''z'', ch CHR ''+'', ch CHR ''-''}"
  by (auto simp: zone_def split: option.splits)

lemma zone_Nil [simp]: "\<not> zone [] z"
  by (auto simp: zone_def split: option.splits)

lemma valid_zone_iff:
  "valid_zone hour minute second s \<longleftrightarrow>
     (\<exists>z. zone s z \<and> (second = 60 \<longrightarrow> leap_second_checked hour minute z))"
proof (cases s)
  case (Cons c t)
  have None: "zone (c # t) None \<longleftrightarrow> t = [] \<and> (c = ch CHR ''Z'' \<or> c = ch CHR ''z'')"
    by (auto simp: zone_def)
  have Some: "zone (c # t) (Some z) \<Longrightarrow> c = ch CHR ''+'' \<or> c = ch CHR ''-''" for z
    by (auto simp: zone_def split: prod.splits)
  have ex: "(\<exists>z. zone (c # t) z \<and> Q z) \<longleftrightarrow> zone (c # t) None \<and> Q None \<or> (\<exists>z. zone (c # t) (Some z) \<and> Q (Some z))" for Q
    by (metis not_None_eq)
  consider "c = ch CHR ''Z'' \<or> c = ch CHR ''z''" | "c = ch CHR ''+''" | "c = ch CHR ''-''"
    | "c \<notin> {ch CHR ''Z'', ch CHR ''z'', ch CHR ''+'', ch CHR ''-''}" by blast
  then show ?thesis
  proof cases
    case 1
    then have no: "\<not> zone (c # t) (Some z)" for z using Some [of z] by auto
    show ?thesis unfolding Cons ex using 1 no None
      by (auto simp: valid_zone_def leap_second_checked_def)
  next
    case 2
    then have "\<not> zone (c # t) None" unfolding None by simp
    then show ?thesis unfolding Cons ex using 2 isValidOffset_iff [of c False hour minute second t]
      by (simp add: valid_zone_def)
  next
    case 3
    then have "\<not> zone (c # t) None" unfolding None by simp
    then show ?thesis unfolding Cons ex using 3 isValidOffset_iff [of c True hour minute second t]
      by (simp add: valid_zone_def)
  next
    case 4
    then show ?thesis unfolding Cons using zone_start [of c t] by (auto simp: valid_zone_def)
  qed
qed (simp add: valid_zone_def)

lemma zone_drop_digits: "zone zs z \<Longrightarrow> list_all digit_byte ds \<Longrightarrow> drop_digits (ds @ zs) = zs"
  using zone_start by (cases zs) (force simp: digit_byte_cases)+

lemma valid_rest_iff:
  "valid_rest hour minute second s \<longleftrightarrow>
     (\<exists>frac zs z. s = frac @ zs \<and> fraction frac \<and> zone zs z \<and> (second = 60 \<longrightarrow> leap_second_checked hour minute z))"
proof
  assume v: "valid_rest hour minute second s"
  show "\<exists>frac zs z. s = frac @ zs \<and> fraction frac \<and> zone zs z \<and> (second = 60 \<longrightarrow> leap_second_checked hour minute z)"
  proof (cases "length s > 0 \<and> s ! 0 = ch CHR ''.''")
    case False
    then have "valid_zone hour minute second s" using v by (auto simp: valid_rest_def split: if_splits)
    then show ?thesis unfolding valid_zone_iff by (auto simp: fraction_def intro: exI [of _ "[]"])
  next
    case True
    then obtain t where s: "s = ch CHR ''.'' # t" by (cases s) auto
    obtain d u where t: "t = d # u" "digit_byte d" and z: "valid_zone hour minute second (drop_digits t)"
      using v unfolding s by (cases t) (auto simp: valid_rest_def digit_byte_def not_less split: if_splits)
    obtain ds where ds: "list_all digit_byte ds" "t = ds @ drop_digits t" using drop_digits_split by blast
    then have "ds \<noteq> []" by (metis append_Nil drop_digits_stop t)
    with ds z show ?thesis unfolding valid_zone_iff s
      by (intro exI [of _ "ch CHR ''.'' # ds"] exI [of _ "drop_digits t"]) (auto simp: fraction_def digits1_def)
  qed
next
  assume "\<exists>frac zs z. s = frac @ zs \<and> fraction frac \<and> zone zs z \<and> (second = 60 \<longrightarrow> leap_second_checked hour minute z)"
  then obtain frac zs z where s: "s = frac @ zs" "fraction frac" and z: "zone zs z"
      "second = 60 \<longrightarrow> leap_second_checked hour minute z" by blast
  then have v: "valid_zone hour minute second zs" by (auto simp: valid_zone_iff)
  obtain c t where zs: "zs = c # t" using z(1) by (cases zs) auto
  show "valid_rest hour minute second s"
  proof (cases "frac = []")
    case True
    then show ?thesis using s v zone_start [of c t z] z(1) zs by (auto simp: valid_rest_def)
  next
    case False
    then obtain d u where f: "frac = ch CHR ''.'' # d # u" "digit_byte d" "list_all digit_byte u"
      using s(2) by (auto simp: fraction_def digits1_def neq_Nil_conv)
    then show ?thesis using v zone_drop_digits [OF z(1), of "d # u"] unfolding s
      by (auto simp: valid_rest_def digit_byte_def)
  qed
qed

lemma isValidTime_parts:
  "isValidTime s \<longleftrightarrow>
     8 \<le> length s \<and> s ! 2 = ch CHR '':'' \<and> s ! 5 = ch CHR '':'' \<and>
     digits1 (take 2 s) \<and> digits1 (take 2 (drop 3 s)) \<and> digits1 (take 2 (drop 6 s)) \<and>
     decimal (take 2 s) \<le> 23 \<and> decimal (take 2 (drop 3 s)) \<le> 59 \<and> decimal (take 2 (drop 6 s)) \<le> 60 \<and>
     valid_rest (decimal (take 2 s)) (decimal (take 2 (drop 3 s))) (decimal (take 2 (drop 6 s))) (drop 8 s)"
  unfolding isValidTime_def atoiDigits_eq by (auto simp: not_less)

lemma split_fields:
  assumes "8 \<le> length s"
  shows "s = take 2 s @ [s ! 2] @ take 2 (drop 3 s) @ [s ! 5] @ take 2 (drop 6 s) @ drop 8 s"
proof -
  have a: "drop 2 s = s ! 2 # drop 3 s" "drop 5 s = s ! 5 # drop 6 s"
    using assms Cons_nth_drop_Suc [of 2 s] Cons_nth_drop_Suc [of 5 s] by simp_all
  have b: "take 2 (drop 3 s) @ drop 5 s = drop 3 s" "take 2 (drop 6 s) @ drop 8 s = drop 6 s"
    using append_take_drop_id [of 2 "drop 3 s"] append_take_drop_id [of 2 "drop 6 s"] by simp_all
  have "take 2 s @ [s ! 2] @ take 2 (drop 3 s) @ [s ! 5] @ take 2 (drop 6 s) @ drop 8 s = s"
    unfolding append_Cons append_Nil b a(2) [symmetric] a(1) [symmetric] by (rule append_take_drop_id)
  then show ?thesis ..
qed

lemma isValidTime_full_time:
  "isValidTime s \<longleftrightarrow>
     (\<exists>hour minute second z. full_time s hour minute second z \<and>
        (second = 60 \<longrightarrow> leap_second_checked hour minute z))"
proof
  assume v: "isValidTime s"
  let ?hs = "take 2 s" let ?ms = "take 2 (drop 3 s)" let ?ss = "take 2 (drop 6 s)"
  have len: "8 \<le> length s" and colon: "s ! 2 = ch CHR '':''" "s ! 5 = ch CHR '':''"
    using v by (simp_all add: isValidTime_parts)
  have d: "digits1 ?hs" "digits1 ?ms" "digits1 ?ss" "decimal ?hs \<le> 23" "decimal ?ms \<le> 59" "decimal ?ss \<le> 60"
    and r: "valid_rest (decimal ?hs) (decimal ?ms) (decimal ?ss) (drop 8 s)"
    using v by (simp_all add: isValidTime_parts)
  from r obtain frac zs z where z: "drop 8 s = frac @ zs" "fraction frac" "zone zs z"
      "decimal ?ss = 60 \<longrightarrow> leap_second_checked (decimal ?hs) (decimal ?ms) z"
    unfolding valid_rest_iff by blast
  have "s = ?hs @ [ch CHR '':''] @ ?ms @ [ch CHR '':''] @ ?ss @ frac @ zs"
    by (rule split_fields [OF len, unfolded colon z(1)])
  moreover have "two_digits ?hs" "two_digits ?ms" "two_digits ?ss"
    using d len by (simp_all add: two_digits_def digits1_def)
  ultimately have "full_time s (decimal ?hs) (decimal ?ms) (decimal ?ss) z"
    unfolding full_time_def using z d by blast
  with z(4) show "\<exists>hour minute second z. full_time s hour minute second z \<and>
      (second = 60 \<longrightarrow> leap_second_checked hour minute z)" by blast
next
  assume "\<exists>hour minute second z. full_time s hour minute second z \<and>
      (second = 60 \<longrightarrow> leap_second_checked hour minute z)"
  then obtain hs ms ss frac zs z where t: "s = hs @ [ch CHR '':''] @ ms @ [ch CHR '':''] @ ss @ frac @ zs"
      "two_digits hs" "two_digits ms" "two_digits ss" "fraction frac" "zone zs z"
      "decimal hs \<le> 23" "decimal ms \<le> 59" "decimal ss \<le> 60"
      "decimal ss = 60 \<longrightarrow> leap_second_checked (decimal hs) (decimal ms) z"
    by (auto simp: full_time_def)
  have "length hs = 2" "length ms = 2" "length ss = 2" using t by (simp_all add: two_digits_def)
  then have parts: "8 \<le> length s" "s ! 2 = ch CHR '':''" "s ! 5 = ch CHR '':''" "take 2 s = hs"
      "take 2 (drop 3 s) = ms" "take 2 (drop 6 s) = ss" "drop 8 s = frac @ zs"
    using t(1) by (simp_all add: nth_append)
  have "valid_rest (decimal hs) (decimal ms) (decimal ss) (frac @ zs)"
    unfolding valid_rest_iff using t by blast
  then show "isValidTime s"
    using parts t(2-4,7-9) by (simp add: isValidTime_parts two_digits_digits1)
qed

section \<open>Durations\<close>

text \<open>The grammar of RFC 3339, appendix A, with designators in either case.\<close>

definition designator :: "char \<Rightarrow> char \<Rightarrow> byte \<Rightarrow> bool" where
  "designator upper lower b \<longleftrightarrow> b = ch upper \<or> b = ch lower"

inductive dur_second :: "bytes \<Rightarrow> bool" where
  "digits1 ds \<Longrightarrow> designator CHR ''S'' CHR ''s'' c \<Longrightarrow> dur_second (ds @ [c])"

inductive dur_minute :: "bytes \<Rightarrow> bool" where
  "digits1 ds \<Longrightarrow> designator CHR ''M'' CHR ''m'' c \<Longrightarrow> r = [] \<or> dur_second r \<Longrightarrow> dur_minute (ds @ c # r)"

inductive dur_hour :: "bytes \<Rightarrow> bool" where
  "digits1 ds \<Longrightarrow> designator CHR ''H'' CHR ''h'' c \<Longrightarrow> r = [] \<or> dur_minute r \<Longrightarrow> dur_hour (ds @ c # r)"

inductive dur_time :: "bytes \<Rightarrow> bool" where
  "designator CHR ''T'' CHR ''t'' c \<Longrightarrow> dur_hour r \<or> dur_minute r \<or> dur_second r \<Longrightarrow> dur_time (c # r)"

inductive dur_day :: "bytes \<Rightarrow> bool" where
  "digits1 ds \<Longrightarrow> designator CHR ''D'' CHR ''d'' c \<Longrightarrow> dur_day (ds @ [c])"

inductive dur_week :: "bytes \<Rightarrow> bool" where
  "digits1 ds \<Longrightarrow> designator CHR ''W'' CHR ''w'' c \<Longrightarrow> dur_week (ds @ [c])"

inductive dur_month :: "bytes \<Rightarrow> bool" where
  "digits1 ds \<Longrightarrow> designator CHR ''M'' CHR ''m'' c \<Longrightarrow> r = [] \<or> dur_day r \<Longrightarrow> dur_month (ds @ c # r)"

inductive dur_year :: "bytes \<Rightarrow> bool" where
  "digits1 ds \<Longrightarrow> designator CHR ''Y'' CHR ''y'' c \<Longrightarrow> r = [] \<or> dur_month r \<Longrightarrow> dur_year (ds @ c # r)"

inductive dur_date :: "bytes \<Rightarrow> bool" where
  "dur_day d \<or> dur_month d \<or> dur_year d \<Longrightarrow> t = [] \<or> dur_time t \<Longrightarrow> dur_date (d @ t)"

inductive duration :: "bytes \<Rightarrow> bool" where
  "designator CHR ''P'' CHR ''p'' c \<Longrightarrow> dur_date r \<or> dur_time r \<or> dur_week r \<Longrightarrow> duration (c # r)"

lemma isChar_iff: "isChar s (ch a) (ch b) \<longleftrightarrow> (\<exists>c r. s = c # r \<and> designator a b c)"
  by (cases s) (auto simp: isChar_def designator_def)

text \<open>Skipping digits in front of something that does not start with one.\<close>

lemma skipDigits_iff:
  "skipDigits s = Some r \<longleftrightarrow> (\<exists>ds. digits1 ds \<and> s = ds @ r \<and> (r = [] \<or> \<not> digit_byte (hd r)))"
proof
  assume r: "skipDigits s = Some r"
  then obtain c t where s: "s = c # t" "digit_byte c" and t: "r = drop_digits t"
    by (cases s) (auto simp: skipDigits_def isDigit_def digit_byte_def split: if_splits)
  obtain ds where "list_all digit_byte ds" "t = ds @ r" using drop_digits_split [of t] t by blast
  moreover have "r = [] \<or> \<not> digit_byte (hd r)" using drop_digits_stop [of t] t by (metis list.collapse)
  ultimately show "\<exists>ds. digits1 ds \<and> s = ds @ r \<and> (r = [] \<or> \<not> digit_byte (hd r))"
    using s by (intro exI [of _ "c # ds"]) (simp add: digits1_def)
next
  assume "\<exists>ds. digits1 ds \<and> s = ds @ r \<and> (r = [] \<or> \<not> digit_byte (hd r))"
  then obtain c ds where "digit_byte c" "list_all digit_byte ds" "s = c # ds @ r" "r = [] \<or> \<not> digit_byte (hd r)"
    by (auto simp: digits1_def neq_Nil_conv)
  moreover from this(4) have "drop_digits r = r" by (cases r) auto
  ultimately show "skipDigits s = Some r" by (simp add: skipDigits_def isDigit_def digit_byte_def)
qed

text \<open>An amount is a run of digits before something; a unit is a designator before something.\<close>

definition amount :: "(bytes \<Rightarrow> bool) \<Rightarrow> bytes \<Rightarrow> bool" where
  "amount Q s \<longleftrightarrow> (\<exists>ds t. digits1 ds \<and> s = ds @ t \<and> Q t)"

definition unit :: "char \<Rightarrow> char \<Rightarrow> (bytes \<Rightarrow> bool) \<Rightarrow> bytes \<Rightarrow> bool" where
  "unit a b Q s \<longleftrightarrow> (\<exists>c r. s = c # r \<and> designator a b c \<and> Q r)"

lemma amount_disj: "amount (\<lambda>t. P t \<or> Q t) s \<longleftrightarrow> amount P s \<or> amount Q s"
  by (auto simp: amount_def)

lemma amount_starts: "amount Q s \<Longrightarrow> \<exists>c r. s = c # r \<and> digit_byte c"
  by (auto simp: amount_def digits1_def neq_Nil_conv)

lemma unit_stops:
  "unit a b Q s \<Longrightarrow> \<not> digit_byte (ch a) \<Longrightarrow> \<not> digit_byte (ch b) \<Longrightarrow> s \<noteq> [] \<and> \<not> digit_byte (hd s)"
  by (auto simp: unit_def designator_def)

lemma skip_amount:
  assumes "\<And>t. Q t \<Longrightarrow> t \<noteq> [] \<and> \<not> digit_byte (hd t)"
  shows "(case skipDigits s of None \<Rightarrow> False | Some t \<Rightarrow> Q t) \<longleftrightarrow> amount Q s"
proof
  assume "case skipDigits s of None \<Rightarrow> False | Some t \<Rightarrow> Q t"
  then show "amount Q s" by (auto simp: amount_def skipDigits_iff split: option.splits)
next
  assume "amount Q s"
  then obtain ds t where "digits1 ds" "s = ds @ t" "Q t" by (auto simp: amount_def)
  then have "skipDigits s = Some t" using assms by (auto simp: skipDigits_iff)
  with \<open>Q t\<close> show "case skipDigits s of None \<Rightarrow> False | Some t \<Rightarrow> Q t" by simp
qed

lemma unit_isChar: "unit a b Q s \<longleftrightarrow> isChar s (ch a) (ch b) \<and> Q (drop 1 s)"
  by (auto simp: unit_def isChar_iff)

lemma isChar_unit_False: "isChar s (ch a) (ch b) \<Longrightarrow> \<not> designator c d (ch a) \<Longrightarrow> \<not> designator c d (ch b) \<Longrightarrow> \<not> unit c d Q s"
  by (auto simp: unit_def isChar_iff designator_def)

lemma dur_second_amount: "dur_second s \<longleftrightarrow> amount (unit CHR ''S'' CHR ''s'' (\<lambda>r. r = [])) s"
  unfolding amount_def unit_def dur_second.simps by blast

lemma dur_minute_amount: "dur_minute s \<longleftrightarrow> amount (unit CHR ''M'' CHR ''m'' (\<lambda>r. r = [] \<or> dur_second r)) s"
  unfolding amount_def unit_def dur_minute.simps by blast

lemma dur_hour_amount: "dur_hour s \<longleftrightarrow> amount (unit CHR ''H'' CHR ''h'' (\<lambda>r. r = [] \<or> dur_minute r)) s"
  unfolding amount_def unit_def dur_hour.simps by blast

lemma dur_day_amount: "dur_day s \<longleftrightarrow> amount (unit CHR ''D'' CHR ''d'' (\<lambda>r. r = [])) s"
  unfolding amount_def unit_def dur_day.simps by blast

lemma dur_week_amount: "dur_week s \<longleftrightarrow> amount (unit CHR ''W'' CHR ''w'' (\<lambda>r. r = [])) s"
  unfolding amount_def unit_def dur_week.simps by blast

lemma dur_month_amount: "dur_month s \<longleftrightarrow> amount (unit CHR ''M'' CHR ''m'' (\<lambda>r. r = [] \<or> dur_day r)) s"
  unfolding amount_def unit_def dur_month.simps by blast

lemma dur_year_amount: "dur_year s \<longleftrightarrow> amount (unit CHR ''Y'' CHR ''y'' (\<lambda>r. r = [] \<or> dur_month r)) s"
  unfolding amount_def unit_def dur_year.simps by blast

lemmas dur_amounts = dur_second_amount dur_minute_amount dur_hour_amount dur_day_amount dur_week_amount dur_month_amount dur_year_amount

lemma not_digits: "\<not> digit_byte (ch CHR ''S'')" "\<not> digit_byte (ch CHR ''s'')" "\<not> digit_byte (ch CHR ''M'')"
  "\<not> digit_byte (ch CHR ''m'')" "\<not> digit_byte (ch CHR ''H'')" "\<not> digit_byte (ch CHR ''h'')"
  "\<not> digit_byte (ch CHR ''D'')" "\<not> digit_byte (ch CHR ''d'')" "\<not> digit_byte (ch CHR ''W'')"
  "\<not> digit_byte (ch CHR ''w'')" "\<not> digit_byte (ch CHR ''Y'')" "\<not> digit_byte (ch CHR ''y'')"
  "\<not> digit_byte (ch CHR ''T'')" "\<not> digit_byte (ch CHR ''t'')"
  by (simp_all add: digit_byte_def)

definition time_units :: "bytes \<Rightarrow> bool" where
  "time_units t \<longleftrightarrow>
     unit CHR ''H'' CHR ''h'' (\<lambda>r. r = [] \<or> dur_minute r) t \<or>
     unit CHR ''M'' CHR ''m'' (\<lambda>r. r = [] \<or> dur_second r) t \<or>
     unit CHR ''S'' CHR ''s'' (\<lambda>r. r = []) t"

lemma dur_time_units: "dur_time s \<longleftrightarrow> unit CHR ''T'' CHR ''t'' (amount time_units) s"
  unfolding dur_time.simps unit_def dur_amounts time_units_def amount_disj by blast

lemma unit_end: "length s = 1 \<and> isChar s (ch a) (ch b) \<longleftrightarrow> unit a b (\<lambda>r. r = []) s"
  by (cases s) (auto simp: unit_isChar isChar_def)

lemma skip_unit:
  assumes "\<not> digit_byte (ch a)" "\<not> digit_byte (ch b)"
  shows "(case skipDigits s of None \<Rightarrow> False | Some t \<Rightarrow> unit a b Q t) \<longleftrightarrow> amount (unit a b Q) s"
  using unit_stops [OF _ assms] by (rule skip_amount)

lemma validDurTime_iff: "validDurTime s \<longleftrightarrow> dur_time s"
proof -
  define minutes where "minutes = (\<lambda>s.
    if isChar s (ch CHR ''M'') (ch CHR ''m'') then
      if length (drop 1 s) = 0 then True
      else case skipDigits (drop 1 s) of None \<Rightarrow> False
           | Some s \<Rightarrow> length s = 1 \<and> isChar s (ch CHR ''S'') (ch CHR ''s'')
    else length s = 1 \<and> isChar s (ch CHR ''S'') (ch CHR ''s''))"
  define hours where "hours = (\<lambda>s.
    if isChar s (ch CHR ''H'') (ch CHR ''h'') then
      if length (drop 1 s) = 0 then True
      else case skipDigits (drop 1 s) of None \<Rightarrow> False
           | Some s \<Rightarrow> if \<not> isChar s (ch CHR ''M'') (ch CHR ''m'') then False else minutes s
    else minutes s)"
  let ?M = "unit CHR ''M'' CHR ''m'' (\<lambda>r. r = [] \<or> dur_second r)"
  let ?S = "unit CHR ''S'' CHR ''s'' (\<lambda>r. r = [])"
  have noS: "\<not> ?S s" if "isChar s (ch CHR ''M'') (ch CHR ''m'')" for s
    by (rule isChar_unit_False [OF that]; simp add: designator_def)
  have minutes: "minutes s \<longleftrightarrow> ?M s \<or> ?S s" for s
    unfolding minutes_def unit_end skip_unit [OF not_digits(1,2)] dur_second_amount [symmetric]
      unit_isChar [of "CHR ''M''"] using noS [of s] by auto
  have M: "(if \<not> isChar s (ch CHR ''M'') (ch CHR ''m'') then False else minutes s) \<longleftrightarrow> ?M s" for s
    unfolding minutes unit_isChar [of "CHR ''M''"] using noS [of s] by auto
  have noMS: "\<not> ?M s" "\<not> ?S s" if "isChar s (ch CHR ''H'') (ch CHR ''h'')" for s
    by (rule isChar_unit_False [OF that]; simp add: designator_def)+
  have hours: "hours s \<longleftrightarrow> time_units s" for s
    unfolding hours_def M
    unfolding skip_unit [OF not_digits(3,4)] dur_minute_amount [symmetric] minutes time_units_def
      unit_isChar [of "CHR ''H''"] using noMS [of s] by auto
  have stops: "time_units t \<Longrightarrow> t \<noteq> [] \<and> \<not> digit_byte (hd t)" for t
    using unit_stops not_digits unfolding time_units_def by blast
  have "validDurTime s \<longleftrightarrow>
      (if \<not> isChar s (ch CHR ''T'') (ch CHR ''t'') then False
       else case skipDigits (drop 1 s) of None \<Rightarrow> False | Some s \<Rightarrow> hours s)"
    unfolding validDurTime_def hours_def minutes_def Let_def by (rule refl)
  also have "\<dots> \<longleftrightarrow> dur_time s"
    unfolding dur_time_units unit_isChar hours using skip_amount [of time_units, OF stops] by simp
  finally show ?thesis .
qed

text \<open>What may follow the first amount of a date, and the second and third.\<close>

abbreviation day_unit :: "bytes \<Rightarrow> bool" where
  "day_unit \<equiv> unit CHR ''D'' CHR ''d'' (\<lambda>r. r = [] \<or> dur_time r)"

abbreviation month_unit :: "bytes \<Rightarrow> bool" where
  "month_unit \<equiv> unit CHR ''M'' CHR ''m'' (\<lambda>r. r = [] \<or> dur_time r \<or> amount day_unit r)"

abbreviation year_unit :: "bytes \<Rightarrow> bool" where
  "year_unit \<equiv> unit CHR ''Y'' CHR ''y'' (\<lambda>r. r = [] \<or> dur_time r \<or> amount month_unit r)"

lemma amount_append: "(\<exists>d t. s = d @ t \<and> amount Q d \<and> P t) \<longleftrightarrow> amount (\<lambda>r. \<exists>d t. r = d @ t \<and> Q d \<and> P t) s"
  unfolding amount_def by (metis append.assoc)

lemma unit_append:
  "(\<exists>d t. s = d @ t \<and> unit a b Q d \<and> P t) \<longleftrightarrow> unit a b (\<lambda>r. \<exists>d t. r = d @ t \<and> Q d \<and> P t) s"
  unfolding unit_def by (metis append_Cons)

lemma optional_append: "(\<exists>d t. r = d @ t \<and> (d = [] \<or> Q d) \<and> P t) \<longleftrightarrow> P r \<or> (\<exists>d t. r = d @ t \<and> Q d \<and> P t)"
  by auto

lemma dur_date_amount: "dur_date s \<longleftrightarrow> amount (\<lambda>t. day_unit t \<or> month_unit t \<or> year_unit t) s"
proof -
  let ?P = "\<lambda>t. t = [] \<or> dur_time t"
  have eps: "(\<exists>d t. r = d @ t \<and> d = [] \<and> ?P t) \<longleftrightarrow> ?P r" for r by simp
  have day: "(\<exists>d t. s = d @ t \<and> dur_day d \<and> ?P t) \<longleftrightarrow> amount day_unit s" for s
    unfolding dur_day_amount amount_append unit_append eps by (rule refl)
  have month: "(\<exists>d t. s = d @ t \<and> dur_month d \<and> ?P t) \<longleftrightarrow> amount month_unit s" for s
    unfolding dur_month_amount amount_append unit_append optional_append day by (simp only: disj_assoc)
  have year: "(\<exists>d t. s = d @ t \<and> dur_year d \<and> ?P t) \<longleftrightarrow> amount year_unit s"
    unfolding dur_year_amount amount_append unit_append optional_append month by (simp only: disj_assoc)
  have "dur_date s \<longleftrightarrow> (\<exists>d t. s = d @ t \<and> dur_day d \<and> ?P t) \<or> (\<exists>d t. s = d @ t \<and> dur_month d \<and> ?P t) \<or>
      (\<exists>d t. s = d @ t \<and> dur_year d \<and> ?P t)"
    unfolding dur_date.simps by blast
  then show ?thesis unfolding day month year amount_disj .
qed

lemma dur_time_starts: "dur_time s \<longleftrightarrow> isChar s (ch CHR ''T'') (ch CHR ''t'') \<and> dur_time s"
  unfolding dur_time_units unit_isChar by blast

lemma amount_not_T: "isChar s (ch CHR ''T'') (ch CHR ''t'') \<Longrightarrow> \<not> amount Q s"
  using amount_starts [of Q s] not_digits(13,14) unfolding isChar_iff designator_def by fastforce

lemma validDurDays_iff: "validDurDays s \<longleftrightarrow> day_unit s"
  unfolding validDurDays_def validDurTime_iff unit_isChar by auto

lemma validDurMonths_iff: "validDurMonths s \<longleftrightarrow> month_unit s \<or> day_unit s"
proof -
  have D: "(if \<not> isChar s (ch CHR ''D'') (ch CHR ''d'') then False else validDurDays s) \<longleftrightarrow> day_unit s" for s
    unfolding validDurDays_iff unit_isChar by auto
  have no: "\<not> day_unit s" if "isChar s (ch CHR ''M'') (ch CHR ''m'')"
    by (rule isChar_unit_False [OF that]; simp add: designator_def)
  show ?thesis
    unfolding validDurMonths_def D
    unfolding skip_unit [OF not_digits(7,8)] validDurTime_iff validDurDays_iff
      unit_isChar [of "CHR ''M''"]
    using no amount_not_T [of "drop 1 s"] dur_time_starts [of "drop 1 s"] by auto
qed

lemma validDurDateOrWeek_iff: "validDurDateOrWeek s \<longleftrightarrow> dur_week s \<or> dur_date s"
proof -
  let ?W = "unit CHR ''W'' CHR ''w'' (\<lambda>r. r = [])"
  define first where "first = (\<lambda>s.
    if isChar s (ch CHR ''W'') (ch CHR ''w'') then length s = 1
    else if isChar s (ch CHR ''Y'') (ch CHR ''y'') then
      if length (drop 1 s) = 0 then True
      else if isChar (drop 1 s) (ch CHR ''T'') (ch CHR ''t'') then validDurTime (drop 1 s)
      else case skipDigits (drop 1 s) of None \<Rightarrow> False
           | Some s \<Rightarrow> if \<not> isChar s (ch CHR ''M'') (ch CHR ''m'') then False else validDurMonths s
    else validDurMonths s)"
  have no: "\<not> day_unit s" if "isChar s (ch CHR ''M'') (ch CHR ''m'')" for s
    by (rule isChar_unit_False [OF that]; simp add: designator_def)
  have M: "(if \<not> isChar s (ch CHR ''M'') (ch CHR ''m'') then False else validDurMonths s) \<longleftrightarrow> month_unit s" for s
    unfolding validDurMonths_iff unit_isChar [of "CHR ''M''"] using no [of s] by auto
  have noY: "\<not> day_unit s" "\<not> month_unit s" "\<not> ?W s" if "isChar s (ch CHR ''Y'') (ch CHR ''y'')" for s
    by (rule isChar_unit_False [OF that]; simp add: designator_def)+
  have noW: "\<not> day_unit s" "\<not> month_unit s" "\<not> year_unit s" if "isChar s (ch CHR ''W'') (ch CHR ''w'')" for s
    by (rule isChar_unit_False [OF that]; simp add: designator_def)+
  have noYW: "\<not> isChar s (ch CHR ''Y'') (ch CHR ''y'')" if "isChar s (ch CHR ''W'') (ch CHR ''w'')" for s
    using that by (auto simp: isChar_def split: if_splits)
  have W: "?W s \<longleftrightarrow> isChar s (ch CHR ''W'') (ch CHR ''w'') \<and> length s = 1" for s
    using unit_end [of s "CHR ''W''" "CHR ''w''"] by blast
  have first: "first s \<longleftrightarrow> ?W s \<or> day_unit s \<or> month_unit s \<or> year_unit s" for s
    unfolding first_def M
    unfolding skip_unit [OF not_digits(3,4)] validDurTime_iff validDurMonths_iff
      unit_isChar [of "CHR ''Y''"] W
    using noY [of s] noW [of s] noYW [of s] W [of s] amount_not_T [of "drop 1 s"] dur_time_starts [of "drop 1 s"] by auto
  have stops: "?W t \<or> day_unit t \<or> month_unit t \<or> year_unit t \<Longrightarrow> t \<noteq> [] \<and> \<not> digit_byte (hd t)" for t
    using unit_stops not_digits by blast
  have "validDurDateOrWeek s \<longleftrightarrow> (case skipDigits s of None \<Rightarrow> False | Some s \<Rightarrow> first s)"
    unfolding validDurDateOrWeek_def first_def by (rule refl)
  also have "\<dots> \<longleftrightarrow> amount (\<lambda>t. ?W t \<or> day_unit t \<or> month_unit t \<or> year_unit t) s"
    unfolding first by (rule skip_amount [OF stops])
  also have "\<dots> \<longleftrightarrow> dur_week s \<or> dur_date s"
    by (simp only: amount_disj dur_week_amount dur_date_amount)
  finally show ?thesis .
qed

lemma isValidDuration_duration: "isValidDuration s \<longleftrightarrow> duration s"
proof -
  have d: "duration s \<longleftrightarrow> unit CHR ''P'' CHR ''p'' (\<lambda>r. dur_date r \<or> dur_time r \<or> dur_week r) s"
    unfolding duration.simps unit_def by blast
  have noT: "\<not> dur_date r" "\<not> dur_week r" if "isChar r (ch CHR ''T'') (ch CHR ''t'')" for r
    unfolding dur_date_amount dur_week_amount using amount_not_T [OF that] by blast+
  show ?thesis
    unfolding isValidDuration_def d validDurTime_iff validDurDateOrWeek_iff unit_isChar
    using noT [of "drop 1 s"] dur_time_starts [of "drop 1 s"] by auto
qed

end
