(* ===== verification/Format_Syntax.thy ===== *)
theory Format_Syntax
  imports Go_Strings
begin

text \<open>
  The JSON pointer, relative JSON pointer and UUID formats of \<open>jsonpointer.go\<close> and \<open>uuid.go\<close>
  under \<open>src/pkg/json/schema/format\<close>, with the grammars they check: RFC 6901 pointers are the
  escaped reference tokens, each after a slash; a UUID is five groups of hexadecimal digits.
\<close>

section \<open>JSON pointers\<close>

datatype format_error = NotValid bytes | InvalidEscaping bytes

function checkJSONPointerEscapes :: "bytes \<Rightarrow> bool" where
  "checkJSONPointerEscapes s =
     (case cut_byte s (ch CHR ''~'') of
        None \<Rightarrow> True
      | Some (before, after) \<Rightarrow>
          if length after = 0 \<or> after ! 0 \<noteq> ch CHR ''0'' \<and> after ! 0 \<noteq> ch CHR ''1'' then False
          else checkJSONPointerEscapes after)"
  by auto
termination
  by (relation "measure length") (auto simp: cut_byte_Some)

declare checkJSONPointerEscapes.simps [simp del]

definition jsonPointerFormat :: "any_value \<Rightarrow> format_error option" where
  "jsonPointerFormat inst =
     (case inst of
        Other_Any \<Rightarrow> None
      | String_Any s \<Rightarrow>
          if length s = 0 then None
          else if \<not> has_prefix s (str ''/'') then Some (NotValid s)
          else if \<not> checkJSONPointerEscapes s then Some (InvalidEscaping s)
          else None)"

definition relativeJSONPointerFormat :: "any_value \<Rightarrow> format_error option" where
  "relativeJSONPointerFormat inst =
     (case inst of
        Other_Any \<Rightarrow> None
      | String_Any orig \<Rightarrow>
          let s = orig; bad = Some (NotValid orig) in
          if length s = 0 then bad
          else if s ! 0 \<noteq> ch CHR ''0'' \<and> (s ! 0 < ch CHR ''1'' \<or> s ! 0 > ch CHR ''9'') then bad
          else
            let s = (if s ! 0 = ch CHR ''0'' then drop 1 s else drop_digits (drop 1 s)) in
            if length s = 0 \<or> s = str ''#'' then None
            else if s ! 0 \<noteq> ch CHR ''/'' then bad
            else if \<not> checkJSONPointerEscapes s then Some (InvalidEscaping s)
            else None)"

text \<open>Reference tokens and their escaping.\<close>

definition escape_byte :: "byte \<Rightarrow> bytes" where
  "escape_byte b =
     (if b = ch CHR ''~'' then str ''~0'' else if b = ch CHR ''/'' then str ''~1'' else [b])"

definition json_pointer :: "bytes list \<Rightarrow> bytes" where
  "json_pointer ts = concat (map (\<lambda>t. ch CHR ''/'' # concat (map escape_byte t)) ts)"

text \<open>The escapes are those of a concatenation of plain bytes and escapes.\<close>

inductive escaped :: "bytes \<Rightarrow> bool" where
  "escaped []"
| "escaped s \<Longrightarrow> b \<noteq> ch CHR ''~'' \<Longrightarrow> escaped (b # s)"
| "escaped s \<Longrightarrow> b = ch CHR ''0'' \<or> b = ch CHR ''1'' \<Longrightarrow> escaped (ch CHR ''~'' # b # s)"

inductive_simps escaped_Cons: "escaped (b # s)"

lemma escaped_prefix: "ch CHR ''~'' \<notin> set p \<Longrightarrow> escaped (p @ s) \<longleftrightarrow> escaped s"
proof (induction p)
  case (Cons b p)
  then have "b \<noteq> ch CHR ''~''" by auto
  with Cons show ?case by (simp add: escaped_Cons)
qed simp

lemma check_escaped: "checkJSONPointerEscapes s \<longleftrightarrow> escaped s"
proof (induction s rule: checkJSONPointerEscapes.induct)
  case (1 s)
  show ?case
  proof (cases "cut_byte s (ch CHR ''~'')")
    case None
    then have "escaped s" using escaped_prefix [of s "[]"] by (simp add: cut_byte_None escaped.intros)
    then show ?thesis using None by (subst checkJSONPointerEscapes.simps) simp
  next
    case (Some r)
    obtain before after where r: "r = (before, after)" by fastforce
    then have s: "s = before @ ch CHR ''~'' # after" "ch CHR ''~'' \<notin> set before"
      using Some by (simp_all add: cut_byte_Some)
    have e: "escaped s \<longleftrightarrow> escaped (ch CHR ''~'' # after)" unfolding s(1) by (rule escaped_prefix [OF s(2)])
    show ?thesis
    proof (cases "length after = 0 \<or> after ! 0 \<noteq> ch CHR ''0'' \<and> after ! 0 \<noteq> ch CHR ''1''")
      case True
      then show ?thesis unfolding e using Some r
        by (subst checkJSONPointerEscapes.simps) (cases after; auto simp: escaped_Cons)
    next
      case False
      then obtain b t where t: "after = b # t" "b = ch CHR ''0'' \<or> b = ch CHR ''1''" by (cases after) auto
      have "checkJSONPointerEscapes s = checkJSONPointerEscapes after"
        using Some r False by (subst checkJSONPointerEscapes.simps) (simp, blast)
      also have "\<dots> = escaped after" using 1 Some r False by blast
      also have "\<dots> = escaped s" unfolding e t using t(2) by (auto simp: escaped_Cons)
      finally show ?thesis .
    qed
  qed
qed

lemma escape_byte_escaped: "escaped s \<Longrightarrow> escaped (escape_byte b @ s)"
  by (auto simp: escape_byte_def escaped_Cons)

lemma escape_escaped: "escaped s \<Longrightarrow> escaped (concat (map escape_byte t) @ s)"
  by (induction t) (auto simp: escape_byte_escaped)

lemma json_pointer_escaped: "escaped (json_pointer ts)"
  by (induction ts) (auto simp: json_pointer_def escaped.intros escape_escaped)

lemma escaped_json_pointer: "escaped r \<Longrightarrow> \<exists>t ts. ch CHR ''/'' # r = json_pointer (t # ts)"
proof (induction rule: escaped.induct)
  case 1
  show ?case by (intro exI [of _ "[]"]) (simp add: json_pointer_def)
next
  case (2 s b)
  then obtain t ts where ts: "ch CHR ''/'' # s = json_pointer (t # ts)" by blast
  show ?case
  proof (cases "b = ch CHR ''/''")
    case True
    then have "ch CHR ''/'' # b # s = json_pointer ([] # t # ts)" using ts by (simp add: json_pointer_def)
    then show ?thesis by blast
  next
    case False
    then have "ch CHR ''/'' # b # s = json_pointer ((b # t) # ts)"
      using ts 2(2) by (simp add: json_pointer_def escape_byte_def)
    then show ?thesis by blast
  qed
next
  case (3 s b)
  then obtain t ts where ts: "ch CHR ''/'' # s = json_pointer (t # ts)" by blast
  let ?c = "if b = ch CHR ''0'' then ch CHR ''~'' else ch CHR ''/''"
  have "ch CHR ''/'' # ch CHR ''~'' # b # s = json_pointer ((?c # t) # ts)"
    using ts 3(2) by (auto simp: json_pointer_def escape_byte_def)
  then show ?case by blast
qed

lemma pointer_iff:
  "s = [] \<or> (\<exists>r. s = ch CHR ''/'' # r \<and> checkJSONPointerEscapes s) \<longleftrightarrow> (\<exists>ts. s = json_pointer ts)"
proof
  assume "s = [] \<or> (\<exists>r. s = ch CHR ''/'' # r \<and> checkJSONPointerEscapes s)"
  then show "\<exists>ts. s = json_pointer ts"
  proof
    assume "s = []"
    then show ?thesis by (intro exI [of _ "[]"]) (simp add: json_pointer_def)
  next
    assume "\<exists>r. s = ch CHR ''/'' # r \<and> checkJSONPointerEscapes s"
    then obtain r where "s = ch CHR ''/'' # r" "escaped r"
      unfolding check_escaped by (auto simp: escaped_Cons)
    then show ?thesis using escaped_json_pointer by metis
  qed
next
  assume "\<exists>ts. s = json_pointer ts"
  then obtain ts where s: "s = json_pointer ts" by blast
  show "s = [] \<or> (\<exists>r. s = ch CHR ''/'' # r \<and> checkJSONPointerEscapes s)"
    using json_pointer_escaped [of ts] unfolding check_escaped s
    by (cases ts) (simp_all add: json_pointer_def)
qed

lemma jsonPointerFormat_iff:
  "jsonPointerFormat (String_Any s) = None \<longleftrightarrow> (\<exists>ts. s = json_pointer ts)"
  unfolding pointer_iff [symmetric] by (cases s) (auto simp: jsonPointerFormat_def has_prefix_def)

text \<open>A relative pointer: a number without a leading zero, then nothing, a hash or a pointer.\<close>

definition plain_number :: "bytes \<Rightarrow> bool" where
  "plain_number n \<longleftrightarrow> digits1 n \<and> (n ! 0 = ch CHR ''0'' \<longrightarrow> n = str ''0'')"

definition relative_pointer :: "bytes \<Rightarrow> bool" where
  "relative_pointer s \<longleftrightarrow>
     (\<exists>n r. s = n @ r \<and> plain_number n \<and> (r = str ''#'' \<or> (\<exists>ts. r = json_pointer ts)))"

lemma relative_rest:
  "(length s = 0 \<or> s = str ''#'' \<or> s ! 0 = ch CHR ''/'' \<and> checkJSONPointerEscapes s) \<longleftrightarrow>
     s = str ''#'' \<or> (\<exists>ts. s = json_pointer ts)"
  unfolding pointer_iff [symmetric] by (cases s) auto

lemma relativeJSONPointerFormat_iff:
  "relativeJSONPointerFormat (String_Any s) = None \<longleftrightarrow> relative_pointer s"
proof (cases s)
  case Nil
  then show ?thesis
    by (auto simp: relativeJSONPointerFormat_def relative_pointer_def plain_number_def digits1_def)
next
  case (Cons c t)
  let ?r = "if c = ch CHR ''0'' then t else drop_digits t"
  let ?ok = "?r = str ''#'' \<or> (\<exists>ts. ?r = json_pointer ts)"
  have code: "relativeJSONPointerFormat (String_Any s) = None \<longleftrightarrow> digit_byte c \<and> ?ok"
  proof -
    have first: "\<not> (c \<noteq> ch CHR ''0'' \<and> (c < ch CHR ''1'' \<or> c > ch CHR ''9'')) \<longleftrightarrow> digit_byte c"
      unfolding digit_byte_cases by (auto simp: not_less word_le_nat_alt word_less_nat_alt word_unat_eq_iff)
    have "relativeJSONPointerFormat (String_Any s) = None \<longleftrightarrow>
        digit_byte c \<and> (length ?r = 0 \<or> ?r = str ''#'' \<or> ?r ! 0 = ch CHR ''/'' \<and> checkJSONPointerEscapes ?r)"
      unfolding first [symmetric] using Cons by (auto simp: relativeJSONPointerFormat_def Let_def)
    then show ?thesis unfolding relative_rest .
  qed
  show ?thesis unfolding code
  proof
    assume a: "digit_byte c \<and> ?ok"
    show "relative_pointer s"
    proof (cases "c = ch CHR ''0''")
      case True
      then show ?thesis using a Cons unfolding relative_pointer_def
        by (intro exI [of _ "[c]"] exI [of _ t]) (auto simp: plain_number_def digits1_def)
    next
      case False
      obtain ds where "list_all digit_byte ds" "t = ds @ drop_digits t" using drop_digits_split by blast
      then show ?thesis using a False Cons unfolding relative_pointer_def
        by (intro exI [of _ "c # ds"] exI [of _ "drop_digits t"]) (auto simp: plain_number_def digits1_def)
    qed
  next
    assume "relative_pointer s"
    then obtain n r where n: "s = n @ r" "plain_number n" and r: "r = str ''#'' \<or> (\<exists>ts. r = json_pointer ts)"
      by (auto simp: relative_pointer_def)
    have "length r = 0 \<or> r = str ''#'' \<or> r ! 0 = ch CHR ''/''"
      using r unfolding relative_rest [symmetric] by blast
    then have stop: "drop_digits r = r" by (cases r) (auto simp: digit_byte_def)
    obtain ds where ds: "n = c # ds" "digit_byte c" "list_all digit_byte ds" "t = ds @ r"
      using n Cons by (cases n) (auto simp: plain_number_def digits1_def)
    have "?r = r"
      using ds stop n(2) by (auto simp: plain_number_def)
    then show "digit_byte c \<and> ?ok" using ds r by simp
  qed
qed

section \<open>UUIDs\<close>

definition hex_byte :: "byte \<Rightarrow> bool" where
  "hex_byte b \<longleftrightarrow>
     (if b \<ge> ch CHR ''0'' \<and> b \<le> ch CHR ''9'' then True
      else if b \<ge> ch CHR ''A'' \<and> b \<le> ch CHR ''F'' then True
      else if b \<ge> ch CHR ''a'' \<and> b \<le> ch CHR ''f'' then True
      else False)"

text \<open>The closures \<open>hexOctets\<close> and \<open>dash\<close> change the captured string: they answer the rest.\<close>

definition hexOctets :: "nat \<Rightarrow> bytes \<Rightarrow> bytes option" where
  "hexOctets want s =
     (if length s < 2 * want then None
      else if \<exists>i \<in> set [0..<2 * want]. \<not> hex_byte (s ! i) then None
      else Some (drop (2 * want) s))"

definition dash :: "bytes \<Rightarrow> bytes option" where
  "dash s = (if length s = 0 \<or> s ! 0 \<noteq> ch CHR ''-'' then None else Some (drop 1 s))"

text \<open>Every failing step returns the same error, so the steps are a chain of binds.\<close>

definition uuid_steps :: "(bytes \<Rightarrow> bytes option) list" where
  "uuid_steps =
     [hexOctets 4, dash, hexOctets 2, dash, hexOctets 2, dash, hexOctets 2, dash, hexOctets 6]"

definition uuidFormat :: "any_value \<Rightarrow> bytes option" where
  "uuidFormat inst =
     (case inst of
        Other_Any \<Rightarrow> None
      | String_Any orig \<Rightarrow>
          (case foldl Option.bind (Some orig) uuid_steps of
             None \<Rightarrow> Some orig
           | Some s \<Rightarrow> if length s \<noteq> 0 then Some orig else None))"

definition hex_group :: "nat \<Rightarrow> bytes \<Rightarrow> bool" where
  "hex_group n g \<longleftrightarrow> length g = n \<and> list_all hex_byte g"

definition uuid :: "bytes \<Rightarrow> bool" where
  "uuid s \<longleftrightarrow>
     (\<exists>a b c d e. s = a @ [ch CHR ''-''] @ b @ [ch CHR ''-''] @ c @ [ch CHR ''-''] @ d @ [ch CHR ''-''] @ e \<and>
        hex_group 8 a \<and> hex_group 4 b \<and> hex_group 4 c \<and> hex_group 4 d \<and> hex_group 12 e)"

lemma hexOctets_iff: "hexOctets n s = Some r \<longleftrightarrow> (\<exists>g. s = g @ r \<and> hex_group (2 * n) g)"
proof
  assume "hexOctets n s = Some r"
  then have "2 * n \<le> length s" "\<forall>i < 2 * n. hex_byte (s ! i)" "r = drop (2 * n) s"
    by (auto simp: hexOctets_def split: if_splits)
  then show "\<exists>g. s = g @ r \<and> hex_group (2 * n) g"
    by (intro exI [of _ "take (2 * n) s"]) (simp add: hex_group_def list_all_length)
next
  assume "\<exists>g. s = g @ r \<and> hex_group (2 * n) g"
  then obtain g where "s = g @ r" "length g = 2 * n" "list_all hex_byte g" by (auto simp: hex_group_def)
  then show "hexOctets n s = Some r" by (auto simp: hexOctets_def list_all_length nth_append)
qed

lemma dash_iff: "dash s = Some r \<longleftrightarrow> s = ch CHR ''-'' # r"
  by (cases s) (auto simp: dash_def)

lemma uuidFormat_iff: "uuidFormat (String_Any s) = None \<longleftrightarrow> uuid s"
proof -
  have "uuidFormat (String_Any s) = None \<longleftrightarrow> foldl Option.bind (Some s) uuid_steps = Some []"
    by (auto simp: uuidFormat_def split: option.splits)
  also have "\<dots> \<longleftrightarrow> uuid s"
  proof (rule iffI, goal_cases)
    case 1
    then obtain a b c d e where "hex_group (2 * 4) a" "hex_group (2 * 2) b" "hex_group (2 * 2) c"
        "hex_group (2 * 2) d" "hex_group (2 * 6) e"
        "s = a @ ch CHR ''-'' # b @ ch CHR ''-'' # c @ ch CHR ''-'' # d @ ch CHR ''-'' # e"
      unfolding uuid_steps_def foldl.simps bind_eq_Some_conv option.inject hexOctets_iff dash_iff
      by (elim exE conjE) simp
    then show ?case unfolding uuid_def
      by (intro exI [of _ a] exI [of _ b] exI [of _ c] exI [of _ d] exI [of _ e]) simp
  next
    case 2
    then obtain a b c d e where "hex_group (2 * 4) a" "hex_group (2 * 2) b" "hex_group (2 * 2) c"
        "hex_group (2 * 2) d" "hex_group (2 * 6) e"
        "s = a @ ch CHR ''-'' # b @ ch CHR ''-'' # c @ ch CHR ''-'' # d @ ch CHR ''-'' # e"
      unfolding uuid_def by (elim exE conjE) simp
    then have "hexOctets 4 s = Some (ch CHR ''-'' # b @ ch CHR ''-'' # c @ ch CHR ''-'' # d @ ch CHR ''-'' # e)"
        "hexOctets 2 (b @ ch CHR ''-'' # c @ ch CHR ''-'' # d @ ch CHR ''-'' # e) =
          Some (ch CHR ''-'' # c @ ch CHR ''-'' # d @ ch CHR ''-'' # e)"
        "hexOctets 2 (c @ ch CHR ''-'' # d @ ch CHR ''-'' # e) = Some (ch CHR ''-'' # d @ ch CHR ''-'' # e)"
        "hexOctets 2 (d @ ch CHR ''-'' # e) = Some (ch CHR ''-'' # e)" "hexOctets 6 e = Some []"
      unfolding hexOctets_iff by blast+
    then show ?case by (simp add: uuid_steps_def dash_def)
  qed
  finally show ?thesis .
qed

end
