(* ===== verification/Format_Properties.thy ===== *)
theory Format_Properties
  imports Format_Time_Spec Format_Syntax
begin

text \<open>
  What the format validators of \<open>src/pkg/json/schema/format\<close> accept, each stated against the
  grammar of \<open>Format_Time_Spec\<close> or \<open>Format_Syntax\<close>.
\<close>

section \<open>Dates and times\<close>

text \<open>A full time whose leap second, if it has one, passes the code's check.\<close>

definition admitted_time :: "bytes \<Rightarrow> bool" where
  "admitted_time s \<longleftrightarrow>
     (\<exists>hour minute second z. full_time s hour minute second z \<and>
        (second = 60 \<longrightarrow> leap_second_checked hour minute z))"

text \<open>C19: A string passes the \<open>date-time\<close> format exactly when it is a full date of the calendar
  (month lengths and leap years included), the letter T in either case, and a full time whose
  leap second the code admits.\<close>

theorem format_date_time:
  "dateTimeFormat (String_Any s) = None \<longleftrightarrow>
     (\<exists>d c t year month mday. s = d @ [c] @ t \<and> full_date d year month mday \<and>
        designator CHR ''T'' CHR ''t'' c \<and> admitted_time t)"
proof -
  have t: "isValidTime t \<longleftrightarrow> admitted_time t" for t
    unfolding isValidTime_full_time admitted_time_def by simp
  have len: "isValidDate d \<Longrightarrow> length d = dateLen" for d
    by (simp add: isValidDate_def split: if_splits)
  have "dateTimeFormat (String_Any s) = None \<longleftrightarrow> isValidDateTime s"
    by (simp add: dateTimeFormat_def)
  also have "\<dots> \<longleftrightarrow> (\<exists>d c t. s = d @ [c] @ t \<and> isValidDate d \<and> designator CHR ''T'' CHR ''t'' c \<and> isValidTime t)"
    (is "?l \<longleftrightarrow> ?r")
  proof
    assume v: ?l
    then obtain c t where "drop dateLen s = c # t" "designator CHR ''T'' CHR ''t'' c" "isValidTime t"
      "isValidDate (take dateLen s)"
      unfolding isValidDateTime_def designator_def
      by (cases "drop dateLen s") (auto simp: Let_def split: if_splits)
    then show ?r by (metis append_Cons append_Nil append_take_drop_id)
  next
    assume ?r
    then obtain d c t where s: "s = d @ [c] @ t" and d: "isValidDate d"
      and c: "designator CHR ''T'' CHR ''t'' c" and t: "isValidTime t" by blast
    have "take dateLen s = d" "drop dateLen s = c # t" "dateLen \<le> length s"
      using len [OF d] by (simp_all add: s)
    then show ?l using d c t unfolding isValidDateTime_def designator_def by auto
  qed
  finally show ?thesis unfolding t isValidDate_full_date by auto
qed

text \<open>The minute of the UTC day in which a local time lies.\<close>

definition utc_minute :: "nat \<Rightarrow> nat \<Rightarrow> int \<times> int \<Rightarrow> int" where
  "utc_minute hour minute z = ((int hour - fst z) * 60 + (int minute - snd z)) mod 1440"

text \<open>C20: The \<open>time\<close> format accepts a full time exactly when the code's leap second check passes,
  and that check is wrong in both directions: \<open>00:59:60+01:00\<close> lies in the last minute of the
  UTC day and is rejected, \<open>23:29:60+00:30\<close> and \<open>00:59:60+00:00\<close> do not and are accepted.\<close>

theorem format_time_leap_second:
  "(timeFormat (String_Any s) = None \<longleftrightarrow> admitted_time s) \<and>
   (utc_minute 0 59 (1, 0) = 1439 \<and> timeFormat (String_Any (str ''00:59:60+01:00'')) \<noteq> None) \<and>
   (utc_minute 23 29 (0, 30) \<noteq> 1439 \<and> timeFormat (String_Any (str ''23:29:60+00:30'')) = None) \<and>
   (utc_minute 0 59 (0, 0) \<noteq> 1439 \<and> timeFormat (String_Any (str ''00:59:60+00:00'')) = None)"
proof (intro conjI)
  show "timeFormat (String_Any s) = None \<longleftrightarrow> admitted_time s"
    unfolding timeFormat_def admitted_time_def by (simp add: isValidTime_full_time)
  show "timeFormat (String_Any (str ''00:59:60+01:00'')) \<noteq> None"
    "timeFormat (String_Any (str ''23:29:60+00:30'')) = None"
    "timeFormat (String_Any (str ''00:59:60+00:00'')) = None" by code_simp+
qed (simp_all add: utc_minute_def)

text \<open>C21: A string passes the \<open>duration\<close> format exactly when RFC 3339's duration grammar derives it:
  units in order, weeks alone, and a time part introduced by T.\<close>

theorem format_duration: "durationFormat (String_Any s) = None \<longleftrightarrow> duration s"
  by (simp add: durationFormat_def isValidDuration_duration)

section \<open>Pointers and identifiers\<close>

text \<open>C22: A string passes the \<open>json-pointer\<close> format exactly when it is a list of reference
  tokens, each written after a slash with its tildes and slashes escaped.\<close>

theorem format_json_pointer:
  "jsonPointerFormat (String_Any s) = None \<longleftrightarrow> (\<exists>ts. s = json_pointer ts)"
  by (rule jsonPointerFormat_iff)

text \<open>C23: A string passes the \<open>relative-json-pointer\<close> format exactly when it is a number without
  leading zeros followed by a hash sign or a JSON pointer.\<close>

theorem format_relative_json_pointer:
  "relativeJSONPointerFormat (String_Any s) = None \<longleftrightarrow> relative_pointer s"
  by (rule relativeJSONPointerFormat_iff)

text \<open>C24: A string passes the \<open>uuid\<close> format exactly when it is five groups of hexadecimal digits,
  of 8, 4, 4, 4 and 12 digits, separated by dashes.\<close>

theorem format_uuid: "uuidFormat (String_Any s) = None \<longleftrightarrow> uuid s"
  by (rule uuidFormat_iff)

end
