(* ===== verification/Punycode.thy ===== *)
theory Punycode
  imports Go_Strings
begin

text \<open>
  The Punycode algorithm of \<open>src/pkg/json/schema/format/punycode.go\<close>. Go's \<open>int\<close> is a natural
  number: the subtractions are those the code guards, and its own checks against \<open>MaxInt32\<close> keep
  every value in range. The position in the encoded string is the list of the bytes left to
  read. A pair of a string and \<open>false\<close> is \<open>None\<close>. The outer loop of the encoder runs with the
  number of runes as fuel: every pass handles at least one (\<open>Punycode_Roundtrip\<close>).
\<close>

definition MaxInt32 :: nat where "MaxInt32 = 2147483647"

definition punyBase :: nat where "punyBase = 36"
definition punyTMin :: nat where "punyTMin = 1"
definition punyTMax :: nat where "punyTMax = 26"
definition punySkew :: nat where "punySkew = 38"
definition punyDamp :: nat where "punyDamp = 700"
definition punyInitialBias :: nat where "punyInitialBias = 72"
definition punyInitialN :: nat where "punyInitialN = 128"
definition punyDelimiter :: byte where "punyDelimiter = ch CHR ''-''"

lemmas puny_defs = punyBase_def punyTMin_def punyTMax_def punySkew_def punyDamp_def

function adapt_loop :: "nat \<Rightarrow> nat \<Rightarrow> nat \<times> nat" where
  "adapt_loop delta k =
     (if delta > ((punyBase - punyTMin) * punyTMax) div 2
      then adapt_loop (delta div (punyBase - punyTMin)) (k + punyBase)
      else (delta, k))"
  by auto
termination by (relation "measure fst") (auto simp: puny_defs)

declare adapt_loop.simps [simp del]

definition punyAdapt :: "nat \<Rightarrow> nat \<Rightarrow> bool \<Rightarrow> nat" where
  "punyAdapt delta numPoints firstTime =
     (let delta = (if firstTime then delta div punyDamp else delta div 2);
          delta = delta + delta div numPoints;
          (delta, k) = adapt_loop delta 0
      in k + (punyBase - punyTMin + 1) * delta div (delta + punySkew))"

definition punyDigitValue :: "byte \<Rightarrow> nat option" where
  "punyDigitValue b =
     (if ch CHR ''a'' \<le> b \<and> b \<le> ch CHR ''z'' then Some (unat (b - ch CHR ''a''))
      else if ch CHR ''A'' \<le> b \<and> b \<le> ch CHR ''Z'' then Some (unat (b - ch CHR ''A''))
      else if ch CHR ''0'' \<le> b \<and> b \<le> ch CHR ''9'' then Some (unat (b - ch CHR ''0'') + punyTMax)
      else None)"

definition punyEncodeDigit :: "nat \<Rightarrow> byte" where
  "punyEncodeDigit d =
     (if d < punyTMax then of_nat (97 + d) else of_nat (48 + d - punyTMax))"

definition punyThreshold :: "nat \<Rightarrow> nat \<Rightarrow> nat" where
  "punyThreshold k bias =
     (if k \<le> bias then punyTMin else if k \<ge> bias + punyTMax then punyTMax else k - bias)"

section \<open>Decoding\<close>

text \<open>The inner loop: one variable-length integer, with the bytes that follow it.\<close>

fun decode_int :: "nat \<Rightarrow> nat \<Rightarrow> nat \<Rightarrow> nat \<Rightarrow> bytes \<Rightarrow> (nat \<times> bytes) option" where
  "decode_int i w k bias [] = None"
| "decode_int i w k bias (b # encoded) =
     (case punyDigitValue b of
        None \<Rightarrow> None
      | Some d \<Rightarrow>
          if w = 0 \<or> d > (MaxInt32 - i) div w then None
          else
            let i = i + d * w; t = punyThreshold k bias
            in if d < t then Some (i, encoded)
               else if w > MaxInt32 div (punyBase - t) then None
               else decode_int i (w * (punyBase - t)) (k + punyBase) bias encoded)"

lemma decode_int_shorter: "decode_int i w k bias s = Some (i', r) \<Longrightarrow> length r < length s"
  by (induction i w k bias s rule: decode_int.induct)
    (fastforce simp: Let_def split: option.splits if_splits)+

definition insert_at :: "rune list \<Rightarrow> nat \<Rightarrow> rune \<Rightarrow> rune list" where
  "insert_at output i r = take i output @ [r] @ drop i output"

function decode_loop :: "rune list \<Rightarrow> nat \<Rightarrow> nat \<Rightarrow> nat \<Rightarrow> bytes \<Rightarrow> rune list option" where
  "decode_loop output i n bias encoded =
     (if encoded = [] then Some output
      else
        case decode_int i 1 punyBase bias encoded of
          None \<Rightarrow> None
        | Some (i', encoded') \<Rightarrow>
            let x = length output + 1;
                bias = punyAdapt (i' - i) x (i = 0)
            in if i' div x > MaxInt32 - n then None
               else
                 let n = n + i' div x; i' = i' mod x
                 in if n > MaxRune \<or> 0xD800 \<le> n \<and> n \<le> 0xDFFF then None
                    else decode_loop (insert_at output i' n) (i' + 1) n bias encoded')"
  by auto
termination
  by (relation "measure (\<lambda>(output, i, n, bias, encoded). length encoded)")
    (auto dest: decode_int_shorter)

declare decode_loop.simps [simp del]

text \<open>What precedes and what follows the last delimiter, if there is one.\<close>

definition last_cut :: "bytes \<Rightarrow> (bytes \<times> bytes) option" where
  "last_cut s =
     (if punyDelimiter \<in> set s then
        let after = takeWhile (\<lambda>b. b \<noteq> punyDelimiter) (rev s)
        in Some (take (length s - length after - 1) s, rev after)
      else None)"

definition decodePunycode :: "bytes \<Rightarrow> bytes option" where
  "decodePunycode encoded =
     (case last_cut encoded of
        None \<Rightarrow> map_option string_of (decode_loop [] 0 punyInitialN punyInitialBias encoded)
      | Some (basic, rest) \<Rightarrow>
          if \<exists>b \<in> set basic. b \<ge> 0x80 then None
          else
            map_option string_of
              (decode_loop (map unat basic) 0 punyInitialN punyInitialBias rest))"

section \<open>Encoding\<close>

function encode_int :: "nat \<Rightarrow> nat \<Rightarrow> nat \<Rightarrow> bytes" where
  "encode_int q k bias =
     (let t = punyThreshold k bias
      in if q < t then [punyEncodeDigit q]
         else
           punyEncodeDigit (t + (q - t) mod (punyBase - t)) #
             encode_int ((q - t) div (punyBase - t)) (k + punyBase) bias)"
  by auto
termination
proof (relation "measure fst")
  fix q k bias t assume "t = punyThreshold k bias" "\<not> q < t"
  then have "1 \<le> t" "t \<le> 26" "t \<le> q" by (auto simp: punyThreshold_def puny_defs)
  then have "q - t < q" by simp
  with div_le_dividend have "(q - t) div (punyBase - t) < q" by (rule le_less_trans)
  then show "(((q - t) div (punyBase - t), k + punyBase, bias), q, k, bias) \<in> measure fst"
    by simp
qed simp

declare encode_int.simps [simp del]

record encoder =
  encOut :: bytes
  encDelta :: nat
  encBias :: nat
  encHandled :: nat

text \<open>One pass over the runes, for the code point \<open>n\<close>.\<close>

fun encode_pass :: "nat \<Rightarrow> nat \<Rightarrow> rune list \<Rightarrow> encoder \<Rightarrow> encoder option" where
  "encode_pass basic n [] s = Some s"
| "encode_pass basic n (c # runes) s =
     (if c < n then
        let s = s\<lparr>encDelta := encDelta s + 1\<rparr>
        in if encDelta s > MaxInt32 then None else encode_pass basic n runes s
      else if c > n then encode_pass basic n runes s
      else
        encode_pass basic n runes
          (s\<lparr>encOut := encOut s @ encode_int (encDelta s) punyBase (encBias s),
             encBias := punyAdapt (encDelta s) (encHandled s + 1) (encHandled s = basic),
             encDelta := 0, encHandled := encHandled s + 1\<rparr>))"

definition next_rune :: "nat \<Rightarrow> rune list \<Rightarrow> nat" where
  "next_rune n runes = foldl (\<lambda>m r. if r \<ge> n \<and> r < m then r else m) (MaxRune + 1) runes"

fun encode_loop :: "nat \<Rightarrow> nat \<Rightarrow> rune list \<Rightarrow> nat \<Rightarrow> encoder \<Rightarrow> bytes option" where
  "encode_loop fuel basic runes n s =
     (if encHandled s < length runes then
        (case fuel of
           0 \<Rightarrow> None
         | Suc fuel \<Rightarrow>
             let m = next_rune n runes
             in if m - n > (MaxInt32 - encDelta s) div (encHandled s + 1) then None
                else
                  (case encode_pass basic m runes
                      (s\<lparr>encDelta := encDelta s + (m - n) * (encHandled s + 1)\<rparr>) of
                     None \<Rightarrow> None
                   | Some s \<Rightarrow>
                       encode_loop fuel basic runes (m + 1) (s\<lparr>encDelta := encDelta s + 1\<rparr>)))
      else Some (encOut s))"

declare encode_loop.simps [simp del]

definition encodePunycode :: "bytes \<Rightarrow> bytes option" where
  "encodePunycode label =
     (let runes = runes_of label;
          out = map of_nat (filter (\<lambda>r. r < 0x80) runes);
          basic = length out
      in encode_loop (length runes) basic runes punyInitialN
           \<lparr>encOut = (if basic > 0 then out @ [punyDelimiter] else out), encDelta = 0,
            encBias = punyInitialBias, encHandled = basic\<rparr>)"

end
