(* ===== verification/Hostname.thy ===== *)
theory Hostname
  imports Punycode
begin

text \<open>
  The hostname formats of \<open>src/pkg/json/schema/format/hostname.go\<close>. The tables of Go's
  \<open>unicode\<close> package and \<open>netip.ParseAddr\<close> are parameters: a record of the classes and scripts
  the code asks for, and the predicate of the strings that parse as an address. A label's check
  answers its Unicode form and the length of its ASCII form, or \<open>None\<close>.
\<close>

record unicode =
  cat_L :: "rune \<Rightarrow> bool"
  cat_M :: "rune \<Rightarrow> bool"
  cat_Nd :: "rune \<Rightarrow> bool"
  cat_Nl :: "rune \<Rightarrow> bool"
  cat_Mn :: "rune \<Rightarrow> bool"
  Greek :: "rune \<Rightarrow> bool"
  Hebrew :: "rune \<Rightarrow> bool"
  Hiragana :: "rune \<Rightarrow> bool"
  Katakana :: "rune \<Rightarrow> bool"
  Han :: "rune \<Rightarrow> bool"
  Arabic :: "rune \<Rightarrow> bool"
  Syriac :: "rune \<Rightarrow> bool"
  Thaana :: "rune \<Rightarrow> bool"
  Nko :: "rune \<Rightarrow> bool"
  Mandaic :: "rune \<Rightarrow> bool"
  Samaritan :: "rune \<Rightarrow> bool"
  Adlam :: "rune \<Rightarrow> bool"
  Mongolian :: "rune \<Rightarrow> bool"
  Phags_Pa :: "rune \<Rightarrow> bool"

section \<open>ASCII labels\<close>

definition acePrefix :: bytes where "acePrefix = str ''xn--''"

definition maxLabelLength :: nat where "maxLabelLength = 63"

definition maxHostnameLength :: nat where "maxHostnameLength = 253"

definition ldh_byte :: "byte \<Rightarrow> bool" where
  "ldh_byte b \<longleftrightarrow> lower_byte b \<or> upper_byte b \<or> digit_byte b \<or> b = ch CHR ''-''"

definition isLDHString :: "bytes \<Rightarrow> bool" where
  "isLDHString s = list_all ldh_byte s"

definition isASCIIString :: "bytes \<Rightarrow> bool" where
  "isASCIIString s = list_all (\<lambda>b. b AND 0x80 = 0) s"

definition hasACEPrefix :: "bytes \<Rightarrow> bool" where
  "hasACEPrefix label \<longleftrightarrow>
     length label \<ge> length acePrefix \<and>
     (label ! 0 = ch CHR ''x'' \<or> label ! 0 = ch CHR ''X'') \<and>
     (label ! 1 = ch CHR ''n'' \<or> label ! 1 = ch CHR ''N'') \<and>
     label ! 2 = ch CHR ''-'' \<and> label ! 3 = ch CHR ''-''"

section \<open>Unicode labels\<close>

definition viramaRunes :: "rune list" where
  "viramaRunes =
     [0x94d, 0x9cd, 0xa4d, 0xacd, 0xb4d, 0xbcd, 0xc4d, 0xccd, 0xd3b, 0xd3c, 0xd4d, 0xdca,
      0xe3a, 0xeba, 0xf84, 0x1039, 0x103a, 0x1714, 0x1715, 0x1734, 0x17d2, 0x1a60, 0x1b44, 0x1baa,
      0x1bab, 0x1bf2, 0x1bf3, 0x2d7f, 0xa806, 0xa82c, 0xa8c4, 0xa953, 0xa9c0, 0xaaf6, 0xabed,
      0x10a3f, 0x11046, 0x11070, 0x1107f, 0x110b9, 0x11133, 0x11134, 0x111c0, 0x11235,
      0x112ea, 0x1134d, 0x11442, 0x114c2, 0x115bf, 0x1163f, 0x116b6, 0x1172b, 0x11839,
      0x119e0, 0x11a34, 0x11a47, 0x11a99, 0x11c3f, 0x11d44, 0x11d45, 0x11d97]"

definition joiningScript :: "unicode \<Rightarrow> rune \<Rightarrow> bool" where
  "joiningScript U c \<longleftrightarrow> Arabic U c \<or> Syriac U c \<or> Nko U c \<or> Mandaic U c \<or> Mongolian U c \<or> Phags_Pa U c"

text \<open>The letters next to index \<open>i\<close> on either side, nonspacing marks skipped.\<close>

definition isJoiningContext :: "unicode \<Rightarrow> rune list \<Rightarrow> nat \<Rightarrow> bool" where
  "isJoiningContext U runes i =
     (case dropWhile (cat_Mn U) (rev (take i runes)) of
        [] \<Rightarrow> False
      | c # _ \<Rightarrow>
          if \<not> joiningScript U c then False
          else
            case dropWhile (cat_Mn U) (drop (i + 1) runes) of
              [] \<Rightarrow> False
            | c # _ \<Rightarrow> joiningScript U c)"

definition isArabicIndicDigit :: "rune \<Rightarrow> bool" where
  "isArabicIndicDigit c \<longleftrightarrow> 0x660 \<le> c \<and> c \<le> 0x669"

definition isEuropeanDigit :: "rune \<Rightarrow> bool" where
  "isEuropeanDigit c \<longleftrightarrow> 0x30 \<le> c \<and> c \<le> 0x39 \<or> 0x6f0 \<le> c \<and> c \<le> 0x6f9"

text \<open>The loop over the indexed runes of a label, with its two flags.\<close>

fun unicode_loop :: "unicode \<Rightarrow> rune list \<Rightarrow> (nat \<times> rune) list \<Rightarrow> bool \<Rightarrow> bool \<Rightarrow> bool" where
  "unicode_loop U runes [] sawArabicIndic sawExtended = (\<not> sawArabicIndic \<or> \<not> sawExtended)"
| "unicode_loop U runes ((i, c) # rest) sawArabicIndic sawExtended =
     (if c \<in> set [0x640, 0x7fa, 0x302e, 0x302f, 0x3031, 0x3032, 0x3033, 0x3034, 0x3035, 0x303b] then False
      else if c = 0xb7 then
        if i = 0 \<or> runes ! (i - 1) \<noteq> 0x6c \<or> i + 1 \<ge> length runes \<or> runes ! (i + 1) \<noteq> 0x6c then False
        else unicode_loop U runes rest sawArabicIndic sawExtended
      else if c = 0x375 then
        if i + 1 \<ge> length runes \<or> \<not> Greek U (runes ! (i + 1)) then False
        else unicode_loop U runes rest sawArabicIndic sawExtended
      else if c = 0x5f3 \<or> c = 0x5f4 then
        if i = 0 \<or> \<not> Hebrew U (runes ! (i - 1)) then False
        else unicode_loop U runes rest sawArabicIndic sawExtended
      else if c = 0x30fb then
        if \<not> list_ex (\<lambda>r. Hiragana U r \<or> Katakana U r \<or> Han U r) runes then False
        else unicode_loop U runes rest sawArabicIndic sawExtended
      else if c = 0x200d then
        if i = 0 \<or> runes ! (i - 1) \<notin> set viramaRunes then False
        else unicode_loop U runes rest sawArabicIndic sawExtended
      else if c = 0x200c then
        if i = 0 then False
        else if runes ! (i - 1) \<notin> set viramaRunes \<and> \<not> isJoiningContext U runes i then False
        else unicode_loop U runes rest sawArabicIndic sawExtended
      else if c \<in> set [0x2d, 0x6fd, 0x6fe, 0xf0b, 0x3007] then
        unicode_loop U runes rest sawArabicIndic sawExtended
      else
        let sawArabicIndic = (if 0x660 \<le> c \<and> c \<le> 0x669 then True else sawArabicIndic);
            sawExtended = (if 0x6f0 \<le> c \<and> c \<le> 0x6f9 then True else sawExtended)
        in if \<not> (cat_L U c \<or> cat_M U c \<or> cat_Nd U c \<or> cat_Nl U c) then False
           else unicode_loop U runes rest sawArabicIndic sawExtended)"

definition isValidUnicodeLabel :: "unicode \<Rightarrow> bytes \<Rightarrow> bool" where
  "isValidUnicodeLabel U label =
     (let runes = runes_of label
      in if length runes = 0 then False
         else if cat_M U (runes ! 0) then False
         else if length runes \<ge> 4 \<and> runes ! 2 = 0x2d \<and> runes ! 3 = 0x2d then False
         else unicode_loop U runes (List.enumerate 0 runes) False False)"

section \<open>The bidi rule\<close>

definition isRTLRune :: "unicode \<Rightarrow> rune \<Rightarrow> bool" where
  "isRTLRune U c =
     (if isArabicIndicDigit c \<or> isEuropeanDigit c \<or> cat_M U c then False
      else Hebrew U c \<or> Arabic U c \<or> Syriac U c \<or> Thaana U c \<or> Nko U c \<or> Mandaic U c \<or>
           Samaritan U c \<or> Adlam U c)"

text \<open>The scan of a label's runes: what it saw of the two digit types, or \<open>None\<close>.\<close>

fun bidi_scan :: "unicode \<Rightarrow> bool \<Rightarrow> rune list \<Rightarrow> bool \<Rightarrow> bool \<Rightarrow> (bool \<times> bool) option" where
  "bidi_scan U rtl [] sawEuropean sawArabicIndic = Some (sawEuropean, sawArabicIndic)"
| "bidi_scan U rtl (c # runes) sawEuropean sawArabicIndic =
     (if isArabicIndicDigit c then bidi_scan U rtl runes sawEuropean True
      else if isEuropeanDigit c then bidi_scan U rtl runes True sawArabicIndic
      else if \<not> rtl \<and> isRTLRune U c then None
      else bidi_scan U rtl runes sawEuropean sawArabicIndic)"

definition isValidBidiLabel :: "unicode \<Rightarrow> bytes \<Rightarrow> bool" where
  "isValidBidiLabel U label =
     (let runes = runes_of label
      in if length runes = 0 then False
         else
           let rtl = isRTLRune U (runes ! 0)
           in if \<not> rtl \<and> \<not> cat_L U (runes ! 0) then False
              else
                (case bidi_scan U rtl runes False False of
                   None \<Rightarrow> False
                 | Some (sawEuropean, sawArabicIndic) \<Rightarrow>
                     if rtl \<and> sawEuropean \<and> sawArabicIndic then False
                     else
                       (case dropWhile (cat_M U) (rev runes) of
                          [] \<Rightarrow> False
                        | c # _ \<Rightarrow>
                            if rtl then isRTLRune U c \<or> isEuropeanDigit c \<or> isArabicIndicDigit c
                            else cat_L U c \<or> isEuropeanDigit c)))"

definition isValidBidiDomain :: "unicode \<Rightarrow> bytes list \<Rightarrow> bool" where
  "isValidBidiDomain U uLabels =
     (let bidi = list_ex (\<lambda>label. list_ex (\<lambda>c. isRTLRune U c \<or> isArabicIndicDigit c) (runes_of label)) uLabels
      in if \<not> bidi then True else list_all (isValidBidiLabel U) uLabels)"

section \<open>Labels and hostnames\<close>

text \<open>\<open>strings.EqualFold\<close> of two ASCII strings.\<close>

definition equal_fold :: "bytes \<Rightarrow> bytes \<Rightarrow> bool" where
  "equal_fold s t \<longleftrightarrow> map ascii_lower s = map ascii_lower t"

text \<open>The ASCII form of a label and the Unicode form, before the check of the length.\<close>

definition label_forms :: "unicode \<Rightarrow> bytes \<Rightarrow> (bytes \<times> bytes) option" where
  "label_forms U label =
     (if hasACEPrefix label then
        if \<not> isLDHString label then None
        else
          (case decodePunycode (drop (length acePrefix) label) of
             None \<Rightarrow> None
           | Some decoded \<Rightarrow>
               (case encodePunycode decoded of
                  None \<Rightarrow> None
                | Some reencoded \<Rightarrow>
                    if \<not> equal_fold reencoded (drop (length acePrefix) label) then None
                    else if isASCIIString decoded \<or> \<not> isValidUnicodeLabel U decoded then None
                    else Some (decoded, label)))
      else if isASCIIString label then
        if length label \<ge> 4 \<and> label ! 2 = ch CHR ''-'' \<and> label ! 3 = ch CHR ''-'' then None
        else if \<not> isLDHString label then None
        else Some (label, label)
      else
        if \<not> isValidUnicodeLabel U label then None
        else
          (case encodePunycode label of
             None \<Rightarrow> None
           | Some encoded \<Rightarrow> Some (label, acePrefix @ encoded)))"

definition checkHostnameLabel :: "unicode \<Rightarrow> bytes \<Rightarrow> (bytes \<times> nat) option" where
  "checkHostnameLabel U label =
     (if label = [] then None
      else if has_prefix label (str ''-'') \<or> has_suffix label (str ''-'') then None
      else
        (case label_forms U label of
           None \<Rightarrow> None
         | Some (uLabel, aceLabel) \<Rightarrow>
             if length aceLabel > maxLabelLength then None else Some (uLabel, length aceLabel)))"

text \<open>\<open>strings.ReplaceAll\<close> for a pattern that is not empty.\<close>

function replace_all :: "bytes \<Rightarrow> bytes \<Rightarrow> bytes \<Rightarrow> bytes" where
  "replace_all s pattern r =
     (if s = [] then []
      else if pattern \<noteq> [] \<and> has_prefix s pattern then r @ replace_all (drop (length pattern) s) pattern r
      else hd s # replace_all (tl s) pattern r)"
  by auto
termination by (relation "measure (\<lambda>(s, p, r). length s)") auto

declare replace_all.simps [simp del]

definition normalize_stops :: "bytes \<Rightarrow> bytes" where
  "normalize_stops s =
     (let s = replace_all s (encode_rune 0x3002) (str ''.'');
          s = replace_all s (encode_rune 0xff0e) (str ''.'')
      in replace_all s (encode_rune 0xff61) (str ''.''))"

text \<open>The loop over the labels: the Unicode forms and the total length.\<close>

fun label_loop :: "unicode \<Rightarrow> bytes list \<Rightarrow> bytes list \<Rightarrow> nat \<Rightarrow> (bytes list \<times> nat) option" where
  "label_loop U [] uLabels totalLength = Some (uLabels, totalLength)"
| "label_loop U (label # labels) uLabels totalLength =
     (case checkHostnameLabel U label of
        None \<Rightarrow> None
      | Some (uLabel, aceLength) \<Rightarrow>
          let totalLength = (if totalLength > 0 then totalLength + 1 else totalLength)
          in label_loop U labels (uLabels @ [uLabel]) (totalLength + aceLength))"

definition isValidHostname :: "unicode \<Rightarrow> (bytes \<Rightarrow> bool) \<Rightarrow> bytes \<Rightarrow> bool \<Rightarrow> bool" where
  "isValidHostname U is_addr s idn =
     (if is_addr s then True
      else if ch CHR ''_'' \<in> set s then False
      else if \<not> idn \<and> \<not> isASCIIString s then False
      else
        let s = (if \<not> idn then s else normalize_stops s)
        in if has_suffix s (str ''.'') then False
           else
             (case label_loop U (split_byte s (ch CHR ''.'')) [] 0 of
                None \<Rightarrow> False
              | Some (uLabels, totalLength) \<Rightarrow>
                  if totalLength > maxHostnameLength then False
                  else if idn \<and> \<not> isValidBidiDomain U uLabels then False
                  else True))"

definition hostnameFormat :: "unicode \<Rightarrow> (bytes \<Rightarrow> bool) \<Rightarrow> any_value \<Rightarrow> bytes option" where
  "hostnameFormat U is_addr inst =
     (case inst of Other_Any \<Rightarrow> None
      | String_Any s \<Rightarrow> if \<not> isValidHostname U is_addr s False then Some s else None)"

definition idnHostnameFormat :: "unicode \<Rightarrow> (bytes \<Rightarrow> bool) \<Rightarrow> any_value \<Rightarrow> bytes option" where
  "idnHostnameFormat U is_addr inst =
     (case inst of Other_Any \<Rightarrow> None
      | String_Any s \<Rightarrow> if \<not> isValidHostname U is_addr s True then Some s else None)"

end
