(* ===== verification/Punycode_Roundtrip.thy ===== *)
theory Punycode_Roundtrip
  imports Punycode
begin

text \<open>
  Decoding what the Punycode encoder writes. The bias stays below 216 (\<open>punyAdapt_le\<close>), so the
  weights of the variable-length integers never overflow (\<open>decode_encode_int\<close>); the decoder's
  insertions are then followed along the encoder's passes (\<open>pass_inv\<close>): at every rune the decoder has
  inserted exactly the runes the encoder has handled. The distances stay below \<open>MaxInt32\<close> for labels of
  at most 1900 runes, and every pass handles a rune (\<open>pass_progress\<close>), so the fuel suffices.
\<close>

section \<open>Digits and thresholds\<close>

lemma digit_roundtrip:
  assumes "d < punyBase"
  shows "punyDigitValue (punyEncodeDigit d) = Some d" "punyEncodeDigit d \<noteq> punyDelimiter"
proof -
  have d: "d < 36" using assms by (simp add: puny_defs)
  have u: "unat (of_nat n :: byte) = n" if "n < 256" for n using that by (simp add: unat_of_nat)
  have le: "of_nat a \<le> (of_nat b :: byte) \<longleftrightarrow> a \<le> b" if "a < 256" "b < 256" for a b
    using that by (simp add: word_le_nat_alt u)
  have diff: "unat (of_nat (c + a) - of_nat c :: byte) = a" if "c + a < 256" for a c
    using that by (simp add: u)
  have n: "ch CHR ''a'' = of_nat 97" "ch CHR ''z'' = of_nat 122" "ch CHR ''A'' = of_nat 65"
    "ch CHR ''Z'' = of_nat 90" "ch CHR ''0'' = of_nat 48" "ch CHR ''9'' = of_nat 57" by simp_all
  show "punyDigitValue (punyEncodeDigit d) = Some d"
  proof (cases "d < 26")
    case True
    then show ?thesis
      by (simp only: punyDigitValue_def punyEncodeDigit_def puny_defs n le diff if_True)
        (simp add: le diff)
  next
    case False
    then obtain e where e: "d = 26 + e" "e < 10" using d le_Suc_ex [of 26 d] by auto
    have s: "48 + d - 26 = 48 + e" using e by simp
    have "\<not> of_nat 97 \<le> (of_nat (48 + e) :: byte)" "\<not> of_nat 65 \<le> (of_nat (48 + e) :: byte)"
      "of_nat 48 \<le> (of_nat (48 + e) :: byte)" "of_nat (48 + e) \<le> (of_nat 57 :: byte)"
      using e by (simp_all only: le)
    moreover have "unat (of_nat (48 + e) - of_nat 48 :: byte) = e" using e by (intro diff) simp
    moreover have "48 + (26 + e) - 26 = 48 + e" by simp
    ultimately show ?thesis using False e
      by (simp only: punyDigitValue_def punyEncodeDigit_def puny_defs n if_True if_False simp_thms add.commute)
  qed
  show "punyEncodeDigit d \<noteq> punyDelimiter"
  proof
    assume "punyEncodeDigit d = punyDelimiter"
    then have "unat (punyEncodeDigit d) = 45" by (simp add: punyDelimiter_def)
    then show False using d u [of "97 + d"] u [of "48 + d - 26"]
      by (auto simp: punyEncodeDigit_def puny_defs split: if_splits)
  qed
qed

lemma threshold_bounds: "1 \<le> punyThreshold k bias" "punyThreshold k bias \<le> 26"
  by (auto simp: punyThreshold_def puny_defs)

lemma threshold_late: "bias + 18 \<le> k \<Longrightarrow> 18 \<le> punyThreshold k bias"
  by (auto simp: punyThreshold_def puny_defs)

section \<open>The bias\<close>

lemma adapt_loop_bound:
  "delta < 456 * 35 ^ j \<Longrightarrow> adapt_loop delta k = (d, k') \<Longrightarrow> d \<le> 455 \<and> k' \<le> k + 36 * j"
proof (induction j arbitrary: delta k)
  case 0
  then show ?case by (subst (asm) adapt_loop.simps) (simp add: puny_defs)
next
  case (Suc j)
  show ?case
  proof (cases "delta \<le> 455")
    case True
    then show ?thesis using Suc.prems(2) by (subst (asm) adapt_loop.simps) (auto simp: puny_defs)
  next
    case False
    then have "adapt_loop (delta div 35) (k + 36) = (d, k')"
      using Suc.prems(2) by (subst (asm) adapt_loop.simps) (simp add: puny_defs)
    moreover have "delta div 35 < 456 * 35 ^ j" using Suc.prems(1) by (simp add: div_less_iff_less_mult)
    ultimately show ?thesis using Suc.IH [of "delta div 35" "k + 36"] by simp
  qed
qed

lemma punyAdapt_le:
  assumes "delta \<le> MaxInt32" "0 < points"
  shows "punyAdapt delta points first \<le> 215"
proof -
  let ?d = "if first then delta div punyDamp else delta div 2"
  let ?e = "?d + ?d div points"
  have "?d \<le> delta div 2" by (auto simp: puny_defs intro: div_le_mono2)
  moreover have "?d div points \<le> ?d" by simp
  ultimately have "?e \<le> delta" using div_times_less_eq_dividend [of delta 2] by linarith
  then have e: "?e < 456 * 35 ^ 5" using assms(1) by (simp add: MaxInt32_def)
  obtain d k where dk: "adapt_loop ?e 0 = (d, k)" by (cases "adapt_loop ?e 0")
  then have k: "k \<le> 180" using adapt_loop_bound [OF e dk] by simp
  have "36 * d div (d + 38) \<le> 35"
    by (rule less_Suc_eq_le [THEN iffD1], rule div_less_iff_less_mult [THEN iffD2]) simp_all
  then show ?thesis using k by (simp add: punyAdapt_def Let_def dk puny_defs)
qed

section \<open>Integers\<close>

text \<open>The weights: \<open>35 ^ 6\<close> is below \<open>MaxInt32\<close>, and from the seventh digit on the threshold is 18 or more.\<close>

lemma decode_encode_int:
  assumes "bias \<le> 215" "0 < w" "w \<le> 35 ^ j" "k = 36 * (j + 1)" "i + q * w \<le> MaxInt32"
  shows "decode_int i w k bias (encode_int q k bias @ rest) = Some (i + q * w, rest)"
  using assms
proof (induction q k bias arbitrary: i w j rule: encode_int.induct)
  case (1 q k bias)
  let ?t = "punyThreshold k bias"
  let ?b = "punyBase - ?t"
  have t: "1 \<le> ?t" "?t \<le> 26" by (rule threshold_bounds)+
  have fits: "\<not> d > (MaxInt32 - i) div w" if "d \<le> q" for d
  proof -
    have "d * w \<le> MaxInt32 - i" using 1(6) mult_le_mono1 [OF that, of w] by linarith
    then show ?thesis using 1(3) by (simp add: not_less less_eq_div_iff_mult_less_eq)
  qed
  show ?case
  proof (cases "q < ?t")
    case True
    then show ?thesis using digit_roundtrip(1) [of q] t fits [of q] 1(3)
      by (simp add: encode_int.simps Let_def puny_defs)
  next
    case False
    define d q' where "d = ?t + (q - ?t) mod ?b" and "q' = (q - ?t) div ?b"
    have b: "0 < ?b" "?b \<le> 35" using t by (simp_all add: puny_defs)
    have dq: "d + q' * ?b = q" using False div_mult_mod_eq [of "q - ?t" ?b] unfolding d_def q'_def by linarith
    have d: "d < punyBase" "?t \<le> d" "d \<le> q"
      using mod_less_divisor [OF b(1), of "q - ?t"] t dq unfolding d_def puny_defs by linarith+
    have total: "(i + d * w) + q' * (w * ?b) = i + q * w"
      using arg_cong [OF dq, of "\<lambda>x. x * w"] by (simp add: algebra_simps)
    have weight: "w * ?b \<le> MaxInt32"
    proof (cases "18 \<le> ?t")
      case True
      then have "?b \<le> q" using d t by (simp add: puny_defs)
      then have "w * ?b \<le> q * w" by simp
      then show ?thesis using 1(6) by linarith
    next
      case False
      then have "k < bias + 18" using threshold_late [of bias k] by linarith
      then have "j \<le> 5" using 1(2,5) by simp
      then have "35 ^ j \<le> (35 :: nat) ^ 5" by (intro power_increasing) simp_all
      then have "w * ?b \<le> 35 ^ 5 * 35" using 1(4) b(2) by (intro mult_le_mono) simp_all
      then show ?thesis by (simp add: MaxInt32_def)
    qed
    have IH: "decode_int (i + d * w) (w * ?b) (k + punyBase) bias (encode_int q' (k + punyBase) bias @ rest) =
      Some (i + d * w + q' * (w * ?b), rest)"
      unfolding q'_def
    proof (rule 1(1) [OF refl False, of _ "j + 1"])
      show "w * ?b \<le> 35 ^ (j + 1)" using mult_le_mono [OF 1(4) b(2)] by simp
      show "i + d * w + (q - ?t) div ?b * (w * ?b) \<le> MaxInt32" using total 1(6) by (simp add: q'_def)
    qed (use 1 b in \<open>simp_all add: puny_defs\<close>)
    have enc: "encode_int q k bias = punyEncodeDigit d # encode_int q' (k + punyBase) bias"
      using False by (subst encode_int.simps) (simp add: Let_def d_def q'_def)
    have "\<not> w > MaxInt32 div ?b" using weight b(1) by (simp add: not_less less_eq_div_iff_mult_less_eq)
    then show ?thesis
      using digit_roundtrip(1) [OF d(1)] fits [OF d(3)] d(2) 1(3) IH total
      unfolding enc by (simp add: Let_def)
  qed
qed

lemma encode_int_digits: "punyDelimiter \<notin> set (encode_int q k bias) \<and> encode_int q k bias \<noteq> []"
proof (induction q k bias rule: encode_int.induct)
  case (1 q k bias)
  let ?t = "punyThreshold k bias"
  have t: "1 \<le> ?t" "?t \<le> 26" by (rule threshold_bounds)+
  then have "?t + (q - ?t) mod (punyBase - ?t) < punyBase"
    using mod_less_divisor [of "punyBase - ?t" "q - ?t"] unfolding puny_defs by linarith
  from digit_roundtrip(2) [OF this] have "punyEncodeDigit (?t + (q - ?t) mod (punyBase - ?t)) \<noteq> punyDelimiter" .
  moreover have "punyEncodeDigit q \<noteq> punyDelimiter" if "q < ?t"
    using digit_roundtrip(2) [of q] that t by (simp add: puny_defs)
  ultimately show ?case using 1 by (subst (1 2) encode_int.simps) (auto simp: Let_def)
qed

section \<open>One pass\<close>

text \<open>
  The pass for the code point \<open>m\<close> stands between the runes \<open>p\<close> and the runes \<open>q\<close>. The decoder has
  then inserted the runes up to \<open>m\<close> of \<open>p\<close> and those below \<open>m\<close> of \<open>q\<close>.
\<close>

definition decoded_runes :: "nat \<Rightarrow> rune list \<Rightarrow> rune list \<Rightarrow> rune list" where
  "decoded_runes m p q = filter (\<lambda>c. c \<le> m) p @ filter (\<lambda>c. c < m) q"

text \<open>The encoder's state \<open>e\<close> against the decoder's position \<open>i\<close> and code point \<open>n\<close>.\<close>

definition pass_inv :: "nat \<Rightarrow> nat \<Rightarrow> rune list \<Rightarrow> rune list \<Rightarrow> encoder \<Rightarrow> nat \<Rightarrow> nat \<Rightarrow> bool" where
  "pass_inv basic m p q e i n \<longleftrightarrow>
     encHandled e = length (decoded_runes m p q) \<and>
     i + encDelta e = (m - n) * (encHandled e + 1) + length (filter (\<lambda>c. c \<le> m) p) \<and>
     (i = 0 \<longleftrightarrow> encHandled e = basic) \<and> basic \<le> encHandled e \<and> encBias e \<le> 215 \<and> 128 \<le> n \<and> n \<le> m"

text \<open>The longest labels whose distances stay below \<open>MaxInt32\<close>.\<close>

definition short_runes :: "rune list \<Rightarrow> bool" where
  "short_runes cs \<longleftrightarrow> length cs \<le> 1900 \<and> list_all scalar cs"

lemma pass_inv_bound:
  assumes "pass_inv basic m p q e i n" "m \<le> MaxRune" "length (p @ q) \<le> 1900"
  shows "i + encDelta e < MaxInt32"
proof -
  have "length (filter P r) \<le> length r" for P and r :: "rune list" by simp
  then have h: "encHandled e \<le> 1900" "length (filter (\<lambda>c. c \<le> m) p) \<le> 1900"
    using assms(1,3) add_mono [of "length (filter (\<lambda>c. c \<le> m) p)" "length p" "length (filter (\<lambda>c. c < m) q)" "length q"]
    by (simp_all add: pass_inv_def decoded_runes_def le_trans [OF length_filter_le])
  have "(m - n) * (encHandled e + 1) \<le> 1114111 * 1901"
    using assms(2) h by (intro mult_le_mono) (simp_all add: MaxRune_def)
  then show ?thesis using assms(1) h by (simp add: pass_inv_def MaxInt32_def)
qed

lemma decode_emitted:
  assumes inv: "pass_inv basic m p (m # q) e i n" and m: "scalar m" "length (p @ m # q) \<le> 1900"
  shows "decode_loop (decoded_runes m p (m # q)) i n (encBias e)
      (encode_int (encDelta e) punyBase (encBias e) @ rest) =
    decode_loop (decoded_runes m (p @ [m]) q) (length (filter (\<lambda>c. c \<le> m) p) + 1) m
      (punyAdapt (encDelta e) (encHandled e + 1) (encHandled e = basic)) rest"
proof -
  let ?pos = "length (filter (\<lambda>c. c \<le> m) p)"
  have le: "m \<le> MaxRune" using m scalar_le by (simp add: MaxRune_def)
  then have bound: "i + encDelta e < MaxInt32" using pass_inv_bound [OF inv _ m(2)] by simp
  have int: "decode_int i 1 punyBase (encBias e) (encode_int (encDelta e) punyBase (encBias e) @ rest) =
      Some (i + encDelta e, rest)"
    using decode_encode_int [of "encBias e" 1 0 punyBase i "encDelta e" rest] inv bound
    by (simp add: pass_inv_def puny_defs)
  have h: "length (decoded_runes m p (m # q)) = encHandled e" "?pos < encHandled e + 1"
    using inv by (simp_all add: pass_inv_def decoded_runes_def)
  have split: "(i + encDelta e) div (encHandled e + 1) = m - n" "(i + encDelta e) mod (encHandled e + 1) = ?pos"
    using inv h(2) by (simp_all only: pass_inv_def add.commute [of _ ?pos] div_mult_self1 mod_mult_self1) simp_all
  have "insert_at (decoded_runes m p (m # q)) ?pos m = decoded_runes m (p @ [m]) q"
    by (simp add: insert_at_def decoded_runes_def)
  moreover have "i = 0 \<longleftrightarrow> encHandled e = basic" "n + (m - n) = m" using inv by (simp_all add: pass_inv_def)
  moreover have "\<not> m - n > MaxInt32 - n" "\<not> (m > MaxRune \<or> 0xD800 \<le> m \<and> m \<le> 0xDFFF)"
    using le m(1) by (auto simp: MaxInt32_def MaxRune_def scalar_def)
  ultimately show ?thesis using encode_int_digits [of "encDelta e" punyBase "encBias e"] int split
    by (subst decode_loop.simps) (auto simp: h(1) Let_def)
qed

lemma encode_pass_decodes:
  assumes "pass_inv basic m p q e i n" "scalar m" "length (p @ q) \<le> 1900"
  shows "\<exists>e' ds i' n'. encode_pass basic m q e = Some e' \<and> encOut e' = encOut e @ ds \<and> punyDelimiter \<notin> set ds \<and>
    pass_inv basic m (p @ q) [] e' i' n' \<and>
    (\<forall>rest. decode_loop (decoded_runes m p q) i n (encBias e) (ds @ rest) =
       decode_loop (decoded_runes m (p @ q) []) i' n' (encBias e') rest)"
  using assms
proof (induction q arbitrary: p e i n)
  case Nil
  then show ?case by (auto intro!: exI [of _ "[]"])
next
  case (Cons c q)
  have bound: "i + encDelta e < MaxInt32"
    using pass_inv_bound [OF Cons.prems(1) _ Cons.prems(3)] scalar_le [OF Cons.prems(2)] by (simp add: MaxRune_def)
  have len: "length ((p @ [c]) @ q) \<le> 1900" using Cons.prems(3) by simp
  consider (below) "c < m" | (above) "c > m" | (hit) "c = m" by linarith
  then show ?case
  proof cases
    case below
    let ?e = "e\<lparr>encDelta := encDelta e + 1\<rparr>"
    have same: "decoded_runes m (p @ [c]) q = decoded_runes m p (c # q)"
      using below by (simp add: decoded_runes_def)
    have "pass_inv basic m (p @ [c]) q ?e i n"
      using Cons.prems(1) below by (simp add: pass_inv_def same)
    from Cons.IH [OF this Cons.prems(2) len] show ?thesis using below bound by (simp add: same)
  next
    case above
    have same: "decoded_runes m (p @ [c]) q = decoded_runes m p (c # q)"
      using above by (simp add: decoded_runes_def)
    have "pass_inv basic m (p @ [c]) q e i n"
      using Cons.prems(1) above by (simp add: pass_inv_def same)
    from Cons.IH [OF this Cons.prems(2) len] show ?thesis using above by (simp add: same)
  next
    case hit
    let ?ds = "encode_int (encDelta e) punyBase (encBias e)"
    let ?e = "e\<lparr>encOut := encOut e @ ?ds,
      encBias := punyAdapt (encDelta e) (encHandled e + 1) (encHandled e = basic),
      encDelta := 0, encHandled := encHandled e + 1\<rparr>"
    let ?i = "length (filter (\<lambda>c. c \<le> m) p) + 1"
    note emitted = decode_emitted [OF Cons.prems(1) [unfolded hit] Cons.prems(2) Cons.prems(3) [unfolded hit]]
    have "encDelta e \<le> MaxInt32" using bound by linarith
    then have "punyAdapt (encDelta e) (encHandled e + 1) (encHandled e = basic) \<le> 215" by (rule punyAdapt_le) simp
    then have "pass_inv basic m (p @ [m]) q ?e ?i m"
      using Cons.prems(1) hit
      by (simp add: pass_inv_def decoded_runes_def)
    from Cons.IH [OF this Cons.prems(2) len [unfolded hit]] obtain e' ds i' n' where
      "encode_pass basic m q ?e = Some e'" "encOut e' = encOut e @ ?ds @ ds" "punyDelimiter \<notin> set ds"
      "pass_inv basic m ((p @ [m]) @ q) [] e' i' n'"
      "\<forall>rest. decode_loop (decoded_runes m (p @ [m]) q) ?i m (encBias ?e) (ds @ rest) =
         decode_loop (decoded_runes m ((p @ [m]) @ q) []) i' n' (encBias e') rest" by auto
    then show ?thesis
      using hit emitted encode_int_digits [of "encDelta e" punyBase "encBias e"]
      by (intro exI [of _ e'] exI [of _ "?ds @ ds"] exI [of _ i'] exI [of _ n']) simp
  qed
qed

section \<open>All passes\<close>

lemma next_rune_is:
  assumes "c \<in> set cs" "n \<le> c" "list_all (\<lambda>c. c \<le> MaxRune) cs"
  shows "next_rune n cs \<in> set cs" "n \<le> next_rune n cs" "\<And>d. d \<in> set cs \<Longrightarrow> n \<le> d \<Longrightarrow> next_rune n cs \<le> d"
proof -
  let ?f = "\<lambda>m r. if r \<ge> n \<and> r < m then r else m"
  have "(foldl ?f m cs = m \<or> foldl ?f m cs \<in> set cs \<and> n \<le> foldl ?f m cs) \<and> foldl ?f m cs \<le> m \<and>
      (\<forall>d \<in> set cs. n \<le> d \<longrightarrow> foldl ?f m cs \<le> d)" for m cs
  proof (induction cs arbitrary: m)
    case (Cons c cs)
    show ?case using Cons.IH [of "?f m c"] by (auto split: if_splits)
  qed simp
  from this [of "MaxRune + 1" cs] have all:
    "next_rune n cs = MaxRune + 1 \<or> next_rune n cs \<in> set cs \<and> n \<le> next_rune n cs"
    "\<And>d. d \<in> set cs \<Longrightarrow> n \<le> d \<Longrightarrow> next_rune n cs \<le> d" by (auto simp: next_rune_def)
  have "c \<le> MaxRune" using assms(1,3) by (simp add: list_all_iff)
  then have "next_rune n cs \<noteq> MaxRune + 1" using all(2) [OF assms(1,2)] by simp
  then show "next_rune n cs \<in> set cs" "n \<le> next_rune n cs" using all(1) by auto
  show "\<And>d. d \<in> set cs \<Longrightarrow> n \<le> d \<Longrightarrow> next_rune n cs \<le> d" by (rule all(2))
qed

lemma encode_loop_done:
  assumes "pass_inv basic n [] cs e i n'" "\<not> encHandled e < length cs"
  shows "encode_loop fuel basic cs n e = Some (encOut e @ [])"
    "decode_loop (decoded_runes n [] cs) i n' (encBias e) [] = Some cs"
proof -
  have "length cs \<le> length (filter (\<lambda>c. c < n) cs)"
    using assms by (simp add: pass_inv_def decoded_runes_def)
  then have "filter (\<lambda>c. c < n) cs = cs"
    by (metis filter_id_conv length_filter_less linorder_not_le)
  then show "decode_loop (decoded_runes n [] cs) i n' (encBias e) [] = Some cs"
    by (subst decode_loop.simps) (simp add: decoded_runes_def)
  show "encode_loop fuel basic cs n e = Some (encOut e @ [])"
    using assms(2) by (subst encode_loop.simps) simp
qed

text \<open>The head of a pass: the distance to the least rune not handled yet.\<close>

lemma pass_starts:
  assumes inv: "pass_inv basic n [] cs e i n'" and cs: "short_runes cs" and more: "encHandled e < length cs"
  defines "m \<equiv> next_rune n cs"
  defines "e' \<equiv> e\<lparr>encDelta := encDelta e + (m - n) * (encHandled e + 1)\<rparr>"
  shows "pass_inv basic m [] cs e' i n'" "scalar m" "n \<le> m" "m \<in> set cs"
    "decoded_runes m [] cs = decoded_runes n [] cs"
    "\<not> m - n > (MaxInt32 - encDelta e) div (encHandled e + 1)"
proof -
  have "\<exists>c \<in> set cs. \<not> c < n"
  proof (rule ccontr)
    assume "\<not> (\<exists>c \<in> set cs. \<not> c < n)"
    then have "filter (\<lambda>c. c < n) cs = cs" by (simp add: filter_id_conv)
    then show False using inv more by (simp add: pass_inv_def decoded_runes_def)
  qed
  then obtain c where c: "c \<in> set cs" "n \<le> c" by auto
  have sc: "list_all scalar cs" "length cs \<le> 1900" using cs by (simp_all add: short_runes_def)
  then have "list_all (\<lambda>c. c \<le> MaxRune) cs"
    using scalar_le by (auto simp: MaxRune_def list_all_iff)
  note least = next_rune_is [OF c this, folded m_def]
  show m: "m \<in> set cs" "n \<le> m" "scalar m" using least sc by (auto simp: list_all_iff)
  show same: "decoded_runes m [] cs = decoded_runes n [] cs"
    using least(2,3) by (auto simp: decoded_runes_def intro!: filter_cong) (meson not_le)
  have n: "n' \<le> n" using inv by (simp add: pass_inv_def)
  obtain a b where "n = n' + a" "m = n + b" using le_Suc_ex [OF n] le_Suc_ex [OF m(2)] by blast
  then have diff: "m - n = b" "n - n' = a" "m - n' = a + b" by simp_all
  show inv': "pass_inv basic m [] cs e' i n'"
    using inv n m(2) by (simp add: pass_inv_def same e'_def diff add_mult_distrib)
  have "i + encDelta e' < MaxInt32"
    using pass_inv_bound [OF inv'] scalar_le [OF m(3)] sc by (simp add: MaxRune_def)
  then have "(m - n) * (encHandled e + 1) \<le> MaxInt32 - encDelta e" by (simp add: e'_def)
  then show "\<not> m - n > (MaxInt32 - encDelta e) div (encHandled e + 1)"
    by (simp only: not_less less_eq_div_iff_mult_less_eq zero_less_Suc Suc_eq_plus1 [symmetric])
qed

lemma pass_ends:
  assumes "pass_inv basic m cs [] e i n'"
  shows "pass_inv basic (m + 1) [] cs (e\<lparr>encDelta := encDelta e + 1\<rparr>) i n'"
    "decoded_runes m cs [] = decoded_runes (m + 1) [] cs"
proof -
  have "(\<lambda>c. c < m + 1) = (\<lambda>c. c \<le> m)" by auto
  then show same: "decoded_runes m cs [] = decoded_runes (m + 1) [] cs" by (simp add: decoded_runes_def)
  have h: "encHandled e = length (filter (\<lambda>c. c \<le> m) cs)" "n' \<le> m"
    using assms by (simp_all add: pass_inv_def decoded_runes_def)
  then obtain a where a: "m = n' + a" using le_Suc_ex by blast
  show "pass_inv basic (m + 1) [] cs (e\<lparr>encDelta := encDelta e + 1\<rparr>) i n'"
    using assms h(1) unfolding pass_inv_def same [symmetric] by (simp add: a decoded_runes_def)
qed

text \<open>Every pass handles the rune it is for.\<close>

lemma pass_progress:
  assumes "m \<in> set cs" "pass_inv basic m [] cs e i n" "pass_inv basic m cs [] e' i' n'"
  shows "encHandled e < encHandled e'"
proof -
  have "filter (\<lambda>c. c < m) cs = filter (\<lambda>c. c < m) (filter (\<lambda>c. c \<le> m) cs)" by (auto intro: filter_cong)
  moreover have "length (filter (\<lambda>c. c < m) (filter (\<lambda>c. c \<le> m) cs)) < length (filter (\<lambda>c. c \<le> m) cs)"
    using assms(1) by (intro length_filter_less [of m]) auto
  ultimately show ?thesis using assms(2,3) by (simp add: pass_inv_def decoded_runes_def)
qed

lemma encode_loop_decodes:
  assumes "pass_inv basic n [] cs e i n'" "short_runes cs" "length cs - encHandled e \<le> fuel"
  shows "\<exists>ds. encode_loop fuel basic cs n e = Some (encOut e @ ds) \<and> punyDelimiter \<notin> set ds \<and>
    decode_loop (decoded_runes n [] cs) i n' (encBias e) ds = Some cs"
  using assms
proof (induction fuel arbitrary: n e i n')
  case (0 n e i n')
  then show ?case using encode_loop_done [OF 0(1)] by (intro exI [of _ "[]"]) simp
next
  case (Suc fuel n e i n')
  show ?case
  proof (cases "encHandled e < length cs")
    case False
    then show ?thesis using encode_loop_done [OF Suc.prems(1)] by (intro exI [of _ "[]"]) simp
  next
    case True
    let ?m = "next_rune n cs"
    let ?e = "e\<lparr>encDelta := encDelta e + (?m - n) * (encHandled e + 1)\<rparr>"
    note start = pass_starts [OF Suc.prems(1,2) True]
    have len: "length ([] @ cs) \<le> 1900" using Suc.prems(2) by (simp add: short_runes_def)
    from encode_pass_decodes [OF start(1,2) len] obtain e' ds i' k where
      pass: "encode_pass basic ?m cs ?e = Some e'" "encOut e' = encOut e @ ds" "punyDelimiter \<notin> set ds"
      "pass_inv basic ?m cs [] e' i' k"
      "\<And>rest. decode_loop (decoded_runes ?m [] cs) i n' (encBias e) (ds @ rest) =
         decode_loop (decoded_runes ?m cs []) i' k (encBias e') rest" by auto
    note ends = pass_ends [OF pass(4)]
    have "encHandled e < encHandled e'" using pass_progress [OF start(4,1) pass(4)] by simp
    then have "length cs - encHandled (e'\<lparr>encDelta := encDelta e' + 1\<rparr>) \<le> fuel" using Suc.prems(3) True by simp
    from Suc.IH [OF ends(1) Suc.prems(2) this] obtain ds' where
      "encode_loop fuel basic cs (?m + 1) (e'\<lparr>encDelta := encDelta e' + 1\<rparr>) = Some (encOut e' @ ds')"
      "punyDelimiter \<notin> set ds'"
      "decode_loop (decoded_runes (?m + 1) [] cs) i' k (encBias e') ds' = Some cs" by auto
    then show ?thesis using True pass start(5,6) ends(2)
      by (intro exI [of _ "ds @ ds'"]) (subst encode_loop.simps, simp add: Let_def)
  qed
qed

section \<open>Labels\<close>

lemma last_cut_append: "punyDelimiter \<notin> set ds \<Longrightarrow> last_cut (s @ punyDelimiter # ds) = Some (s, ds)"
proof -
  assume d: "punyDelimiter \<notin> set ds"
  then have "takeWhile (\<lambda>b. b \<noteq> punyDelimiter) (rev ds @ punyDelimiter # rev s) = rev ds"
    by (subst takeWhile_append2) auto
  then show ?thesis by (simp add: last_cut_def)
qed

lemma last_cut_none: "punyDelimiter \<notin> set ds \<Longrightarrow> last_cut ds = None"
  by (simp add: last_cut_def)

lemma scalar_RuneError: "scalar RuneError"
  by (simp add: scalar_def RuneError_def MaxRune_def)

lemma runes_of_scalar: "list_all scalar (runes_of s)"
proof (induction s rule: runes_of.induct)
  case (2 b bs)
  obtain r n where d: "decode_rune (b # bs) = (r, n)" by fastforce
  have "scalar r" using decode_rune_valid(2) [OF d] scalar_RuneError by blast
  then show ?case using 2 d by (simp add: runes_of.simps)
qed (simp add: runes_of.simps)

lemma encode_decode_label:
  assumes "length (runes_of label) \<le> 1900"
  shows "\<exists>ds. encodePunycode label = Some
      (let out = map of_nat (filter (\<lambda>r. r < 0x80) (runes_of label))
       in if out \<noteq> [] then out @ punyDelimiter # ds else ds) \<and> punyDelimiter \<notin> set ds \<and>
    decode_loop (filter (\<lambda>r. r < 0x80) (runes_of label)) 0 punyInitialN punyInitialBias ds = Some (runes_of label)"
proof -
  let ?cs = "runes_of label"
  let ?out = "map of_nat (filter (\<lambda>r. r < 0x80) ?cs) :: bytes"
  let ?e = "\<lparr>encOut = (if length ?out > 0 then ?out @ [punyDelimiter] else ?out), encDelta = 0,
    encBias = punyInitialBias, encHandled = length ?out\<rparr>"
  have "pass_inv (length ?out) punyInitialN [] ?cs ?e 0 punyInitialN"
    by (simp add: pass_inv_def decoded_runes_def punyInitialN_def punyInitialBias_def)
  from encode_loop_decodes [OF this, of "length ?cs"] assms runes_of_scalar [of label] obtain ds where
    "encode_loop (length ?cs) (length ?out) ?cs punyInitialN ?e = Some (encOut ?e @ ds)" "punyDelimiter \<notin> set ds"
    "decode_loop (decoded_runes punyInitialN [] ?cs) 0 punyInitialN (encBias ?e) ds = Some ?cs"
    by (auto simp: short_runes_def)
  then show ?thesis
    by (intro exI [of _ ds]) (auto simp: encodePunycode_def Let_def decoded_runes_def punyInitialN_def)
qed

lemma decode_encoded:
  assumes "length (runes_of label) \<le> 1900"
  shows "\<exists>e. encodePunycode label = Some e \<and> decodePunycode e = Some (string_of (runes_of label))"
proof -
  let ?basic = "filter (\<lambda>r. r < 0x80) (runes_of label)"
  from encode_decode_label [OF assms] obtain ds where
    ds: "encodePunycode label = Some
      (let out = map of_nat ?basic in if out \<noteq> [] then out @ punyDelimiter # ds else ds)" "punyDelimiter \<notin> set ds"
    "decode_loop ?basic 0 punyInitialN punyInitialBias ds = Some (runes_of label)" by blast
  have u: "unat (of_nat r :: byte) = r" if "r < 0x80" for r using that by (simp add: unat_of_nat)
  then have unat: "map (\<lambda>r. unat (of_nat r :: byte)) ?basic = ?basic" by (intro map_idI) simp
  have ascii: "\<not> (of_nat r :: byte) \<ge> 0x80" if "r < 0x80" for r using that by (simp add: word_le_nat_alt u)
  show ?thesis
  proof (cases "?basic = []")
    case True
    then show ?thesis using ds by (simp add: decodePunycode_def last_cut_none)
  next
    case False
    then show ?thesis using ds ascii by (auto simp: decodePunycode_def last_cut_append unat comp_def)
  qed
qed

lemma buecher_scalar: "list_all scalar [98, 252, 99, 104, 101, 114]"
  by (simp add: scalar_def)

lemma buecher_encoded:
  "encodePunycode (string_of [98, 252, 99, 104, 101, 114]) = Some (str ''bcher-kva'')"
  using runes_of_string_of [OF buecher_scalar]
  by (simp add: encodePunycode_def encode_loop.simps encode_int.simps adapt_loop.simps
      next_rune_def punyThreshold_def punyAdapt_def punyEncodeDigit_def punyDelimiter_def puny_defs
      punyInitialN_def punyInitialBias_def MaxInt32_def MaxRune_def)

text \<open>C25: Decoding inverts encoding: a label of at most 1900 code points is encoded, and the decoder
  reads back the string of its code points, which is the label itself where it is UTF-8.\<close>

theorem punycode_roundtrip:
  assumes "length (runes_of label) \<le> 1900"
  shows "\<exists>e. encodePunycode label = Some e \<and>
    decodePunycode e = Some (if utf8_valid label then label else string_of (runes_of label))"
  using decode_encoded [OF assms] string_of_runes_of [of label] by auto

theorem punycode_roundtrip_witness:
  "\<exists>e. encodePunycode (string_of [98, 252, 99, 104, 101, 114]) = Some e \<and> e = str ''bcher-kva'' \<and>
    decodePunycode e = Some (string_of [98, 252, 99, 104, 101, 114])"
proof -
  have "length (runes_of (string_of [98, 252, 99, 104, 101, 114])) \<le> 1900"
    by (simp add: runes_of_string_of [OF buecher_scalar])
  from punycode_roundtrip [OF this] show ?thesis
    using buecher_encoded utf8_valid_string_of [OF buecher_scalar] by simp
qed

end
