(* ===== verification/Hostname_Properties.thy ===== *)
theory Hostname_Properties
  imports Hostname Punycode_Roundtrip
begin

text \<open>
  The two forms of a hostname label: a Unicode label that the check accepts and its ASCII form,
  which the check accepts too and reads back as the Unicode label.
\<close>

section \<open>What the encoder writes\<close>

lemma punyEncodeDigit_ldh: "d < punyBase \<Longrightarrow> ldh_byte (punyEncodeDigit d)"
proof -
  have all: "\<forall>d \<in> set [0..<36]. ldh_byte (punyEncodeDigit d)" by code_simp
  assume "d < punyBase"
  then show ?thesis using all by (simp add: puny_defs)
qed

lemma encode_int_ldh: "list_all ldh_byte (encode_int q k bias)"
proof (induction q k bias rule: encode_int.induct)
  case (1 q k bias)
  let ?t = "punyThreshold k bias"
  have t: "1 \<le> ?t" "?t \<le> 26" by (rule threshold_bounds)+
  then have d: "?t + (q - ?t) mod (punyBase - ?t) < punyBase"
    using mod_less_divisor [of "punyBase - ?t" "q - ?t"] unfolding puny_defs by linarith
  have "q < ?t \<Longrightarrow> q < punyBase" using t unfolding puny_defs by linarith
  then show ?case using 1 punyEncodeDigit_ldh [OF d] punyEncodeDigit_ldh [of q]
    by (subst encode_int.simps) (auto simp: Let_def)
qed

definition encoder_written :: "encoder \<Rightarrow> bytes \<Rightarrow> nat \<Rightarrow> bool" where
  "encoder_written e out n \<longleftrightarrow>
     (\<exists>ds. out = encOut e @ ds \<and> list_all ldh_byte ds \<and> punyDelimiter \<notin> set ds \<and> n \<le> encHandled e + length ds)"

lemma encoder_writtenI:
  "out = encOut e @ ds \<Longrightarrow> list_all ldh_byte ds \<Longrightarrow> punyDelimiter \<notin> set ds \<Longrightarrow> n \<le> encHandled e + length ds \<Longrightarrow>
    encoder_written e out n"
  by (auto simp: encoder_written_def)

lemma encoder_written_trans:
  "encoder_written e (encOut f) (encHandled f) \<Longrightarrow> encoder_written f out n \<Longrightarrow> encoder_written e out n"
  unfolding encoder_written_def by (elim exE) (rule_tac x = "ds @ dsa" in exI, auto)

lemma encode_pass_written:
  "encode_pass basic m q e = Some f \<Longrightarrow> encoder_written e (encOut f) (encHandled f)"
proof (induction basic m q e rule: encode_pass.induct)
  case (1 basic m e)
  then show ?case by (intro encoder_writtenI [of _ _ "[]"]) auto
next
  case (2 basic m c q e)
  let ?ds = "encode_int (encDelta e) punyBase (encBias e)"
  let ?emit = "e\<lparr>encOut := encOut e @ ?ds,
    encBias := punyAdapt (encDelta e) (encHandled e + 1) (encHandled e = basic),
    encDelta := 0, encHandled := encHandled e + 1\<rparr>"
  have "0 < length ?ds" using encode_int_digits [of "encDelta e" punyBase "encBias e"] by simp
  then have "encoder_written e (encOut ?emit) (encHandled ?emit)"
    using encode_int_digits [of "encDelta e" punyBase "encBias e"] encode_int_ldh
    by (intro encoder_writtenI [of _ _ ?ds]) (auto simp: Suc_le_eq)
  then have emit: "encoder_written ?emit out n \<Longrightarrow> encoder_written e out n" for out n by (rule encoder_written_trans)
  have step: "encoder_written (e\<lparr>encDelta := d\<rparr>) out n \<Longrightarrow> encoder_written e out n" for d out n
    by (simp add: encoder_written_def)
  show ?case
  proof (cases "c < m \<or> c > m")
    case True
    then show ?thesis using 2 step by (auto simp: Let_def split: if_splits)
  next
    case False
    then show ?thesis using 2 emit by simp
  qed
qed

lemma encode_loop_written:
  "encode_loop fuel basic cs n e = Some out \<Longrightarrow> encoder_written e out (length cs)"
proof (induction fuel arbitrary: n e)
  case 0
  then show ?case
    by (subst (asm) encode_loop.simps) (auto split: if_splits intro!: encoder_writtenI [of _ _ "[]"])
next
  case (Suc fuel)
  show ?case
  proof (cases "encHandled e < length cs")
    case False
    then show ?thesis using Suc.prems
      by (subst (asm) encode_loop.simps) (auto intro!: encoder_writtenI [of _ _ "[]"])
  next
    case True
    let ?m = "next_rune n cs"
    let ?e = "e\<lparr>encDelta := encDelta e + (?m - n) * (encHandled e + 1)\<rparr>"
    from Suc.prems True obtain f where f: "encode_pass basic ?m cs ?e = Some f"
      "encode_loop fuel basic cs (?m + 1) (f\<lparr>encDelta := encDelta f + 1\<rparr>) = Some out"
      by (subst (asm) encode_loop.simps) (auto simp: Let_def split: if_splits option.splits)
    have "encoder_written e (encOut f) (encHandled f)" using encode_pass_written [OF f(1)] by (simp add: encoder_written_def)
    moreover have "encoder_written f out (length cs)" using Suc.IH [OF f(2)] by (simp add: encoder_written_def)
    ultimately show ?thesis by (rule encoder_written_trans)
  qed
qed

lemma encodePunycode_written:
  assumes "encodePunycode label = Some e"
  defines "basic \<equiv> filter (\<lambda>r. r < 0x80) (runes_of label)"
  shows "\<exists>ds. e = (if basic = [] then ds else map of_nat basic @ punyDelimiter # ds) \<and>
    list_all ldh_byte ds \<and> punyDelimiter \<notin> set ds \<and> length (runes_of label) \<le> length basic + length ds"
  using encode_loop_written [OF assms(1) [unfolded encodePunycode_def Let_def]]
  by (auto simp: encoder_written_def basic_def split: if_splits)

section \<open>The two forms of a label\<close>

text \<open>What the code relies on of Go's tables: the ASCII runes of the classes asked for are letters and digits.\<close>

definition ascii_tables :: "unicode \<Rightarrow> bool" where
  "ascii_tables U \<longleftrightarrow>
     (\<forall>c \<in> set [0..<128]. cat_L U c \<or> cat_M U c \<or> cat_Nd U c \<or> cat_Nl U c \<longrightarrow> ldh_byte (of_nat c))"

abbreviation label_class :: "unicode \<Rightarrow> rune \<Rightarrow> bool" where
  "label_class U c \<equiv> cat_L U c \<or> cat_M U c \<or> cat_Nd U c \<or> cat_Nl U c"

lemma unicode_loop_rest:
  assumes "unicode_loop U cs ((j, d) # rest) a b"
  shows "\<exists>a b. unicode_loop U cs rest a b"
  using assms by (auto simp only: unicode_loop.simps Let_def split: if_splits)

lemma unicode_loop_first:
  assumes "unicode_loop U cs ((j, d) # rest) a b" "d < 128"
  shows "d = 0x2d \<or> label_class U d"
proof (rule ccontr)
  assume no: "\<not> (d = 0x2d \<or> label_class U d)"
  have "d \<notin> set [0x640, 0x7fa, 0x302e, 0x302f, 0x3031, 0x3032, 0x3033, 0x3034, 0x3035, 0x303b]"
    "d \<noteq> 0xb7" "d \<noteq> 0x375" "d \<noteq> 0x5f3" "d \<noteq> 0x5f4" "d \<noteq> 0x30fb" "d \<noteq> 0x200d" "d \<noteq> 0x200c"
    "d \<notin> set [0x2d, 0x6fd, 0x6fe, 0xf0b, 0x3007]"
    using assms(2) no by auto
  then show False using assms(1) no
    by (simp only: unicode_loop.simps Let_def if_False if_True simp_thms) (simp split: if_splits)
qed

lemma unicode_loop_ascii:
  "unicode_loop U cs ics a b \<Longrightarrow> (i, c) \<in> set ics \<Longrightarrow> c < 128 \<Longrightarrow> c = 0x2d \<or> label_class U c"
proof (induction ics arbitrary: a b)
  case (Cons jd ics)
  obtain j d where jd: "jd = (j, d)" by (cases jd)
  note loop = Cons.prems(1) [unfolded jd]
  obtain a' b' where "unicode_loop U cs ics a' b'" using unicode_loop_rest [OF loop] by blast
  from Cons.IH [OF this] Cons.prems(2,3) unicode_loop_first [OF loop] show ?case by (auto simp: jd)
qed simp

lemma unicode_label_ascii:
  assumes "ascii_tables U" "isValidUnicodeLabel U label" "c \<in> set (runes_of label)" "c < 128"
  shows "ldh_byte (of_nat c)"
proof -
  from assms(2) have "unicode_loop U (runes_of label) (List.enumerate 0 (runes_of label)) False False"
    by (auto simp: isValidUnicodeLabel_def Let_def split: if_splits)
  moreover obtain i where "i < length (runes_of label)" "c = runes_of label ! i"
    using assms(3) by (auto simp: in_set_conv_nth)
  then have "(i, c) \<in> set (List.enumerate 0 (runes_of label))"
    using nth_mem [of i "List.enumerate 0 (runes_of label)"] by (simp add: nth_enumerate_eq)
  ultimately have "c = 0x2d \<or> cat_L U c \<or> cat_M U c \<or> cat_Nd U c \<or> cat_Nl U c"
    using unicode_loop_ascii assms(4) by blast
  moreover have "ldh_byte (of_nat 0x2d)" by (simp add: ldh_byte_def)
  moreover have "\<forall>c < 128. cat_L U c \<or> cat_M U c \<or> cat_Nd U c \<or> cat_Nl U c \<longrightarrow> ldh_byte (of_nat c)"
    using assms(1) by (simp add: ascii_tables_def)
  ultimately show ?thesis using assms(4) by blast
qed

lemma high_bit: "b AND 0x80 = 0 \<longleftrightarrow> unat b < 128" for b :: byte
proof -
  have "b AND 0x80 = 0 \<longleftrightarrow> \<not> bit b 7" using and_exp_eq_0_iff_not_bit [of b 7] by simp
  also have "\<dots> \<longleftrightarrow> \<not> bit (unat b) 7" by (simp add: bit_unsigned_iff)
  also have "\<dots> \<longleftrightarrow> even (unat b div 128)" by (simp add: bit_iff_odd)
  also have "\<dots> \<longleftrightarrow> unat b < 128"
  proof -
    have "unat b < 256" using unsigned_less [of b] by simp
    then have "unat b div 128 < 2" by (simp add: div_less_iff_less_mult)
    then have "even (unat b div 128) \<longleftrightarrow> unat b div 128 = 0" by (cases "unat b div 128") auto
    then show ?thesis by (simp add: div_eq_0_iff)
  qed
  finally show ?thesis .
qed

lemma ascii_runes:
  assumes "utf8_valid label" "\<And>c. c \<in> set (runes_of label) \<Longrightarrow> c < 128"
  shows "isASCIIString label"
proof -
  have bytes: "label = map of_nat (runes_of label)"
  proof -
    have "string_of cs = map of_nat cs" if "\<And>c. c \<in> set cs \<Longrightarrow> c < 128" for cs
      using that by (induction cs) (simp_all add: string_of_def encode_rune_def encode_nats_def)
    then show ?thesis using string_of_runes_of [OF assms(1)] assms(2) by metis
  qed
  have "(of_nat c :: byte) AND 0x80 = 0" if "c \<in> set (runes_of label)" for c
    using assms(2) [OF that] by (simp add: high_bit unat_of_nat)
  then show ?thesis by (subst bytes) (simp add: isASCIIString_def list_all_iff)
qed

lemma ldh_ascii: "isLDHString label \<Longrightarrow> isASCIIString label"
proof -
  have "ldh_byte b \<Longrightarrow> b AND 0x80 = 0" for b
    unfolding high_bit
    by (auto simp: ldh_byte_def lower_byte_def upper_byte_def digit_byte_def word_le_nat_alt)
  then show "isLDHString label \<Longrightarrow> isASCIIString label"
    by (auto simp: isLDHString_def isASCIIString_def list_all_iff)
qed

text \<open>A label that is not ASCII is accepted as a Unicode label: what the check then knows of it.\<close>

lemma unicode_label_checked:
  assumes "checkHostnameLabel U label = Some (u, k)" "\<not> isASCIIString label"
  shows "isValidUnicodeLabel U label" "u = label"
    "\<exists>e. encodePunycode label = Some e \<and> k = length (acePrefix @ e) \<and> k \<le> maxLabelLength"
  using assms ldh_ascii [of label]
  by (auto simp: checkHostnameLabel_def label_forms_def split: if_splits option.splits)

text \<open>Its ASCII form ends in a digit of the encoding, since some rune of it is not basic.\<close>

lemma ace_form_ldh:
  assumes "encodePunycode label = Some e" "isValidUnicodeLabel U label" "ascii_tables U"
    "utf8_valid label" "\<not> isASCIIString label"
  shows "isLDHString (acePrefix @ e)" "e \<noteq> []" "last e \<noteq> punyDelimiter" "length (runes_of label) \<le> length e"
proof -
  let ?basic = "filter (\<lambda>r. r < 0x80) (runes_of label)"
  obtain ds where ds: "e = (if ?basic = [] then ds else map of_nat ?basic @ punyDelimiter # ds)"
    "list_all ldh_byte ds" "punyDelimiter \<notin> set ds" "length (runes_of label) \<le> length ?basic + length ds"
    using encodePunycode_written [OF assms(1)] by blast
  obtain c where "c \<in> set (runes_of label)" "\<not> c < 128" using ascii_runes [OF assms(4)] assms(5) by blast
  then have "length ?basic < length (runes_of label)" by (intro length_filter_less) auto
  then have "ds \<noteq> []" using ds(4) by auto
  moreover have "last ds \<noteq> punyDelimiter" using ds(3) calculation last_in_set by metis
  ultimately show "e \<noteq> []" "last e \<noteq> punyDelimiter" by (auto simp: ds(1))
  show "length (runes_of label) \<le> length e" using ds(4) by (auto simp: ds(1) split: if_splits)
  have "ldh_byte punyDelimiter" by (simp add: ldh_byte_def punyDelimiter_def)
  moreover have "list_all ldh_byte (map of_nat ?basic)"
    using unicode_label_ascii [OF assms(3,2)] by (auto simp: list_all_iff)
  ultimately have "list_all ldh_byte e" using ds(2) by (simp add: ds(1))
  moreover have "list_all ldh_byte acePrefix" by (simp add: acePrefix_def ldh_byte_def lower_byte_def)
  ultimately show "isLDHString (acePrefix @ e)" by (simp add: isLDHString_def)
qed

lemma has_suffix_last: "s \<noteq> [] \<Longrightarrow> has_suffix s [b] \<longleftrightarrow> last s = b"
  by (cases s rule: rev_cases) (auto simp: has_suffix_def)

lemma ace_form_checked:
  assumes "encodePunycode label = Some e" "decodePunycode e = Some label" "isLDHString (acePrefix @ e)"
    "e \<noteq> []" "last e \<noteq> punyDelimiter" "isValidUnicodeLabel U label" "\<not> isASCIIString label"
    "length (acePrefix @ e) \<le> maxLabelLength"
  shows "checkHostnameLabel U (acePrefix @ e) = Some (label, length (acePrefix @ e))"
proof -
  have ace: "hasACEPrefix (acePrefix @ e)" "drop (length acePrefix) (acePrefix @ e) = e" "acePrefix @ e \<noteq> []"
    by (simp_all add: hasACEPrefix_def acePrefix_def)
  have hyphen: "\<not> has_prefix (acePrefix @ e) (str ''-'')" "\<not> has_suffix (acePrefix @ e) (str ''-'')"
    using assms(4,5) has_suffix_last [of "acePrefix @ e" punyDelimiter]
    by (simp_all add: has_prefix_def acePrefix_def punyDelimiter_def)
  have "label_forms U (acePrefix @ e) = Some (label, acePrefix @ e)"
    using assms by (simp add: label_forms_def ace equal_fold_def del: append_eq_Cons_conv)
  then show ?thesis using assms(8) hyphen ace(3) by (simp add: checkHostnameLabel_def)
qed

text \<open>C26: A Unicode label that the hostname check accepts and its ASCII form are the same label to the
  check: the ASCII form is accepted, stands for the same Unicode form and has the length that the
  Unicode label was counted with.\<close>

theorem hostname_label_forms:
  assumes "checkHostnameLabel U label = Some (u, k)" "\<not> isASCIIString label" "utf8_valid label" "ascii_tables U"
  shows "\<exists>e. encodePunycode label = Some e \<and> u = label \<and> k = length (acePrefix @ e) \<and>
    checkHostnameLabel U (acePrefix @ e) = Some (label, k)"
proof -
  note checked = unicode_label_checked [OF assms(1,2)]
  obtain e where e: "encodePunycode label = Some e" "k = length (acePrefix @ e)" "k \<le> maxLabelLength"
    using checked(3) by blast
  note ldh = ace_form_ldh [OF e(1) checked(1) assms(4,3,2)]
  have "length (runes_of label) \<le> 1900" using ldh(4) e(2,3) by (simp add: maxLabelLength_def)
  then have "decodePunycode e = Some label"
    using decode_encoded [of label] e(1) string_of_runes_of [OF assms(3)] by auto
  with e show ?thesis using ace_form_checked [OF e(1) _ ldh(1-3) checked(1) assms(2)] checked(2) by auto
qed

text \<open>The tables restricted to the Latin runes below 256, and a label of them.\<close>

definition latin_tables :: unicode where
  "latin_tables =
     \<lparr>cat_L = (\<lambda>c. 97 \<le> c \<and> c \<le> 122 \<or> 65 \<le> c \<and> c \<le> 90 \<or> 192 \<le> c \<and> c \<le> 255 \<and> c \<noteq> 215 \<and> c \<noteq> 247),
      cat_M = (\<lambda>_. False), cat_Nd = (\<lambda>c. 48 \<le> c \<and> c \<le> 57), cat_Nl = (\<lambda>_. False), cat_Mn = (\<lambda>_. False),
      Greek = (\<lambda>_. False), Hebrew = (\<lambda>_. False), Hiragana = (\<lambda>_. False), Katakana = (\<lambda>_. False),
      Han = (\<lambda>_. False), Arabic = (\<lambda>_. False), Syriac = (\<lambda>_. False), Thaana = (\<lambda>_. False),
      Nko = (\<lambda>_. False), Mandaic = (\<lambda>_. False), Samaritan = (\<lambda>_. False), Adlam = (\<lambda>_. False),
      Mongolian = (\<lambda>_. False), Phags_Pa = (\<lambda>_. False)\<rparr>"

lemma ascii_latin_tables: "ascii_tables latin_tables"
proof -
  have "ldh_byte (of_nat c)"
    if "97 \<le> c \<and> c \<le> 122 \<or> 65 \<le> c \<and> c \<le> 90 \<or> 48 \<le> c \<and> c \<le> 57" for c
    using that by (auto simp: ldh_byte_def lower_byte_def upper_byte_def digit_byte_def word_le_nat_alt unat_of_nat)
  then show ?thesis by (auto simp: ascii_tables_def latin_tables_def)
qed

lemma buecher_checked:
  fixes label
  defines "label \<equiv> string_of [98, 252, 99, 104, 101, 114]"
  shows "checkHostnameLabel latin_tables label = Some (label, 13)" "\<not> isASCIIString label" "utf8_valid label"
proof -
  note cs = buecher_scalar
  then show "utf8_valid label" by (simp only: label_def utf8_valid_string_of)
  have runes: "runes_of label = [98, 252, 99, 104, 101, 114]" using runes_of_string_of [OF cs] by (simp only: label_def)
  have bytes: "label = [98, 195, 188, 99, 104, 101, 114]"
    by (simp add: label_def string_of_def encode_rune_def encode_nats_def)
  show ascii: "\<not> isASCIIString label" by (simp add: bytes isASCIIString_def)
  have valid: "isValidUnicodeLabel latin_tables label"
    by (simp add: isValidUnicodeLabel_def runes latin_tables_def viramaRunes_def)
  have "label_forms latin_tables label = Some (label, acePrefix @ str ''bcher-kva'')"
    using ascii valid buecher_encoded [folded label_def]
    by (simp add: label_forms_def hasACEPrefix_def bytes acePrefix_def)
  then show "checkHostnameLabel latin_tables label = Some (label, 13)"
    by (simp add: checkHostnameLabel_def bytes has_prefix_def has_suffix_def acePrefix_def maxLabelLength_def)
qed

theorem hostname_label_forms_witness:
  "\<exists>e. encodePunycode (string_of [98, 252, 99, 104, 101, 114]) = Some e \<and> length (acePrefix @ e) = 13 \<and>
    checkHostnameLabel latin_tables (acePrefix @ e) = Some (string_of [98, 252, 99, 104, 101, 114], 13)"
  using hostname_label_forms [OF buecher_checked ascii_latin_tables] by auto

end
