(* ===== verification/Abnf_Syntax.thy ===== *)
theory Abnf_Syntax
  imports Go_Strings
begin

text \<open>
  The elements, builders and grammars of \<open>src/pkg/abnf\<close> (\<open>elements.go\<close>, \<open>builders.go\<close>,
  \<open>grammar.go\<close>, \<open>list.go\<close>), with the notation they print as. Go's \<open>int\<close> counts are integers.
  A grammar's \<open>Rulemap\<close> shares the rule objects of \<open>Rules\<close>; here it holds their positions.
  Rule names are ASCII, as the grammar of ABNF has them, so \<open>strings.ToLower\<close> works bytewise.
\<close>

section \<open>Elements\<close>

definition Inf :: int where "Inf = - 1"

datatype num_val_status = NumValStatusSeries | NumValStatusRange

datatype element =
    RulenameElement bytes
  | GroupElement alternation
  | OptionElement alternation
  | CharValElement bool bytes
  | NumValElement bytes num_val_status "bytes list"
  | ListElement int int element "alternation option"
  | ProseValElement bytes
and alternation = Alternation (Concatenations: "concatenation list")
and concatenation = Concatenation (Repetitions: "repetition list")
and repetition = Repetition (Min: int) (Max: int) (Element: element)

record rule =
  Name :: bytes
  rule_alternation :: alternation

section \<open>Builders\<close>

definition alt :: "concatenation list \<Rightarrow> alternation" where
  "alt concatenations = Alternation concatenations"

definition cat :: "repetition list \<Rightarrow> concatenation" where
  "cat repetitions = Concatenation repetitions"

definition rep :: "int \<Rightarrow> int \<Rightarrow> element \<Rightarrow> repetition" where
  "rep minCount maxCount e = Repetition minCount maxCount e"

definition one :: "element \<Rightarrow> repetition" where
  "one e = rep 1 1 e"

definition ref :: "string \<Rightarrow> element" where
  "ref name = RulenameElement (str name)"

definition str_val :: "string \<Rightarrow> element" where
  "str_val s = CharValElement False (str s)"

definition numRange :: "string \<Rightarrow> string \<Rightarrow> string \<Rightarrow> element" where
  "numRange base low high = NumValElement (str base) NumValStatusRange [str low, str high]"

definition numSeries :: "string \<Rightarrow> string list \<Rightarrow> element" where
  "numSeries base values = NumValElement (str base) NumValStatusSeries (map str values)"

definition grp :: "concatenation list \<Rightarrow> element" where
  "grp concatenations = GroupElement (alt concatenations)"

definition opt :: "concatenation list \<Rightarrow> element" where
  "opt concatenations = OptionElement (alt concatenations)"

definition newRule :: "string \<Rightarrow> concatenation list \<Rightarrow> rule" where
  "newRule name concatenations = \<lparr>Name = str name, rule_alternation = alt concatenations\<rparr>"

lemmas builder_defs = alt_def cat_def rep_def one_def ref_def str_val_def numRange_def numSeries_def
  grp_def opt_def newRule_def

section \<open>List operators\<close>

definition ruleNameOws :: string where "ruleNameOws = ''OWS''"

definition expandList :: "int \<Rightarrow> int \<Rightarrow> element \<Rightarrow> alternation" where
  "expandList minimum maximum e =
     (let tolerant =
            rep 0 Inf
              (grp [cat [one (ref ruleNameOws), one (str_val '',''),
                         one (opt [cat [one (ref ruleNameOws), one e]])]])
      in if minimum = 0 \<and> maximum = Inf then
           alt [cat [one (opt [cat [one (grp [cat [one (str_val '','')], cat [one e]]), tolerant]])]]
         else if minimum = 1 \<and> maximum = Inf then
           alt [cat [rep 0 Inf (grp [cat [one (str_val '',''), one (ref ruleNameOws)]]), one e, tolerant]]
         else
           let separated =
                 grp [cat [one (ref ruleNameOws), one (str_val '',''), one (ref ruleNameOws), one e]];
               remainingMaximum = (if maximum \<noteq> Inf then max (maximum - 1) 0 else maximum)
           in if minimum = 0 then
                alt [cat [one (opt [cat [one e, rep 0 remainingMaximum separated]])]]
              else alt [cat [one e, rep (minimum - 1) remainingMaximum separated]])"

text \<open>The method \<open>alternation\<close> of a list element, on its fields.\<close>

definition list_alternation :: "int \<Rightarrow> int \<Rightarrow> element \<Rightarrow> alternation option \<Rightarrow> alternation" where
  "list_alternation minimum maximum e expansion =
     (case expansion of Some a \<Rightarrow> a | None \<Rightarrow> expandList minimum maximum e)"

section \<open>Notation\<close>

text \<open>\<open>strconv.Itoa\<close>.\<close>

fun itoa_nat :: "nat \<Rightarrow> bytes" where
  "itoa_nat n = (if n < 10 then [of_nat (48 + n)] else itoa_nat (n div 10) @ [of_nat (48 + n mod 10)])"

declare itoa_nat.simps [simp del]

definition itoa :: "int \<Rightarrow> bytes" where
  "itoa i = (if i < 0 then ch CHR ''-'' # itoa_nat (nat (- i)) else itoa_nat (nat i))"

text \<open>\<open>strings.Join\<close>.\<close>

fun join :: "bytes list \<Rightarrow> bytes \<Rightarrow> bytes" where
  "join [] separator = []"
| "join [x] separator = x"
| "join (x # y # xs) separator = x @ separator @ join (y # xs) separator"

fun element_String :: "element \<Rightarrow> bytes"
  and alternation_String :: "alternation \<Rightarrow> bytes"
  and concatenation_String :: "concatenation \<Rightarrow> bytes"
  and repetition_String :: "repetition \<Rightarrow> bytes"
where
  "element_String (RulenameElement name) = name"
| "element_String (GroupElement a) = str ''('' @ alternation_String a @ str '')''"
| "element_String (OptionElement a) = str ''['' @ alternation_String a @ str '']''"
| "element_String (CharValElement sensitive v) =
     (if sensitive then str ''%s'' @ [0x22] @ v @ [0x22] else [0x22] @ v @ [0x22])"
| "element_String (NumValElement base status vs) =
     str ''%'' @ base @ join vs (if status = NumValStatusRange then str ''-'' else str ''.'')"
| "element_String (ListElement mn mx e expansion) =
     (if mn \<noteq> 0 then itoa mn else []) @ str ''#'' @ (if mx \<noteq> Inf then itoa mx else []) @ element_String e"
| "element_String (ProseValElement v) = str ''<'' @ v @ str ''>''"
| "alternation_String (Alternation cs) = join (map concatenation_String cs) (str '' / '')"
| "concatenation_String (Concatenation rs) = join (map repetition_String rs) (str '' '')"
| "repetition_String (Repetition mn mx e) =
     (if mn = mx then (if mn = 1 then element_String e else itoa mn @ element_String e)
      else (if mn \<noteq> 0 then itoa mn else []) @ str ''*'' @ (if mx \<noteq> Inf then itoa mx else []) @
        element_String e)"

definition rule_String :: "rule \<Rightarrow> bytes" where
  "rule_String r = Name r @ str '' = '' @ alternation_String (rule_alternation r)"

section \<open>Numerals\<close>

text \<open>\<open>strconv.ParseUint\<close> to 32 bits, for a base from 2 to 36.\<close>

definition digit_of :: "byte \<Rightarrow> nat option" where
  "digit_of c =
     (if digit_byte c then Some (unat c - 48)
      else if lower_byte (ascii_lower c) then Some (unat (ascii_lower c) - 97 + 10)
      else None)"

fun parse_digits :: "nat \<Rightarrow> nat \<Rightarrow> bytes \<Rightarrow> nat option" where
  "parse_digits base n [] = Some n"
| "parse_digits base n (c # s) =
     (case digit_of c of
        None \<Rightarrow> None
      | Some d \<Rightarrow>
          if d \<ge> base then None
          else if n * base + d > 0xFFFFFFFF then None
          else parse_digits base (n * base + d) s)"

definition ParseUint32 :: "bytes \<Rightarrow> nat \<Rightarrow> nat option" where
  "ParseUint32 s base = (if s = [] then None else parse_digits base 0 s)"

text \<open>\<open>ParseNumVal\<close>, with \<open>None\<close> for its \<open>InvalidNumeralError\<close>.\<close>

definition ParseNumVal :: "bytes \<Rightarrow> bytes \<Rightarrow> rune option" where
  "ParseNumVal v base =
     (let parse = (\<lambda>intBase.
            case ParseUint32 v intBase of
              None \<Rightarrow> None
            | Some number \<Rightarrow> if number > MaxRune then None else Some number)
      in if base = str ''B'' \<or> base = str ''b'' then parse 2
         else if base = str ''D'' \<or> base = str ''d'' then parse 10
         else if base = str ''X'' \<or> base = str ''x'' then parse 16
         else None)"

section \<open>Grammars\<close>

record grammar =
  Rules :: "rule list"
  Rulemap :: "bytes \<Rightarrow> nat option"

definition ToLower :: "bytes \<Rightarrow> bytes" where
  "ToLower s = map ascii_lower s"

definition newGrammar :: "rule list \<Rightarrow> grammar" where
  "newGrammar rules =
     \<lparr>Rules = rules,
      Rulemap = foldl (\<lambda>m (i, r). m(ToLower (Name r) \<mapsto> i)) Map.empty (List.enumerate 0 rules)\<rparr>"

definition grammar_String :: "grammar \<Rightarrow> bytes" where
  "grammar_String g = concat (map (\<lambda>r. rule_String r @ [0x0D, 0x0A]) (Rules g))"

end
