(* ===== verification/Abnf_Rules.thy ===== *)
theory Abnf_Rules
  imports Abnf_Syntax
begin

text \<open>
  The rules of \<open>src/pkg/abnf/rules.go\<close>: the core rules of RFC 5234 and the grammar of ABNF, and
  the lookup of \<open>grammar.go\<close>, which falls back on the core rules.
\<close>

section \<open>Rule names\<close>

definition ruleNameRulelist :: string where "ruleNameRulelist = ''rulelist''"
definition ruleNameRule :: string where "ruleNameRule = ''rule''"
definition ruleNameRulename :: string where "ruleNameRulename = ''rulename''"
definition ruleNameDefinedAs :: string where "ruleNameDefinedAs = ''defined-as''"
definition ruleNameElements :: string where "ruleNameElements = ''elements''"
definition ruleNameCWsp :: string where "ruleNameCWsp = ''c-wsp''"
definition ruleNameCNl :: string where "ruleNameCNl = ''c-nl''"
definition ruleNameComment :: string where "ruleNameComment = ''comment''"
definition ruleNameAlternation :: string where "ruleNameAlternation = ''alternation''"
definition ruleNameConcatenation :: string where "ruleNameConcatenation = ''concatenation''"
definition ruleNameRepetition :: string where "ruleNameRepetition = ''repetition''"
definition ruleNameRepeat :: string where "ruleNameRepeat = ''repeat''"
definition ruleNameElement :: string where "ruleNameElement = ''element''"
definition ruleNameGroup :: string where "ruleNameGroup = ''group''"
definition ruleNameOption :: string where "ruleNameOption = ''option''"
definition ruleNameCharVal :: string where "ruleNameCharVal = ''char-val''"
definition ruleNameCaseInsensitiveString :: string where "ruleNameCaseInsensitiveString = ''case-insensitive-string''"
definition ruleNameCaseSensitiveString :: string where "ruleNameCaseSensitiveString = ''case-sensitive-string''"
definition ruleNameQuotedString :: string where "ruleNameQuotedString = ''quoted-string''"
definition ruleNameNumVal :: string where "ruleNameNumVal = ''num-val''"
definition ruleNameBinVal :: string where "ruleNameBinVal = ''bin-val''"
definition ruleNameDecVal :: string where "ruleNameDecVal = ''dec-val''"
definition ruleNameHexVal :: string where "ruleNameHexVal = ''hex-val''"
definition ruleNameProseVal :: string where "ruleNameProseVal = ''prose-val''"
definition ruleNameAlpha :: string where "ruleNameAlpha = ''ALPHA''"
definition ruleNameBit :: string where "ruleNameBit = ''BIT''"
definition ruleNameChar :: string where "ruleNameChar = ''CHAR''"
definition ruleNameCr :: string where "ruleNameCr = ''CR''"
definition ruleNameCrlf :: string where "ruleNameCrlf = ''CRLF''"
definition ruleNameCtl :: string where "ruleNameCtl = ''CTL''"
definition ruleNameDigit :: string where "ruleNameDigit = ''DIGIT''"
definition ruleNameDquote :: string where "ruleNameDquote = ''DQUOTE''"
definition ruleNameHexdig :: string where "ruleNameHexdig = ''HEXDIG''"
definition ruleNameHtab :: string where "ruleNameHtab = ''HTAB''"
definition ruleNameLf :: string where "ruleNameLf = ''LF''"
definition ruleNameLwsp :: string where "ruleNameLwsp = ''LWSP''"
definition ruleNameOctet :: string where "ruleNameOctet = ''OCTET''"
definition ruleNameSp :: string where "ruleNameSp = ''SP''"
definition ruleNameVchar :: string where "ruleNameVchar = ''VCHAR''"
definition ruleNameWsp :: string where "ruleNameWsp = ''WSP''"

lemmas ruleName_defs = ruleNameRulelist_def ruleNameRule_def ruleNameRulename_def ruleNameDefinedAs_def ruleNameElements_def ruleNameCWsp_def ruleNameCNl_def ruleNameComment_def ruleNameAlternation_def ruleNameConcatenation_def ruleNameRepetition_def ruleNameRepeat_def ruleNameElement_def ruleNameGroup_def ruleNameOption_def ruleNameCharVal_def ruleNameCaseInsensitiveString_def ruleNameCaseSensitiveString_def ruleNameQuotedString_def ruleNameNumVal_def ruleNameBinVal_def ruleNameDecVal_def ruleNameHexVal_def ruleNameProseVal_def ruleNameAlpha_def ruleNameBit_def ruleNameChar_def ruleNameCr_def ruleNameCrlf_def ruleNameCtl_def ruleNameDigit_def ruleNameDquote_def ruleNameHexdig_def ruleNameHtab_def ruleNameLf_def ruleNameLwsp_def ruleNameOctet_def ruleNameSp_def ruleNameVchar_def ruleNameWsp_def

section \<open>Core rules\<close>

definition core_alpha :: rule where
  "core_alpha =
     newRule ruleNameAlpha [cat [one (numRange ''x'' ''41'' ''5A'')],
       cat [one (numRange ''x'' ''61'' ''7A'')]]"

definition core_bit :: rule where
  "core_bit =
     newRule ruleNameBit [cat [one (str_val ''0'')], cat [one (str_val ''1'')]]"

definition core_char :: rule where
  "core_char =
     newRule ruleNameChar [cat [one (numRange ''x'' ''01'' ''7F'')]]"

definition core_cr :: rule where
  "core_cr =
     newRule ruleNameCr [cat [one (numSeries ''x'' [''0D''])]]"

definition core_crlf :: rule where
  "core_crlf =
     newRule ruleNameCrlf [cat [one (ref ruleNameCr), one (ref ruleNameLf)]]"

definition core_ctl :: rule where
  "core_ctl =
     newRule ruleNameCtl [cat [one (numRange ''x'' ''00'' ''1F'')],
       cat [one (numSeries ''x'' [''7F''])]]"

definition core_digit :: rule where
  "core_digit =
     newRule ruleNameDigit [cat [one (numRange ''x'' ''30'' ''39'')]]"

definition core_dquote :: rule where
  "core_dquote =
     newRule ruleNameDquote [cat [one (numSeries ''x'' [''22''])]]"

definition core_hexdig :: rule where
  "core_hexdig =
     newRule ruleNameHexdig [cat [one (ref ruleNameDigit)], cat [one (str_val ''A'')],
       cat [one (str_val ''B'')], cat [one (str_val ''C'')], cat [one (str_val ''D'')],
       cat [one (str_val ''E'')], cat [one (str_val ''F'')]]"

definition core_htab :: rule where
  "core_htab =
     newRule ruleNameHtab [cat [one (numSeries ''x'' [''09''])]]"

definition core_lf :: rule where
  "core_lf =
     newRule ruleNameLf [cat [one (numSeries ''x'' [''0A''])]]"

definition core_lwsp :: rule where
  "core_lwsp =
     newRule ruleNameLwsp [cat [rep 0 Inf (grp [cat [one (ref ruleNameWsp)],
       cat [one (ref ruleNameCrlf), one (ref ruleNameWsp)]])]]"

definition core_octet :: rule where
  "core_octet =
     newRule ruleNameOctet [cat [one (numRange ''x'' ''00'' ''FF'')]]"

definition core_sp :: rule where
  "core_sp =
     newRule ruleNameSp [cat [one (numSeries ''x'' [''20''])]]"

definition core_vchar :: rule where
  "core_vchar =
     newRule ruleNameVchar [cat [one (numRange ''x'' ''21'' ''7E'')]]"

definition core_wsp :: rule where
  "core_wsp =
     newRule ruleNameWsp [cat [one (ref ruleNameSp)], cat [one (ref ruleNameHtab)]]"

definition coreRules :: "(bytes \<times> rule) list" where
  "coreRules =
     [(str ''alpha'', core_alpha),
      (str ''bit'', core_bit),
      (str ''char'', core_char),
      (str ''cr'', core_cr),
      (str ''crlf'', core_crlf),
      (str ''ctl'', core_ctl),
      (str ''digit'', core_digit),
      (str ''dquote'', core_dquote),
      (str ''hexdig'', core_hexdig),
      (str ''htab'', core_htab),
      (str ''lf'', core_lf),
      (str ''lwsp'', core_lwsp),
      (str ''octet'', core_octet),
      (str ''sp'', core_sp),
      (str ''vchar'', core_vchar),
      (str ''wsp'', core_wsp)]"

section \<open>The grammar of ABNF\<close>

definition abnfRulelist :: rule where
  "abnfRulelist =
     newRule ruleNameRulelist [cat [rep 1 Inf (grp [cat [one (ref ruleNameRule)],
       cat [one (grp [cat [rep 0 Inf (ref ruleNameWsp), one (ref ruleNameCNl)]])]])]]"

definition abnfRule :: rule where
  "abnfRule =
     newRule ruleNameRule [cat [one (ref ruleNameRulename), one (ref ruleNameDefinedAs),
       one (ref ruleNameElements), one (ref ruleNameCNl)]]"

definition abnfRulename :: rule where
  "abnfRulename =
     newRule ruleNameRulename [cat [one (ref ruleNameAlpha),
       rep 0 Inf (grp [cat [one (ref ruleNameAlpha)], cat [one (ref ruleNameDigit)],
       cat [one (str_val ''-'')]])]]"

definition abnfDefinedAs :: rule where
  "abnfDefinedAs =
     newRule ruleNameDefinedAs [cat [rep 0 Inf (ref ruleNameCWsp),
       one (grp [cat [one (str_val ''='')], cat [one (str_val ''=/'')]]),
       rep 0 Inf (ref ruleNameCWsp)]]"

definition abnfElements :: rule where
  "abnfElements =
     newRule ruleNameElements [cat [one (ref ruleNameAlternation), rep 0 Inf (ref ruleNameWsp)]]"

definition abnfCWsp :: rule where
  "abnfCWsp =
     newRule ruleNameCWsp [cat [one (ref ruleNameWsp)], cat [one (grp [cat [one (ref ruleNameCNl),
       one (ref ruleNameWsp)]])]]"

definition abnfCNl :: rule where
  "abnfCNl =
     newRule ruleNameCNl [cat [one (ref ruleNameComment)], cat [one (ref ruleNameCrlf)]]"

definition abnfComment :: rule where
  "abnfComment =
     newRule ruleNameComment [cat [one (str_val '';''),
       rep 0 Inf (grp [cat [one (ref ruleNameWsp)], cat [one (ref ruleNameVchar)]]),
       one (ref ruleNameCrlf)]]"

definition abnfAlternation :: rule where
  "abnfAlternation =
     newRule ruleNameAlternation [cat [one (ref ruleNameConcatenation),
       rep 0 Inf (grp [cat [rep 0 Inf (ref ruleNameCWsp), one (str_val ''/''),
       rep 0 Inf (ref ruleNameCWsp), one (ref ruleNameConcatenation)]])]]"

definition abnfConcatenation :: rule where
  "abnfConcatenation =
     newRule ruleNameConcatenation [cat [one (ref ruleNameRepetition),
       rep 0 Inf (grp [cat [rep 1 Inf (ref ruleNameCWsp), one (ref ruleNameRepetition)]])]]"

definition abnfRepetition :: rule where
  "abnfRepetition =
     newRule ruleNameRepetition [cat [one (opt [cat [one (ref ruleNameRepeat)]]),
       one (ref ruleNameElement)]]"

definition abnfRepeat :: rule where
  "abnfRepeat =
     newRule ruleNameRepeat [cat [rep 1 Inf (ref ruleNameDigit)],
       cat [one (grp [cat [rep 0 Inf (ref ruleNameDigit), one (str_val ''*''),
       rep 0 Inf (ref ruleNameDigit)]])], cat [one (grp [cat [rep 0 Inf (ref ruleNameDigit),
       one (str_val ''#''), rep 0 Inf (ref ruleNameDigit)]])]]"

definition abnfElement :: rule where
  "abnfElement =
     newRule ruleNameElement [cat [one (ref ruleNameRulename)], cat [one (ref ruleNameGroup)],
       cat [one (ref ruleNameOption)], cat [one (ref ruleNameCharVal)],
       cat [one (ref ruleNameNumVal)], cat [one (ref ruleNameProseVal)]]"

definition abnfGroup :: rule where
  "abnfGroup =
     newRule ruleNameGroup [cat [one (str_val ''(''), rep 0 Inf (ref ruleNameCWsp),
       one (ref ruleNameAlternation), rep 0 Inf (ref ruleNameCWsp), one (str_val '')'')]]"

definition abnfOption :: rule where
  "abnfOption =
     newRule ruleNameOption [cat [one (str_val ''[''), rep 0 Inf (ref ruleNameCWsp),
       one (ref ruleNameAlternation), rep 0 Inf (ref ruleNameCWsp), one (str_val '']'')]]"

definition abnfCharVal :: rule where
  "abnfCharVal =
     newRule ruleNameCharVal [cat [one (ref ruleNameCaseInsensitiveString)],
       cat [one (ref ruleNameCaseSensitiveString)]]"

definition abnfCaseInsensitiveString :: rule where
  "abnfCaseInsensitiveString =
     newRule ruleNameCaseInsensitiveString [cat [one (opt [cat [one (str_val ''%i'')]]),
       one (ref ruleNameQuotedString)]]"

definition abnfCaseSensitiveString :: rule where
  "abnfCaseSensitiveString =
     newRule ruleNameCaseSensitiveString [cat [one (str_val ''%s''),
       one (ref ruleNameQuotedString)]]"

definition abnfQuotedString :: rule where
  "abnfQuotedString =
     newRule ruleNameQuotedString [cat [one (ref ruleNameDquote),
       rep 0 Inf (grp [cat [one (numRange ''x'' ''20'' ''21'')],
       cat [one (numRange ''x'' ''23'' ''7E'')]]), one (ref ruleNameDquote)]]"

definition abnfNumVal :: rule where
  "abnfNumVal =
     newRule ruleNameNumVal [cat [one (str_val ''%''), one (grp [cat [one (ref ruleNameBinVal)],
       cat [one (ref ruleNameDecVal)], cat [one (ref ruleNameHexVal)]])]]"

definition abnfBinVal :: rule where
  "abnfBinVal =
     newRule ruleNameBinVal [cat [one (str_val ''b''), rep 1 Inf (ref ruleNameBit),
       one (opt [cat [rep 1 Inf (grp [cat [one (str_val ''.''), rep 1 Inf (ref ruleNameBit)]])],
       cat [one (grp [cat [one (str_val ''-''), rep 1 Inf (ref ruleNameBit)]])]])]]"

definition abnfDecVal :: rule where
  "abnfDecVal =
     newRule ruleNameDecVal [cat [one (str_val ''d''), rep 1 Inf (ref ruleNameDigit),
       one (opt [cat [rep 1 Inf (grp [cat [one (str_val ''.''), rep 1 Inf (ref ruleNameDigit)]])],
       cat [one (grp [cat [one (str_val ''-''), rep 1 Inf (ref ruleNameDigit)]])]])]]"

definition abnfHexVal :: rule where
  "abnfHexVal =
     newRule ruleNameHexVal [cat [one (str_val ''x''), rep 1 Inf (ref ruleNameHexdig),
       one (opt [cat [rep 1 Inf (grp [cat [one (str_val ''.''),
       rep 1 Inf (ref ruleNameHexdig)]])], cat [one (grp [cat [one (str_val ''-''),
       rep 1 Inf (ref ruleNameHexdig)]])]])]]"

definition abnfProseVal :: rule where
  "abnfProseVal =
     newRule ruleNameProseVal [cat [one (str_val ''<''),
       rep 0 Inf (grp [cat [one (numRange ''x'' ''20'' ''3D'')],
       cat [one (numRange ''x'' ''3F'' ''7E'')]]), one (str_val ''>'')]]"

definition abnfGrammar :: grammar where
  "abnfGrammar =
     newGrammar [abnfRulelist, abnfRule, abnfRulename, abnfDefinedAs, abnfElements, abnfCWsp,
       abnfCNl, abnfComment, abnfAlternation, abnfConcatenation, abnfRepetition, abnfRepeat,
       abnfElement, abnfGroup, abnfOption, abnfCharVal, abnfCaseInsensitiveString,
       abnfCaseSensitiveString, abnfQuotedString, abnfNumVal, abnfBinVal, abnfDecVal, abnfHexVal,
       abnfProseVal]"

lemmas core_rule_defs = core_alpha_def core_bit_def core_char_def core_cr_def core_crlf_def core_ctl_def core_digit_def core_dquote_def core_hexdig_def core_htab_def core_lf_def core_lwsp_def core_octet_def core_sp_def core_vchar_def core_wsp_def

lemmas abnf_rule_defs = abnfRulelist_def abnfRule_def abnfRulename_def abnfDefinedAs_def abnfElements_def abnfCWsp_def abnfCNl_def abnfComment_def abnfAlternation_def abnfConcatenation_def abnfRepetition_def abnfRepeat_def abnfElement_def abnfGroup_def abnfOption_def abnfCharVal_def abnfCaseInsensitiveString_def abnfCaseSensitiveString_def abnfQuotedString_def abnfNumVal_def abnfBinVal_def abnfDecVal_def abnfHexVal_def abnfProseVal_def


section \<open>Lookup\<close>

text \<open>\<open>getRule\<close>, and the method \<open>Rule\<close> of a grammar.\<close>

definition getRule :: "bytes \<Rightarrow> grammar \<Rightarrow> rule option" where
  "getRule rulename g =
     (let key = ToLower rulename
      in case Rulemap g key of
           Some i \<Rightarrow> Some (Rules g ! i)
         | None \<Rightarrow> map_of coreRules key)"

end
