(* ===== verification/Abnf_Parse.thy ===== *)
theory Abnf_Parse
  imports Abnf_Rules
begin

text \<open>
  The backtracking parser of \<open>src/pkg/abnf/parse.go\<close>. A call stops with an answer, with a panic
  (an index out of range, or \<open>mustParseNumVal\<close> of a numeral that is none), or not at all: a left
  recursive rule, or an unbounded repetition of an element that matches nothing, never ends. The
  fuel bounds the depth of the calls and the iterations of a repetition; running out of it is
  \<open>OutOfFuel\<close>. The functions between two calls of \<open>solveElement\<close> take it as an argument \<open>E\<close>.
\<close>

section \<open>Runs\<close>

datatype stop = Panic | OutOfFuel

text \<open>A loop that appends what each of its steps yields.\<close>

fun collect :: "('a \<Rightarrow> stop + 'b list) \<Rightarrow> 'a list \<Rightarrow> stop + 'b list" where
  "collect f [] = Inr []"
| "collect f (x # xs) = bind (f x) (\<lambda>ys. bind (collect f xs) (\<lambda>zs. Inr (ys @ zs)))"

section \<open>Paths\<close>

datatype path = Path (Subpaths: "path list") (MatchRule: bytes) (Start: nat) (End: nat)

fun path_nodes :: "path \<Rightarrow> nat" where
  "path_nodes (Path ps name i j) = Suc (sum_list (map path_nodes ps))"

lemma path_nodes_subpaths: "path_nodes p = Suc (sum_list (map path_nodes (Subpaths p)))"
  by (cases p) simp

lemma path_nodes_subpath: "q \<in> set (Subpaths p) \<Longrightarrow> path_nodes q < path_nodes p"
  by (simp add: path_nodes_subpaths [of p] le_imp_less_Suc member_le_sum_list)

definition stamp :: "bytes \<Rightarrow> path \<Rightarrow> path" where
  "stamp name p = Path (Subpaths p) name (Start p) (End p)"

definition leaf :: "nat \<Rightarrow> nat \<Rightarrow> path" where
  "leaf i j = Path [] [] i j"

section \<open>Matching\<close>

definition mustParseNumVal :: "bytes \<Rightarrow> bytes \<Rightarrow> stop + rune" where
  "mustParseNumVal v base = (case ParseNumVal v base of None \<Rightarrow> Inl Panic | Some r \<Rightarrow> Inr r)"

text \<open>The conversion \<open>string(r)\<close> of a rune.\<close>

definition rune_string :: "rune \<Rightarrow> bytes" where
  "rune_string r = encode_rune (if scalar r then r else RuneError)"

definition shouldContinueRepetition :: "repetition \<Rightarrow> bytes \<Rightarrow> nat \<Rightarrow> int \<Rightarrow> bool" where
  "shouldContinueRepetition r input index iteration =
     (let couldMatch =
            (case Element r of
               NumValElement base status vs \<Rightarrow> index < length input
             | CharValElement sensitive v \<Rightarrow> index + length v \<le> length input
             | ProseValElement v \<Rightarrow> False
             | _ \<Rightarrow> True)
      in if Max r = Inf then couldMatch else couldMatch \<and> iteration < Max r)"

text \<open>A byte of the input matches a byte of a char-val: letters in either case, unless the char-val
  is sensitive.\<close>

definition same_char :: "bool \<Rightarrow> byte \<Rightarrow> byte \<Rightarrow> bool" where
  "same_char sensitive inputByte valueByte \<longleftrightarrow>
     (if sensitive then inputByte = valueByte else ascii_lower inputByte = ascii_lower valueByte)"

definition matchCharVal :: "bool \<Rightarrow> bytes \<Rightarrow> bytes \<Rightarrow> nat \<Rightarrow> path list" where
  "matchCharVal sensitive v input index =
     (if index + length v > length input then []
      else if list_all2 (same_char sensitive) (take (length v) (drop index input)) v
      then [leaf index (index + length v)]
      else [])"

definition matchRange :: "rune \<Rightarrow> rune \<Rightarrow> bytes \<Rightarrow> nat \<Rightarrow> path list" where
  "matchRange low high input index =
     (let (r, size) = decode_rune (drop index input)
      in if r = RuneError \<and> size \<le> 1 then []
         else if low \<le> r \<and> r \<le> high then [leaf index (index + size)]
         else [])"

fun matchSeries :: "bytes \<Rightarrow> bytes list \<Rightarrow> bytes \<Rightarrow> nat \<Rightarrow> nat \<Rightarrow> stop + path list" where
  "matchSeries base [] input index end_index = Inr [leaf index end_index]"
| "matchSeries base (v # vs) input index end_index =
     bind (mustParseNumVal v base) (\<lambda>r.
       let expected = rune_string r
       in if end_index + length expected > length input \<or>
             take (length expected) (drop end_index input) \<noteq> expected
          then Inr []
          else matchSeries base vs input index (end_index + length expected))"

definition matchNumVal ::
  "bytes \<Rightarrow> num_val_status \<Rightarrow> bytes list \<Rightarrow> bytes \<Rightarrow> nat \<Rightarrow> stop + path list" where
  "matchNumVal base status vs input index =
     (case status of
        NumValStatusRange \<Rightarrow>
          (case vs of
             v0 # v1 # _ \<Rightarrow>
               bind (mustParseNumVal v0 base) (\<lambda>low.
               bind (mustParseNumVal v1 base) (\<lambda>high. Inr (matchRange low high input index)))
           | [v0] \<Rightarrow> bind (mustParseNumVal v0 base) (\<lambda>low. Inl Panic)
           | [] \<Rightarrow> Inl Panic)
      | NumValStatusSeries \<Rightarrow> matchSeries base vs input index index)"

section \<open>Solving\<close>

type_synonym solver = "element \<Rightarrow> nat \<Rightarrow> stop + path list"

text \<open>An iteration of a repetition after the first, from the paths of the one before.\<close>

definition next_iteration ::
  "solver \<Rightarrow> repetition \<Rightarrow> bytes \<Rightarrow> int \<Rightarrow> path list \<Rightarrow> stop + path list" where
  "next_iteration E r input i previousPaths =
     collect (\<lambda>previousPath.
         if \<not> shouldContinueRepetition r input (End previousPath) i then Inr []
         else
           bind (E (Element r) (End previousPath)) (\<lambda>elementPaths.
             Inr (map (\<lambda>elementPath.
                    Path (Subpaths previousPath @ [elementPath]) [] (Start previousPath)
                      (End elementPath)) elementPaths)))
       previousPaths"

fun iterations ::
  "nat \<Rightarrow> solver \<Rightarrow> repetition \<Rightarrow> bytes \<Rightarrow> int \<Rightarrow> path list \<Rightarrow> stop + path list list" where
  "iterations fuel E r input i previousPaths =
     (if i = Max r then Inr []
      else
        (case fuel of
           0 \<Rightarrow> Inl OutOfFuel
         | Suc fuel \<Rightarrow>
             bind (next_iteration E r input i previousPaths) (\<lambda>currentPaths.
               if currentPaths = [] then Inr []
               else
                 bind (iterations fuel E r input (i + 1) currentPaths) (\<lambda>later.
                   Inr (currentPaths # later)))))"

declare iterations.simps [simp del]

definition solveRepetition ::
  "nat \<Rightarrow> solver \<Rightarrow> repetition \<Rightarrow> bytes \<Rightarrow> nat \<Rightarrow> stop + path list" where
  "solveRepetition fuel E r input index =
     (let paths = (if Min r = 0 then [Path [leaf index index] [] index index] else [])
      in if \<not> shouldContinueRepetition r input index 0 then Inr paths
         else
           bind (E (Element r) index) (\<lambda>first.
           bind (iterations fuel E r input 1 first) (\<lambda>later.
             Inr (paths @ concat (drop (nat (max 1 (Min r)) - 1) (first # later))))))"

definition extend_path :: "nat \<Rightarrow> path \<Rightarrow> path \<Rightarrow> path" where
  "extend_path index concatenationPath p =
     (if Start p = End p then concatenationPath
      else
        let subpaths = Subpaths concatenationPath;
            subpaths =
              (if subpaths \<noteq> [] \<and> Start (last subpaths) = End (last subpaths) then butlast subpaths
               else subpaths)
        in Path (subpaths @ [p]) [] index (End p))"

fun solve_following ::
  "nat \<Rightarrow> solver \<Rightarrow> repetition list \<Rightarrow> bytes \<Rightarrow> nat \<Rightarrow> path list \<Rightarrow> stop + path list" where
  "solve_following fuel E [] input index concatenationPaths = Inr concatenationPaths"
| "solve_following fuel E (r # rs) input index concatenationPaths =
     bind
       (collect (\<lambda>concatenationPath.
           bind (solveRepetition fuel E r input (End concatenationPath)) (\<lambda>paths.
             Inr (map (extend_path index concatenationPath) paths)))
         concatenationPaths)
       (solve_following fuel E rs input index)"

definition solve_concatenation ::
  "nat \<Rightarrow> solver \<Rightarrow> bytes \<Rightarrow> nat \<Rightarrow> concatenation \<Rightarrow> stop + path list" where
  "solve_concatenation fuel E input index c =
     (case Repetitions c of
        [] \<Rightarrow> Inl Panic
      | r # rs \<Rightarrow>
          bind (solveRepetition fuel E r input index) (\<lambda>paths.
            solve_following fuel E rs input index
              (map (\<lambda>p. Path [p] [] index (End p)) paths)))"

definition solveAlternation ::
  "nat \<Rightarrow> solver \<Rightarrow> alternation \<Rightarrow> bytes \<Rightarrow> nat \<Rightarrow> stop + path list" where
  "solveAlternation fuel E a input index =
     collect (solve_concatenation fuel E input index) (Concatenations a)"

fun solveElement :: "nat \<Rightarrow> grammar \<Rightarrow> bytes \<Rightarrow> element \<Rightarrow> nat \<Rightarrow> stop + path list" where
  "solveElement 0 g input e index = Inl OutOfFuel"
| "solveElement (Suc fuel) g input e index =
     (let E = solveElement fuel g input
      in case e of
           RulenameElement name \<Rightarrow>
             (case getRule name g of
                None \<Rightarrow> Inr []
              | Some r \<Rightarrow>
                  bind (solveAlternation fuel E (rule_alternation r) input index) (\<lambda>paths.
                    Inr (map (stamp name) paths)))
         | OptionElement a \<Rightarrow> solveRepetition fuel E (Repetition 0 1 (GroupElement a)) input index
         | GroupElement a \<Rightarrow> solveAlternation fuel E a input index
         | ListElement mn mx e expansion \<Rightarrow>
             solveAlternation fuel E (list_alternation mn mx e expansion) input index
         | CharValElement sensitive v \<Rightarrow> Inr (matchCharVal sensitive v input index)
         | NumValElement base status vs \<Rightarrow> matchNumVal base status vs input index
         | ProseValElement v \<Rightarrow> Inr [])"

text \<open>\<open>Parse\<close>: \<open>None\<close> is its \<open>RuleNotFoundError\<close>.\<close>

definition Parse :: "nat \<Rightarrow> bytes \<Rightarrow> grammar \<Rightarrow> bytes \<Rightarrow> stop + path list option" where
  "Parse fuel input g rootRulename =
     (case getRule rootRulename g of
        None \<Rightarrow> Inr None
      | Some rootRule \<Rightarrow>
          bind (solveAlternation fuel (solveElement fuel g input) (rule_alternation rootRule) input 0)
            (\<lambda>possibilities.
               Inr (Some (map (stamp rootRulename)
                 (filter (\<lambda>p. End p = length input) possibilities)))))"

end
