(* ===== verification/Abnf_Semantics.thy ===== *)
theory Abnf_Semantics
  imports Abnf_Parse
begin

text \<open>
  The words an ABNF element derives, as RFC 5234 has them (\<open>derives\<close>), and the proof that what
  the parser answers are exactly those words of its input. The interface between the two is the
  locale \<open>exact_solver\<close>: a solver whose answers for an element are the parts of the input in a
  language. Repetitions, concatenations and alternations solved with such a solver are exact, too;
  \<open>solveElement\<close> is one by induction on its fuel.
\<close>

section \<open>Languages\<close>

primrec copies :: "(bytes \<Rightarrow> bool) \<Rightarrow> nat \<Rightarrow> bytes \<Rightarrow> bool" where
  "copies L 0 w \<longleftrightarrow> w = []"
| "copies L (Suc k) w \<longleftrightarrow> (\<exists>u v. w = u @ v \<and> L u \<and> copies L k v)"

definition rep_lang :: "(element \<Rightarrow> bytes \<Rightarrow> bool) \<Rightarrow> repetition \<Rightarrow> bytes \<Rightarrow> bool" where
  "rep_lang L r w \<longleftrightarrow>
     (\<exists>k. Min r \<le> int k \<and> (Max r = Inf \<or> int k \<le> Max r) \<and> copies (L (Element r)) k w)"

primrec seq_lang :: "(element \<Rightarrow> bytes \<Rightarrow> bool) \<Rightarrow> repetition list \<Rightarrow> bytes \<Rightarrow> bool" where
  "seq_lang L [] w \<longleftrightarrow> w = []"
| "seq_lang L (r # rs) w \<longleftrightarrow> (\<exists>u v. w = u @ v \<and> rep_lang L r u \<and> seq_lang L rs v)"

definition alt_lang :: "(element \<Rightarrow> bytes \<Rightarrow> bool) \<Rightarrow> alternation \<Rightarrow> bytes \<Rightarrow> bool" where
  "alt_lang L a w \<longleftrightarrow> (\<exists>c \<in> set (Concatenations a). seq_lang L (Repetitions c) w)"

lemma copies_mono: "(\<And>w. L w \<longrightarrow> L' w) \<Longrightarrow> copies L k w \<longrightarrow> copies L' k w"
  by (induction k arbitrary: w) auto

lemma rep_lang_mono:
  assumes "\<And>e w. L e w \<longrightarrow> L' e w" shows "rep_lang L r w \<longrightarrow> rep_lang L' r w"
proof -
  have "copies (L (Element r)) k w \<longrightarrow> copies (L' (Element r)) k w" for k
    by (rule copies_mono) (rule assms)
  then show ?thesis by (auto simp: rep_lang_def)
qed

lemma seq_lang_mono:
  assumes "\<And>e w. L e w \<longrightarrow> L' e w" shows "seq_lang L rs w \<longrightarrow> seq_lang L' rs w"
proof (induction rs arbitrary: w)
  case (Cons r rs)
  then show ?case using rep_lang_mono [of L L' r, OF assms] by simp blast
qed simp

lemma alt_lang_mono [mono]:
  assumes "\<And>e w. L e w \<longrightarrow> L' e w" shows "alt_lang L a w \<longrightarrow> alt_lang L' a w"
  using seq_lang_mono [of L L', OF assms] by (auto simp: alt_lang_def)

inductive derives :: "grammar \<Rightarrow> element \<Rightarrow> bytes \<Rightarrow> bool" for g where
  rulename: "getRule name g = Some r \<Longrightarrow> alt_lang (derives g) (rule_alternation r) w \<Longrightarrow>
    derives g (RulenameElement name) w"
| group: "alt_lang (derives g) a w \<Longrightarrow> derives g (GroupElement a) w"
| option_none: "derives g (OptionElement a) []"
| option_some: "alt_lang (derives g) a w \<Longrightarrow> derives g (OptionElement a) w"
| list: "alt_lang (derives g) (list_alternation mn mx e expansion) w \<Longrightarrow>
    derives g (ListElement mn mx e expansion) w"
| char_val: "list_all2 (same_char sensitive) w v \<Longrightarrow> derives g (CharValElement sensitive v) w"
| num_range: "ParseNumVal v0 base = Some low \<Longrightarrow> ParseNumVal v1 base = Some high \<Longrightarrow>
    scalar r \<Longrightarrow> low \<le> r \<Longrightarrow> r \<le> high \<Longrightarrow>
    derives g (NumValElement base NumValStatusRange (v0 # v1 # vs)) (encode_rune r)"
| num_series: "list_all2 (\<lambda>v r. ParseNumVal v base = Some r) vs rs \<Longrightarrow>
    derives g (NumValElement base NumValStatusSeries vs) (concat (map rune_string rs))"

inductive_cases derives_rulenameE: "derives g (RulenameElement name) w"
inductive_cases derives_groupE: "derives g (GroupElement a) w"
inductive_cases derives_optionE: "derives g (OptionElement a) w"
inductive_cases derives_listE: "derives g (ListElement mn mx e x) w"
inductive_cases derives_charE: "derives g (CharValElement s v) w"
inductive_cases derives_rangeE: "derives g (NumValElement base NumValStatusRange vs) w"
inductive_cases derives_seriesE: "derives g (NumValElement base NumValStatusSeries vs) w"
inductive_cases derives_proseE: "derives g (ProseValElement v) w"

section \<open>Parts of the input\<close>

definition slice :: "bytes \<Rightarrow> nat \<Rightarrow> nat \<Rightarrow> bytes" where
  "slice input i j = take (j - i) (drop i input)"

lemma slice_same [simp]: "slice input i i = []"
  by (simp add: slice_def)

lemma slice_Nil: "i \<le> j \<Longrightarrow> j \<le> length input \<Longrightarrow> slice input i j = [] \<longleftrightarrow> i = j"
  by (auto simp: slice_def)

lemma length_slice: "j \<le> length input \<Longrightarrow> length (slice input i j) = j - i"
  by (simp add: slice_def)

lemma slice_append:
  "i \<le> j \<Longrightarrow> j \<le> k \<Longrightarrow> k \<le> length input \<Longrightarrow> slice input i k = slice input i j @ slice input j k"
  using take_add [of "j - i" "k - j" "drop i input"] by (simp add: slice_def)

lemma slice_split:
  assumes "slice input i k = u @ v" "i \<le> k" "k \<le> length input"
  obtains j where "i \<le> j" "j \<le> k" "u = slice input i j" "v = slice input j k"
proof
  let ?j = "i + length u"
  have l: "k - i = length u + length v" using arg_cong [OF assms(1), of length] assms(2,3)
    by (simp add: length_slice)
  show "i \<le> ?j" "?j \<le> k" using l assms(2) by simp_all
  then have "slice input i k = slice input i ?j @ slice input ?j k"
    using assms by (intro slice_append) simp_all
  moreover have "length (slice input i ?j) = length u" using l assms(2,3) by (simp add: slice_def)
  ultimately show "u = slice input i ?j" "v = slice input ?j k" using assms(1) by simp_all
qed

text \<open>What a list of paths from an index answers: the words of a language there.\<close>

definition answers :: "(bytes \<Rightarrow> bool) \<Rightarrow> bytes \<Rightarrow> nat \<Rightarrow> path list \<Rightarrow> bool" where
  "answers L input i ps \<longleftrightarrow>
     (\<forall>p \<in> set ps. Start p = i \<and> i \<le> End p \<and> End p \<le> length input) \<and>
     (\<forall>j. i \<le> j \<longrightarrow> j \<le> length input \<longrightarrow> (j \<in> End ` set ps \<longleftrightarrow> L (slice input i j)))"

lemma answersD:
  assumes "answers L input i ps" "p \<in> set ps"
  shows "Start p = i" "i \<le> End p" "End p \<le> length input" "L (slice input i (End p))"
  using assms by (auto simp: answers_def)

lemma answers_ex:
  assumes "answers L input i ps" "L (slice input i j)" "i \<le> j" "j \<le> length input"
  obtains p where "p \<in> set ps" "End p = j"
  using assms by (auto simp: answers_def)

lemma answersI:
  assumes "\<And>p. p \<in> set ps \<Longrightarrow> Start p = i \<and> i \<le> End p \<and> End p \<le> length input \<and> L (slice input i (End p))"
    and "\<And>j. i \<le> j \<Longrightarrow> j \<le> length input \<Longrightarrow> L (slice input i j) \<Longrightarrow> \<exists>p \<in> set ps. End p = j"
  shows "answers L input i ps"
  using assms by (force simp: answers_def image_iff)

lemma collect_set:
  assumes "collect f xs = Inr ys"
  shows "set ys = (\<Union>x \<in> set xs. set (projr (f x)))" "x \<in> set xs \<Longrightarrow> \<exists>zs. f x = Inr zs"
  using assms by (induction xs arbitrary: ys) (auto simp: bind_Inr)

section \<open>Exact solvers\<close>

lemma shouldContinue_iff:
  "shouldContinueRepetition r input i k \<longleftrightarrow>
     shouldContinueRepetition (Repetition 0 Inf (Element r)) input i 0 \<and> (Max r = Inf \<or> k < Max r)"
  by (auto simp: shouldContinueRepetition_def Let_def)

lemma copies_snoc: "copies L (Suc k) w \<longleftrightarrow> (\<exists>u v. w = u @ v \<and> copies L k u \<and> L v)"
proof (induction k arbitrary: w)
  case (Suc k)
  have "copies L (Suc (Suc k)) w \<longleftrightarrow> (\<exists>u v. w = u @ v \<and> L u \<and> copies L (Suc k) v)" by simp
  also have "\<dots> \<longleftrightarrow> (\<exists>u x y. w = u @ x @ y \<and> L u \<and> copies L k x \<and> L y)" unfolding Suc.IH by auto
  also have "\<dots> \<longleftrightarrow> (\<exists>u v. w = u @ v \<and> copies L (Suc k) u \<and> L v)" by (auto, metis append.assoc, blast)
  finally show ?case .
qed auto

lemma in_concat_drop:
  "x \<in> set (concat (drop d xss)) \<longleftrightarrow> (\<exists>m < length xss. d \<le> m \<and> x \<in> set (xss ! m))"
proof
  assume "x \<in> set (concat (drop d xss))"
  then obtain xs where "xs \<in> set (drop d xss)" "x \<in> set xs" by auto
  then obtain n where "n < length xss - d" "x \<in> set (xss ! (d + n))" by (auto simp: in_set_conv_nth [of xs])
  then show "\<exists>m < length xss. d \<le> m \<and> x \<in> set (xss ! m)" by (intro exI [of _ "d + n"]) auto
next
  assume "\<exists>m < length xss. d \<le> m \<and> x \<in> set (xss ! m)"
  then obtain m where m: "m < length xss" "d \<le> m" "x \<in> set (xss ! m)" by blast
  then have "drop d xss ! (m - d) = xss ! m" "m - d < length (drop d xss)" by auto
  then have "xss ! m \<in> set (drop d xss)" by (metis nth_mem)
  then show "x \<in> set (concat (drop d xss))" using m(3) by auto
qed

definition counts_ok :: "repetition \<Rightarrow> bool" where
  "counts_ok r \<longleftrightarrow> 0 \<le> Min r \<and> (Max r = Inf \<or> 0 \<le> Max r)"

definition ok_rep :: "(element \<Rightarrow> bool) \<Rightarrow> repetition \<Rightarrow> bool" where
  "ok_rep ok r \<longleftrightarrow> ok (Element r) \<and> counts_ok r"

locale exact_solver =
  fixes E :: solver and L :: "element \<Rightarrow> bytes \<Rightarrow> bool" and ok :: "element \<Rightarrow> bool" and input :: bytes
  assumes exact: "ok e \<Longrightarrow> i \<le> length input \<Longrightarrow> E e i = Inr ps \<Longrightarrow> answers (L e) input i ps"
    and could: "ok e \<Longrightarrow> L e (slice input i j) \<Longrightarrow> i \<le> j \<Longrightarrow> j \<le> length input \<Longrightarrow>
      shouldContinueRepetition (Repetition 0 Inf e) input i 0"
begin

lemma next_iteration_answers:
  assumes prev: "answers (copies (L (Element r)) k) input i prev" and ok: "ok (Element r)"
    and i: "i \<le> length input" and r: "Max r = Inf \<or> int k < Max r"
    and run: "next_iteration E r input (int k) prev = Inr cur"
  shows "answers (copies (L (Element r)) (Suc k)) input i cur"
proof (rule answersI)
  define step where "step = (\<lambda>previousPath.
         if \<not> shouldContinueRepetition r input (End previousPath) (int k) then Inr []
         else
           bind (E (Element r) (End previousPath)) (\<lambda>elementPaths.
             Inr (map (\<lambda>elementPath.
                    Path (Subpaths previousPath @ [elementPath]) [] (Start previousPath)
                      (End elementPath)) elementPaths)))"
  have c: "collect step prev = Inr cur" using run by (simp add: next_iteration_def step_def)
  fix p assume "p \<in> set cur"
  then obtain q where q: "q \<in> set prev" "p \<in> set (projr (step q))" using collect_set(1) [OF c] by blast
  obtain zs where "step q = Inr zs" using collect_set(2) [OF c q(1)] by blast
  with q(2) obtain es e where es: "E (Element r) (End q) = Inr es" "e \<in> set es"
    "Start p = Start q" "End p = End e" by (auto simp: step_def bind_Inr split: if_splits)
  note Q = answersD [OF prev q(1)] and P = answersD [OF exact [OF ok Q(3) es(1)] es(2)]
  have "slice input i (End p) = slice input i (End q) @ slice input (End q) (End e)"
    unfolding es(4) using Q P by (intro slice_append) simp_all
  with Q P es show "Start p = i \<and> i \<le> End p \<and> End p \<le> length input \<and>
      copies (L (Element r)) (Suc k) (slice input i (End p))" unfolding copies_snoc by auto
next
  define step where "step = (\<lambda>previousPath.
         if \<not> shouldContinueRepetition r input (End previousPath) (int k) then Inr []
         else
           bind (E (Element r) (End previousPath)) (\<lambda>elementPaths.
             Inr (map (\<lambda>elementPath.
                    Path (Subpaths previousPath @ [elementPath]) [] (Start previousPath)
                      (End elementPath)) elementPaths)))"
  have c: "collect step prev = Inr cur" using run by (simp add: next_iteration_def step_def)
  fix j assume j: "i \<le> j" "j \<le> length input" and "copies (L (Element r)) (Suc k) (slice input i j)"
  then obtain u v where "slice input i j = u @ v" "copies (L (Element r)) k u" "L (Element r) v"
    unfolding copies_snoc by blast
  with slice_split [OF this(1) j] obtain m where m: "i \<le> m" "m \<le> j" "copies (L (Element r)) k (slice input i m)"
    "L (Element r) (slice input m j)" by metis
  from answers_ex [OF prev m(3)] m j obtain q where q: "q \<in> set prev" "End q = m" by auto
  obtain zs where z: "step q = Inr zs" using collect_set(2) [OF c q(1)] by blast
  have "shouldContinueRepetition r input (End q) (int k)"
    unfolding q(2) shouldContinue_iff [of r] using could [OF ok m(4) m(2) j(2)] r by simp
  with z q(2) obtain es where es: "E (Element r) m = Inr es"
    "zs = map (\<lambda>e. Path (Subpaths q @ [e]) [] (Start q) (End e)) es" by (auto simp: step_def bind_Inr)
  have "m \<le> length input" using m j by simp
  from answers_ex [OF exact [OF ok this es(1)] m(4) m(2) j(2)] obtain e where "e \<in> set es" "End e = j" .
  then have "\<exists>p \<in> set zs. End p = j" unfolding es(2) by force
  then show "\<exists>p \<in> set cur. End p = j" using collect_set(1) [OF c] q(1) z by force
qed

lemma no_more_copies:
  assumes "answers (copies l k) input i []" "i \<le> j" "j \<le> length input"
  shows "\<not> copies l (k + n) (slice input i j)"
  using assms(2,3)
proof (induction n arbitrary: j)
  case 0
  then show ?case using assms(1) by (simp add: answers_def)
next
  case (Suc n)
  show ?case
  proof
    assume "copies l (k + Suc n) (slice input i j)"
    then obtain u v where "slice input i j = u @ v" "copies l (k + n) u"
      using copies_snoc [of l "k + n"] by auto
    with slice_split [OF this(1) Suc.prems] obtain m where "i \<le> m" "m \<le> j" "copies l (k + n) (slice input i m)"
      by metis
    with Suc.IH [of m] Suc.prems show False by simp
  qed
qed

text \<open>The iterations after the first: the \<open>m\<close>-th holds the words of \<open>k + 1 + m\<close> factors, and beyond
  the last there are none within the bounds.\<close>

lemma iterations_answers:
  fixes r i
  defines "A \<equiv> \<lambda>k. answers (copies (L (Element r)) k) input i"
    and "N \<equiv> \<lambda>k. (Max r = Inf \<or> int k \<le> Max r) \<longrightarrow>
      (\<forall>j. i \<le> j \<longrightarrow> j \<le> length input \<longrightarrow> \<not> copies (L (Element r)) k (slice input i j))"
  assumes "iterations fuel E r input (int k) prev = Inr later"
    and "A k prev" "ok (Element r)" "i \<le> length input" "Max r = Inf \<or> int k \<le> Max r"
  shows "(\<forall>m < length later. A (Suc k + m) (later ! m)) \<and> (\<forall>m \<ge> length later. N (Suc k + m)) \<and>
    (Max r = Inf \<or> int (k + length later) \<le> Max r)"
  using assms(3-)
proof (induction fuel arbitrary: k prev later)
  case 0
  then have "int k = Max r" "later = []" by (simp_all add: iterations.simps split: if_splits)
  then show ?case by (auto simp: Inf_def N_def)
next
  case (Suc fuel)
  note prems = Suc.prems
  show ?case
  proof (cases "int k = Max r")
    case True
    then have "later = []" using prems(1) by (simp add: iterations.simps)
    then show ?thesis using True by (auto simp: Inf_def N_def)
  next
    case False
    have m: "Max r = Inf \<or> int k < Max r" using False prems(5) by auto
    obtain cur where cur: "next_iteration E r input (int k) prev = Inr cur"
      and rest: "(if cur = [] then Inr [] else bind (iterations fuel E r input (int k + 1) cur)
        (\<lambda>later. Inr (cur # later))) = Inr later"
      using prems(1) False by (auto simp: iterations.simps [of "Suc fuel"] bind_Inr)
    have a: "A (Suc k) cur" unfolding A_def
      by (rule next_iteration_answers [OF prems(2) [unfolded A_def] prems(3,4) m cur])
    have m': "Max r = Inf \<or> int (Suc k) \<le> Max r" using m by auto
    show ?thesis
    proof (cases "cur = []")
      case True
      have "N (Suc k + n)" for n
        using no_more_copies [of "L (Element r)" "Suc k" i _ n] a unfolding N_def A_def True by blast
      then show ?thesis using True rest m by auto
    next
      case F: False
      obtain rest' where r': "iterations fuel E r input (int (Suc k)) cur = Inr rest'" "later = cur # rest'"
        using rest F by (auto simp: bind_Inr add.commute)
      have IH: "(\<forall>m < length rest'. A (Suc (Suc k) + m) (rest' ! m)) \<and>
          (\<forall>m \<ge> length rest'. N (Suc (Suc k) + m)) \<and> (Max r = Inf \<or> int (Suc k + length rest') \<le> Max r)"
        by (rule Suc.IH [OF r'(1) a prems(3,4) m'])
      have "A (Suc k + n) (later ! n)" if "n < length later" for n
        using that IH a by (cases n) (auto simp: r'(2))
      moreover have "N (Suc k + n)" if "n \<ge> length later" for n
        using that IH by (cases n) (auto simp: r'(2))
      ultimately show ?thesis using IH by (auto simp: r'(2))
    qed
  qed
qed

lemma solveRepetition_answers:
  assumes ok: "ok (Element r)" "counts_ok r" and i: "i \<le> length input"
    and run: "solveRepetition fuel E r input i = Inr ps"
  shows "answers (rep_lang L r) input i ps"
proof -
  let ?l = "L (Element r)"
  let ?e = "Path [leaf i i] [] i i"
  let ?paths = "if Min r = 0 then [?e] else []"
  let ?c = "shouldContinueRepetition r input i 0"
  have zero: "rep_lang L r []" if "Min r = 0"
    unfolding rep_lang_def using that ok(2) by (auto simp: counts_ok_def intro: exI [of _ 0])
  have first: ?c if k: "copies ?l k (slice input i j)" "0 < k" "int k \<le> Max r \<or> Max r = Inf"
    and j: "i \<le> j" "j \<le> length input" for j k
  proof -
    obtain u v where "slice input i j = u @ v" "?l u" using k(1,2) by (cases k) auto
    with slice_split [OF this(1) j] obtain m where "i \<le> m" "m \<le> j" "?l (slice input i m)" by metis
    with could [OF ok(1)] k j show ?c unfolding shouldContinue_iff [of r] by auto
  qed
  have none: "answers (rep_lang L r) input i ?paths" if "\<not> ?c"
  proof (rule answersI)
    fix p assume "p \<in> set ?paths"
    then show "Start p = i \<and> i \<le> End p \<and> End p \<le> length input \<and> rep_lang L r (slice input i (End p))"
      using zero i by (auto split: if_splits)
  next
    fix j assume j: "i \<le> j" "j \<le> length input" "rep_lang L r (slice input i j)"
    then obtain k where k: "Min r \<le> int k" "Max r = Inf \<or> int k \<le> Max r" "copies ?l k (slice input i j)"
      unfolding rep_lang_def by blast
    then have "k = 0" using first [of k j] j that by blast
    then have "Min r = 0" "i = j" using k ok(2) j by (auto simp: counts_ok_def slice_Nil)
    then show "\<exists>p \<in> set ?paths. End p = j" by simp
  qed
  show ?thesis
  proof (cases ?c)
    case False
    then show ?thesis using run none by (simp add: solveRepetition_def)
  next
    case True
    obtain fs later where fs: "E (Element r) i = Inr fs" and later: "iterations fuel E r input 1 fs = Inr later"
      and ps: "ps = ?paths @ concat (drop (nat (max 1 (Min r)) - 1) (fs # later))"
      using run True by (auto simp: solveRepetition_def Let_def bind_Inr)
    have max: "Max r = Inf \<or> int 1 \<le> Max r" using True unfolding shouldContinue_iff [of r] by auto
    have "answers ?l input i fs" by (rule exact [OF ok(1) i fs])
    moreover have "copies ?l 1 = ?l" by (simp add: fun_eq_iff)
    ultimately have A1: "answers (copies ?l 1) input i fs" by (simp only:)
    have run1: "iterations fuel E r input (int 1) fs = Inr later" using later by simp
    note it = iterations_answers [OF run1 A1 ok(1) i max]
    let ?it = "fs # later"
    have A: "answers (copies ?l (Suc m)) input i (?it ! m)" if "m < length ?it" for m
      using it A1 that by (cases m) auto
    have B: "Max r = Inf \<or> int (Suc m) \<le> Max r" if "m < length ?it" for m using it that by auto
    have N: "m < length ?it" if "copies ?l (Suc m) (slice input i j)" "i \<le> j" "j \<le> length input"
      "Max r = Inf \<or> int (Suc m) \<le> Max r" for m j
    proof (rule ccontr)
      assume "\<not> m < length ?it"
      then obtain n where n: "m = Suc n" "length later \<le> n" by (cases m) auto
      with it that show False by auto
    qed
    have in_ps: "p \<in> set ps \<longleftrightarrow> p \<in> set ?paths \<or> (\<exists>m < length ?it. Min r \<le> int (Suc m) \<and> p \<in> set (?it ! m))" for p
    proof -
      let ?d = "nat (max 1 (Min r)) - 1"
      have d: "?d \<le> m \<longleftrightarrow> Min r \<le> int (Suc m)" for m by auto
      have "p \<in> set ps \<longleftrightarrow> p \<in> set ?paths \<or> p \<in> set (concat (drop ?d ?it))" unfolding ps by simp
      then show ?thesis unfolding in_concat_drop d .
    qed
    show ?thesis
    proof (rule answersI)
      fix p assume "p \<in> set ps"
      then consider "p \<in> set ?paths" | m where "m < length ?it" "Min r \<le> int (Suc m)" "p \<in> set (?it ! m)"
        unfolding in_ps by blast
      then show "Start p = i \<and> i \<le> End p \<and> End p \<le> length input \<and> rep_lang L r (slice input i (End p))"
      proof cases
        case 1
        then show ?thesis using zero i by (auto split: if_splits)
      next
        case (2 m)
        show ?thesis using answersD [OF A [OF 2(1)] 2(3)] B [OF 2(1)] 2(2) unfolding rep_lang_def by blast
      qed
    next
      fix j assume j: "i \<le> j" "j \<le> length input" "rep_lang L r (slice input i j)"
      then obtain k where k: "Min r \<le> int k" "Max r = Inf \<or> int k \<le> Max r" "copies ?l k (slice input i j)"
        unfolding rep_lang_def by blast
      show "\<exists>p \<in> set ps. End p = j"
      proof (cases k)
        case 0
        then have "Min r = 0" "i = j" using k ok(2) j by (auto simp: counts_ok_def slice_Nil)
        then show ?thesis unfolding Bex_def in_ps by (intro exI [of _ ?e]) simp
      next
        case (Suc m)
        have m: "m < length ?it" using N [of m j] k j Suc by auto
        from answers_ex [OF A [OF m] _ j(1,2)] k(3) Suc obtain p where "p \<in> set (?it ! m)" "End p = j" by auto
        then show ?thesis using m k(1) Suc unfolding Bex_def in_ps by blast
      qed
    qed
  qed
qed

lemma extend_path_ends:
  assumes "Start c = i" "Start p = End c" "End c \<le> End p"
  shows "Start (extend_path i c p) = i" "End (extend_path i c p) = End p"
  using assms by (auto simp: extend_path_def Let_def)

lemma solve_following_answers:
  assumes "\<forall>r \<in> set rs. ok_rep ok r" "i \<le> length input" "answers l input i cps"
    and "solve_following fuel E rs input i cps = Inr ps"
  shows "answers (\<lambda>w. \<exists>u v. w = u @ v \<and> l u \<and> seq_lang L rs v) input i ps"
  using assms
proof (induction rs arbitrary: l cps)
  case Nil
  then show ?case by (simp add: answers_def)
next
  case (Cons r rs)
  define step where "step = (\<lambda>concatenationPath.
           bind (solveRepetition fuel E r input (End concatenationPath)) (\<lambda>paths.
             Inr (map (extend_path i concatenationPath) paths)))"
  obtain next_paths where n: "collect step cps = Inr next_paths"
    and rest: "solve_following fuel E rs input i next_paths = Inr ps"
    using Cons.prems(4) by (auto simp: bind_Inr step_def)
  have r: "ok (Element r)" "counts_ok r" using Cons.prems(1) by (auto simp: ok_rep_def)
  have "answers (\<lambda>w. \<exists>u v. w = u @ v \<and> l u \<and> rep_lang L r v) input i next_paths" (is "answers ?l' _ _ _")
  proof (rule answersI)
    fix p assume "p \<in> set next_paths"
    then obtain c where c: "c \<in> set cps" "p \<in> set (projr (step c))" using collect_set(1) [OF n] by blast
    obtain zs where "step c = Inr zs" using collect_set(2) [OF n c(1)] by blast
    with c(2) obtain qs q where q: "solveRepetition fuel E r input (End c) = Inr qs" "q \<in> set qs"
      "p = extend_path i c q" by (auto simp: step_def bind_Inr)
    note C = answersD [OF Cons.prems(3) c(1)]
    note Q = answersD [OF solveRepetition_answers [OF r C(3) q(1)] q(2)]
    note e = extend_path_ends [OF C(1) Q(1,2), folded q(3)]
    have "slice input i (End p) = slice input i (End c) @ slice input (End c) (End q)"
      unfolding e(2) using C Q by (intro slice_append) simp_all
    with C Q e show "Start p = i \<and> i \<le> End p \<and> End p \<le> length input \<and> ?l' (slice input i (End p))"
      by auto
  next
    fix j assume j: "i \<le> j" "j \<le> length input" and "?l' (slice input i j)"
    then obtain u v where "slice input i j = u @ v" "l u" "rep_lang L r v" by blast
    with slice_split [OF this(1) j] obtain m where m: "i \<le> m" "m \<le> j" "l (slice input i m)"
      "rep_lang L r (slice input m j)" by metis
    have ml: "m \<le> length input" using m j by simp
    from answers_ex [OF Cons.prems(3) m(3,1) ml] obtain c where c: "c \<in> set cps" "End c = m" .
    obtain zs where z: "step c = Inr zs" using collect_set(2) [OF n c(1)] by blast
    with c(2) obtain qs where qs: "solveRepetition fuel E r input m = Inr qs" "zs = map (extend_path i c) qs"
      by (auto simp: step_def bind_Inr)
    note A = solveRepetition_answers [OF r ml qs(1)]
    from answers_ex [OF A m(4,2) j(2)] obtain q where q: "q \<in> set qs" "End q = j" .
    have "End (extend_path i c q) = j"
      using extend_path_ends(2) [of c i q] answersD [OF Cons.prems(3) c(1)] answersD [OF A q(1)] c(2) q(2) by simp
    then have "\<exists>p \<in> set zs. End p = j" unfolding qs(2) using q(1) by auto
    then show "\<exists>p \<in> set next_paths. End p = j" using collect_set(1) [OF n] c(1) z by force
  qed
  from Cons.IH [OF _ Cons.prems(2) this rest] Cons.prems(1)
  have "answers (\<lambda>w. \<exists>u v. w = u @ v \<and> ?l' u \<and> seq_lang L rs v) input i ps" by simp
  moreover have "(\<exists>u v. w = u @ v \<and> ?l' u \<and> seq_lang L rs v) \<longleftrightarrow>
      (\<exists>u v. w = u @ v \<and> l u \<and> seq_lang L (r # rs) v)" for w
    by (auto, metis append.assoc, metis append.assoc)
  ultimately show ?case by simp
qed

lemma solve_concatenation_answers:
  assumes ok: "\<forall>r \<in> set (Repetitions c). ok_rep ok r" and i: "i \<le> length input"
    and run: "solve_concatenation fuel E input i c = Inr ps"
  shows "answers (seq_lang L (Repetitions c)) input i ps"
proof -
  obtain r rs where r: "Repetitions c = r # rs" using run by (cases "Repetitions c") (auto simp: solve_concatenation_def)
  obtain qs where qs: "solveRepetition fuel E r input i = Inr qs"
    and rest: "solve_following fuel E rs input i (map (\<lambda>p. Path [p] [] i (End p)) qs) = Inr ps"
    using run by (auto simp: solve_concatenation_def r bind_Inr)
  have "ok (Element r)" "counts_ok r" using ok by (auto simp: r ok_rep_def)
  note A = solveRepetition_answers [OF this i qs]
  then have "answers (rep_lang L r) input i (map (\<lambda>p. Path [p] [] i (End p)) qs)"
    by (auto simp: answers_def image_image)
  from solve_following_answers [OF _ i this rest] ok
  have "answers (\<lambda>w. \<exists>u v. w = u @ v \<and> rep_lang L r u \<and> seq_lang L rs v) input i ps" by (simp add: r)
  moreover have "(\<lambda>w. \<exists>u v. w = u @ v \<and> rep_lang L r u \<and> seq_lang L rs v) = seq_lang L (r # rs)"
    by (simp add: fun_eq_iff)
  ultimately show ?thesis by (simp only: r)
qed

lemma solveAlternation_answers:
  assumes ok: "\<forall>c \<in> set (Concatenations a). \<forall>r \<in> set (Repetitions c). ok_rep ok r" and i: "i \<le> length input"
    and run: "solveAlternation fuel E a input i = Inr ps"
  shows "answers (alt_lang L a) input i ps"
proof -
  let ?f = "solve_concatenation fuel E input i"
  have c: "collect ?f (Concatenations a) = Inr ps" using run by (simp add: solveAlternation_def)
  have A: "\<exists>zs. ?f c = Inr zs \<and> answers (seq_lang L (Repetitions c)) input i zs" if "c \<in> set (Concatenations a)" for c
    using collect_set(2) [OF c that] solve_concatenation_answers [OF _ i] ok that by blast
  show ?thesis
  proof (rule answersI)
    fix p assume "p \<in> set ps"
    then obtain c where c: "c \<in> set (Concatenations a)" "p \<in> set (projr (?f c))" using collect_set(1) [OF c] by blast
    obtain zs where z: "?f c = Inr zs" "answers (seq_lang L (Repetitions c)) input i zs" using A [OF c(1)] by blast
    with c(2) have "p \<in> set zs" by simp
    from answersD [OF z(2) this] c(1)
    show "Start p = i \<and> i \<le> End p \<and> End p \<le> length input \<and> alt_lang L a (slice input i (End p))"
      by (auto simp: alt_lang_def)
  next
    fix j assume j: "i \<le> j" "j \<le> length input" "alt_lang L a (slice input i j)"
    then obtain d where d: "d \<in> set (Concatenations a)" "seq_lang L (Repetitions d) (slice input i j)"
      by (auto simp: alt_lang_def)
    obtain zs where z: "?f d = Inr zs" "answers (seq_lang L (Repetitions d)) input i zs" using A [OF d(1)] by blast
    from answers_ex [OF z(2) d(2) j(1,2)] obtain p where "p \<in> set zs" "End p = j" .
    then show "\<exists>p \<in> set ps. End p = j" using collect_set(1) [OF c] d(1) z(1) by force
  qed
qed

end

section \<open>Proper grammars\<close>

text \<open>The bounds and numerals every parsed grammar has: no negative counts but \<open>Inf\<close>, and at
  least one value to a num-val.\<close>

fun proper :: "element \<Rightarrow> bool"
  and proper_alt :: "alternation \<Rightarrow> bool"
  and proper_cat :: "concatenation \<Rightarrow> bool"
  and proper_rep :: "repetition \<Rightarrow> bool"
where
  "proper (RulenameElement name) = True"
| "proper (GroupElement a) = proper_alt a"
| "proper (OptionElement a) = proper_alt a"
| "proper (CharValElement sensitive v) = True"
| "proper (NumValElement base status vs) = (vs \<noteq> [])"
| "proper (ListElement mn mx e expansion) =
     (0 \<le> mn \<and> (mx = Inf \<or> 0 \<le> mx) \<and> proper e \<and>
      (case expansion of None \<Rightarrow> True | Some a \<Rightarrow> proper_alt a))"
| "proper (ProseValElement v) = True"
| "proper_alt (Alternation cs) = (\<forall>c \<in> set cs. proper_cat c)"
| "proper_cat (Concatenation rs) = (\<forall>r \<in> set rs. proper_rep r)"
| "proper_rep (Repetition mn mx e) = (0 \<le> mn \<and> (mx = Inf \<or> 0 \<le> mx) \<and> proper e)"

definition proper_grammar :: "grammar \<Rightarrow> bool" where
  "proper_grammar g \<longleftrightarrow> (\<forall>name r. getRule name g = Some r \<longrightarrow> proper_alt (rule_alternation r))"

lemma proper_expandList:
  assumes "0 \<le> mn" "mx = Inf \<or> 0 \<le> mx" "proper e"
  shows "proper_alt (expandList mn mx e)"
  using assms by (auto simp: expandList_def builder_defs Inf_def Let_def)

lemma proper_list_alternation: "proper (ListElement mn mx e x) \<Longrightarrow> proper_alt (list_alternation mn mx e x)"
  by (cases x) (auto simp: list_alternation_def proper_expandList)

lemma proper_altD:
  "proper_alt a \<Longrightarrow> \<forall>c \<in> set (Concatenations a). \<forall>r \<in> set (Repetitions c). proper (Element r) \<and> counts_ok r"
proof (cases a)
  case (Alternation cs)
  assume a: "proper_alt a"
  have "proper (Element r) \<and> counts_ok r" if "c \<in> set cs" "r \<in> set (Repetitions c)" for c r
  proof -
    obtain rs mn mx e where "c = Concatenation rs" "r = Repetition mn mx e"
      by (cases c, cases r) auto
    then show ?thesis using a that Alternation by (fastforce simp: counts_ok_def)
  qed
  then show ?thesis by (simp add: Alternation)
qed

section \<open>Terminals\<close>

lemma matchCharVal_answers:
  "i \<le> length input \<Longrightarrow> answers (derives g (CharValElement sensitive v)) input i (matchCharVal sensitive v input i)"
proof (rule answersI, goal_cases)
  case (1 p)
  then have l: "i + length v \<le> length input" and p: "p = leaf i (i + length v)"
    and m: "list_all2 (same_char sensitive) (slice input i (i + length v)) v"
    by (auto simp: matchCharVal_def slice_def split: if_splits)
  then show ?case by (auto simp: leaf_def intro: derives.char_val)
next
  case (2 j)
  then have m: "list_all2 (same_char sensitive) (slice input i j) v" by (auto elim: derives_charE)
  from list_all2_lengthD [OF m] 2 have "j = i + length v" by (simp add: length_slice)
  with m 2 show ?case by (auto simp: matchCharVal_def leaf_def slice_def)
qed

lemma take_encode_rune:
  assumes "decode_rune s = (r, n)" "\<not> (r = RuneError \<and> n \<le> 1)"
  shows "n \<le> length s" "take n s = encode_rune r" "scalar r"
proof -
  have "s \<noteq> []" using assms by (auto simp: decode_rune_def decode_nats_def)
  moreover have "\<not> (r = RuneError \<and> n = 1)" using assms(2) by auto
  ultimately have "encode_rune r = take n s" "scalar r"
    using decode_rune_valid [OF assms(1)] by auto
  then show "take n s = encode_rune r" "scalar r" by simp_all
  have "decode_rune (encode_rune r @ drop n s) = (r, length (encode_rune r))"
    using \<open>scalar r\<close> by (rule decode_encode_rune)
  then have "n = length (encode_rune r)" using assms(1) \<open>encode_rune r = take n s\<close> by simp
  then show "n \<le> length s" using \<open>encode_rune r = take n s\<close> by simp
qed

lemma matchRange_answers:
  assumes "i \<le> length input" "ParseNumVal v0 base = Some low" "ParseNumVal v1 base = Some high"
  shows "answers (derives g (NumValElement base NumValStatusRange (v0 # v1 # vs))) input i
    (matchRange low high input i)"
proof (rule answersI)
  fix p assume p: "p \<in> set (matchRange low high input i)"
  obtain r n where d: "decode_rune (drop i input) = (r, n)" by fastforce
  from p have e: "\<not> (r = RuneError \<and> n \<le> 1)" and r: "low \<le> r" "r \<le> high" and "p = leaf i (i + n)"
    by (auto simp: matchRange_def d split: if_splits)
  note t = take_encode_rune [OF d e]
  have "slice input i (i + n) = encode_rune r" using t(2) by (simp add: slice_def)
  then show "Start p = i \<and> i \<le> End p \<and> End p \<le> length input \<and>
      derives g (NumValElement base NumValStatusRange (v0 # v1 # vs)) (slice input i (End p))"
    using \<open>p = _\<close> t(1) assms r t(3) by (auto simp: leaf_def intro: derives.num_range)
next
  fix j assume j: "i \<le> j" "j \<le> length input"
    and "derives g (NumValElement base NumValStatusRange (v0 # v1 # vs)) (slice input i j)"
  then obtain r where r: "slice input i j = encode_rune r" "scalar r" "low \<le> r" "r \<le> high"
    using assms(2,3) by (auto elim!: derives_rangeE)
  have l: "length (encode_rune r) = j - i" using arg_cong [OF r(1), of length] j by (simp add: length_slice)
  have "drop i input = encode_rune r @ drop j input"
    using append_take_drop_id [of "j - i" "drop i input"] r(1) j by (simp add: slice_def)
  then have d: "decode_rune (drop i input) = (r, j - i)" using decode_encode_rune [OF r(2)] l by simp
  have "\<not> (r = RuneError \<and> j - i \<le> 1)" using l encode_rune_not_error [of r]
    by (cases "encode_rune r") (auto simp: le_Suc_eq)
  then show "\<exists>p \<in> set (matchRange low high input i). End p = j"
    using r j by (simp add: matchRange_def d leaf_def)
qed

definition series_lang :: "bytes \<Rightarrow> bytes list \<Rightarrow> bytes \<Rightarrow> bool" where
  "series_lang base vs w \<longleftrightarrow>
     (\<exists>rs. list_all2 (\<lambda>v r. ParseNumVal v base = Some r) vs rs \<and> w = concat (map rune_string rs))"

lemma series_lang_simps:
  "series_lang base [] w \<longleftrightarrow> w = []"
  "series_lang base (v # vs) w \<longleftrightarrow>
     (\<exists>r x. ParseNumVal v base = Some r \<and> w = rune_string r @ x \<and> series_lang base vs x)"
proof -
  show "series_lang base (v # vs) w \<longleftrightarrow>
     (\<exists>r x. ParseNumVal v base = Some r \<and> w = rune_string r @ x \<and> series_lang base vs x)"
  proof
    assume "\<exists>r x. ParseNumVal v base = Some r \<and> w = rune_string r @ x \<and> series_lang base vs x"
    then obtain r rs where "ParseNumVal v base = Some r" "w = rune_string r @ concat (map rune_string rs)"
      "list_all2 (\<lambda>v r. ParseNumVal v base = Some r) vs rs" by (auto simp: series_lang_def)
    then show "series_lang base (v # vs) w"
      unfolding series_lang_def by (intro exI [of _ "r # rs"]) simp
  qed (auto simp: series_lang_def list_all2_Cons1)
qed (simp add: series_lang_def)

lemma slice_prefix:
  assumes "m \<le> j" "j \<le> length input"
  shows "(\<exists>x. slice input m j = w @ x \<and> P x) \<longleftrightarrow>
    m + length w \<le> j \<and> take (length w) (drop m input) = w \<and> P (slice input (m + length w) j)"
proof
  assume "\<exists>x. slice input m j = w @ x \<and> P x"
  then obtain x where x: "slice input m j = w @ x" "P x" by blast
  from slice_split [OF x(1) assms] obtain k where k: "m \<le> k" "k \<le> j" "w = slice input m k" "x = slice input k j" .
  then have "length w = k - m" using assms by (simp add: length_slice)
  then show "m + length w \<le> j \<and> take (length w) (drop m input) = w \<and> P (slice input (m + length w) j)"
    using k x(2) by (simp add: slice_def)
next
  assume a: "m + length w \<le> j \<and> take (length w) (drop m input) = w \<and> P (slice input (m + length w) j)"
  then have "slice input m j = w @ slice input (m + length w) j"
    using slice_append [of m "m + length w" j input] assms by (simp add: slice_def)
  then show "\<exists>x. slice input m j = w @ x \<and> P x" using a by blast
qed

lemma matchSeries_ends:
  assumes "matchSeries base vs input i m = Inr ps" "m \<le> length input"
  shows "(\<forall>p \<in> set ps. Start p = i \<and> m \<le> End p \<and> End p \<le> length input) \<and>
    (\<forall>j. m \<le> j \<longrightarrow> j \<le> length input \<longrightarrow> (j \<in> End ` set ps \<longleftrightarrow> series_lang base vs (slice input m j)))"
  using assms
proof (induction base vs input i m rule: matchSeries.induct)
  case (1 base input i m)
  then show ?case by (auto simp: leaf_def series_lang_simps slice_Nil)
next
  case (2 base v vs input i m)
  obtain r where r: "ParseNumVal v base = Some r"
    using 2(2) by (auto simp: mustParseNumVal_def bind_Inr split: option.splits)
  let ?x = "rune_string r"
  let ?bad = "m + length ?x > length input \<or> take (length ?x) (drop m input) \<noteq> ?x"
  have run: "(if ?bad then Inr [] else matchSeries base vs input i (m + length ?x)) = Inr ps"
    using 2(2) by (simp add: mustParseNumVal_def r Let_def)
  have L: "series_lang base (v # vs) (slice input m j) \<longleftrightarrow> m + length ?x \<le> j \<and>
      take (length ?x) (drop m input) = ?x \<and> series_lang base vs (slice input (m + length ?x) j)"
    if "m \<le> j" "j \<le> length input" for j
    using slice_prefix [OF that, of ?x "series_lang base vs"] by (simp add: series_lang_simps r)
  show ?case
  proof (cases ?bad)
    case True
    then show ?thesis using run L by auto
  next
    case False
    then have run': "matchSeries base vs input i (m + length ?x) = Inr ps" using run by simp
    have "mustParseNumVal v base = Inr r" by (simp add: mustParseNumVal_def r)
    from 2(1) [OF refl False run'] False
    have IH: "\<forall>p \<in> set ps. Start p = i \<and> m + length ?x \<le> End p \<and> End p \<le> length input"
      "\<forall>j \<ge> m + length ?x. j \<le> length input \<longrightarrow>
        (j \<in> End ` set ps \<longleftrightarrow> series_lang base vs (slice input (m + length ?x) j))" by auto
    show ?thesis
    proof (intro conjI allI impI)
      fix j assume j: "m \<le> j" "j \<le> length input"
      show "j \<in> End ` set ps \<longleftrightarrow> series_lang base (v # vs) (slice input m j)"
      proof (cases "m + length ?x \<le> j")
        case True
        then show ?thesis using IH(2) j(2) False by (simp add: L [OF j])
      next
        case N: False
        then have "j \<notin> End ` set ps" using IH(1) by auto
        then show ?thesis using N by (simp add: L [OF j])
      qed
    qed (use IH(1) in auto)
  qed
qed

lemma series_derives: "vs \<noteq> [] \<Longrightarrow>
    derives g (NumValElement base NumValStatusSeries vs) w \<longleftrightarrow> series_lang base vs w"
  by (auto simp: series_lang_def elim: derives_seriesE intro: derives.num_series)

lemma matchNumVal_answers:
  assumes "i \<le> length input" "vs \<noteq> []" "matchNumVal base status vs input i = Inr ps"
  shows "answers (derives g (NumValElement base status vs)) input i ps"
proof (cases status)
  case NumValStatusSeries
  then show ?thesis using matchSeries_ends [of base vs input i i ps] assms
    by (simp add: matchNumVal_def answers_def series_derives)
next
  case NumValStatusRange
  then obtain v0 v1 vs' low high where "vs = v0 # v1 # vs'" "ParseNumVal v0 base = Some low"
    "ParseNumVal v1 base = Some high" "ps = matchRange low high input i"
    using assms(3) by (auto simp: matchNumVal_def bind_Inr mustParseNumVal_def split: list.splits option.splits)
  then show ?thesis using matchRange_answers [OF assms(1)] NumValStatusRange by simp
qed

section \<open>The parser\<close>

lemma rune_string_not_Nil: "rune_string r \<noteq> []"
  by (simp add: rune_string_def)

lemma num_val_not_empty:
  assumes "derives g (NumValElement base status vs) w" "vs \<noteq> []" shows "w \<noteq> []"
proof (cases status)
  case NumValStatusSeries
  then show ?thesis using assms by (cases vs) (auto simp: series_derives series_lang_simps rune_string_not_Nil)
next
  case NumValStatusRange
  show ?thesis using assms(1) unfolding NumValStatusRange
    by (rule derives_rangeE [of g base vs w]) (metis encode_rune_not_Nil)
qed

lemma could_match:
  assumes "proper e" "derives g e (slice input i j)" "i \<le> j" "j \<le> length input"
  shows "shouldContinueRepetition (Repetition 0 Inf e) input i 0"
proof (cases e)
  case (CharValElement sensitive v)
  then have "list_all2 (same_char sensitive) (slice input i j) v" using assms(2) by (auto elim: derives_charE)
  from list_all2_lengthD [OF this] show ?thesis
    using assms(3,4) by (simp add: shouldContinueRepetition_def CharValElement length_slice)
next
  case (NumValElement base status vs)
  then have "slice input i j \<noteq> []" using num_val_not_empty assms(1,2) by auto
  then show ?thesis by (auto simp: shouldContinueRepetition_def NumValElement slice_def)
qed (use assms in \<open>auto simp: shouldContinueRepetition_def elim: derives_proseE\<close>)

lemma solveElement_answers:
  assumes "proper_grammar g"
  shows "proper e \<Longrightarrow> i \<le> length input \<Longrightarrow> solveElement fuel g input e i = Inr ps \<Longrightarrow>
    answers (derives g e) input i ps"
proof (induction fuel arbitrary: e i ps)
  case (Suc fuel)
  let ?E = "solveElement fuel g input"
  have E: "exact_solver ?E (derives g) proper input"
    by (rule exact_solver.intro) (fact Suc.IH, fact could_match)
  have alt: "answers (alt_lang (derives g) a) input i ps"
    if "proper_alt a" "solveAlternation fuel ?E a input i = Inr ps" for a ps
    using exact_solver.solveAlternation_answers [OF E _ Suc.prems(2) that(2)] proper_altD [OF that(1)]
    by (simp add: ok_rep_def)
  show ?case
  proof (cases e)
    case (RulenameElement name)
    show ?thesis
    proof (cases "getRule name g")
      case None
      then show ?thesis using Suc.prems(3) RulenameElement by (auto simp: answers_def elim: derives_rulenameE)
    next
      case (Some r)
      then obtain qs where qs: "solveAlternation fuel ?E (rule_alternation r) input i = Inr qs" "ps = map (stamp name) qs"
        using Suc.prems(3) RulenameElement by (auto simp: bind_Inr)
      have "proper_alt (rule_alternation r)" using assms Some by (auto simp: proper_grammar_def)
      from alt [OF this qs(1)] have "answers (alt_lang (derives g) (rule_alternation r)) input i ps"
        by (auto simp: qs(2) answers_def stamp_def image_image)
      moreover have "derives g e = alt_lang (derives g) (rule_alternation r)"
        using Some by (auto simp: fun_eq_iff RulenameElement elim: derives_rulenameE intro: derives.rulename)
      ultimately show ?thesis by simp
    qed
  next
    case (GroupElement a)
    moreover have "derives g (GroupElement a) = alt_lang (derives g) a"
      by (auto simp: fun_eq_iff elim: derives_groupE intro: derives.group)
    ultimately show ?thesis using alt [of a ps] Suc.prems by simp
  next
    case (OptionElement a)
    let ?r = "Repetition 0 1 (GroupElement a)"
    have "answers (rep_lang (derives g) ?r) input i ps"
      using exact_solver.solveRepetition_answers [OF E, of ?r] Suc.prems by (simp add: OptionElement counts_ok_def)
    moreover have "copies (derives g (GroupElement a)) k w \<longleftrightarrow> w = []" if "k = 0" for k w
      using that by simp
    have "rep_lang (derives g) ?r w \<longleftrightarrow> w = [] \<or> derives g (GroupElement a) w" for w
    proof -
      have "(\<exists>k. int k \<le> 1 \<and> P k) \<longleftrightarrow> P 0 \<or> P (Suc 0)" for P :: "nat \<Rightarrow> bool"
      proof -
        have "int k \<le> 1 \<longleftrightarrow> k = 0 \<or> k = Suc 0" for k by auto
        then show ?thesis by auto
      qed
      then show ?thesis by (simp add: rep_lang_def Inf_def)
    qed
    moreover have "derives g (OptionElement a) w \<longleftrightarrow> w = [] \<or> derives g (GroupElement a) w" for w
      by (auto elim: derives_optionE derives_groupE intro: derives.intros)
    ultimately show ?thesis by (simp add: OptionElement answers_def)
  next
    case (ListElement mn mx f x)
    moreover have "derives g (ListElement mn mx f x) = alt_lang (derives g) (list_alternation mn mx f x)"
      by (auto simp: fun_eq_iff elim: derives_listE intro: derives.list)
    ultimately show ?thesis
      using alt [of "list_alternation mn mx f x" ps] Suc.prems proper_list_alternation [of mn mx f x] by simp
  next
    case (CharValElement sensitive v)
    then show ?thesis using matchCharVal_answers Suc.prems by auto
  next
    case (NumValElement base status vs)
    then show ?thesis using matchNumVal_answers Suc.prems by simp
  next
    case (ProseValElement v)
    then show ?thesis using Suc.prems by (auto simp: answers_def elim: derives_proseE)
  qed
qed simp

interpretation parser: exact_solver "solveElement fuel g input" "derives g"
  "\<lambda>e. proper_grammar g \<and> proper e" input for fuel g input
  by standard (auto intro: solveElement_answers could_match)

end
