(* ===== verification/Abnf_Termination.thy ===== *)
theory Abnf_Termination
  imports Abnf_Semantics
begin

text \<open>
  When the parser returns. A grammar is checked for three things: its numerals and counts are
  proper, an unbounded repetition repeats only elements that consume input (\<open>consuming\<close>), and the
  rules called at the position where a rule starts have a smaller rank (\<open>left_lt\<close>), so there is no
  left recursion. With such a grammar every call converges: with enough fuel it answers, and more
  fuel does not change the answer. The grammar of ABNF passes the check.
\<close>

section \<open>The check\<close>

fun consuming :: "bytes list \<Rightarrow> element \<Rightarrow> bool"
  and consuming_alt :: "bytes list \<Rightarrow> alternation \<Rightarrow> bool"
  and consuming_cat :: "bytes list \<Rightarrow> concatenation \<Rightarrow> bool"
  and consuming_rep :: "bytes list \<Rightarrow> repetition \<Rightarrow> bool"
where
  "consuming K (RulenameElement name) = (ToLower name \<in> set K)"
| "consuming K (GroupElement a) = consuming_alt K a"
| "consuming K (OptionElement a) = False"
| "consuming K (CharValElement sensitive v) = (v \<noteq> [])"
| "consuming K (NumValElement base status vs) = (vs \<noteq> [])"
| "consuming K (ListElement mn mx e expansion) =
     (case expansion of None \<Rightarrow> mn > 0 \<and> consuming K e | Some a \<Rightarrow> consuming_alt K a)"
| "consuming K (ProseValElement v) = True"
| "consuming_alt K (Alternation cs) = (\<forall>c \<in> set cs. consuming_cat K c)"
| "consuming_cat K (Concatenation rs) = (\<exists>r \<in> set rs. consuming_rep K r)"
| "consuming_rep K (Repetition mn mx e) = (mn > 0 \<and> consuming K e)"

fun good :: "bytes list \<Rightarrow> element \<Rightarrow> bool"
  and good_alt :: "bytes list \<Rightarrow> alternation \<Rightarrow> bool"
  and good_cat :: "bytes list \<Rightarrow> concatenation \<Rightarrow> bool"
  and good_rep :: "bytes list \<Rightarrow> repetition \<Rightarrow> bool"
where
  "good K (RulenameElement name) = True"
| "good K (GroupElement a) = good_alt K a"
| "good K (OptionElement a) = good_alt K a"
| "good K (CharValElement sensitive v) = True"
| "good K (NumValElement base status vs) =
     (vs \<noteq> [] \<and> (\<forall>v \<in> set vs. ParseNumVal v base \<noteq> None) \<and>
      (status = NumValStatusRange \<longrightarrow> 2 \<le> length vs))"
| "good K (ListElement mn mx e expansion) =
     (0 \<le> mn \<and> (mx = Inf \<or> 0 \<le> mx) \<and> good K e \<and>
      (case expansion of None \<Rightarrow> True | Some a \<Rightarrow> good_alt K a))"
| "good K (ProseValElement v) = True"
| "good_alt K (Alternation cs) = (\<forall>c \<in> set cs. good_cat K c)"
| "good_cat K (Concatenation rs) = (rs \<noteq> [] \<and> (\<forall>r \<in> set rs. good_rep K r))"
| "good_rep K (Repetition mn mx e) =
     (0 \<le> mn \<and> (mx = Inf \<or> 0 \<le> mx) \<and> good K e \<and> (mx = Inf \<longrightarrow> consuming K e))"

text \<open>The rules called before any input is consumed have a rank below \<open>m\<close>.\<close>

fun left_lt :: "bytes list \<Rightarrow> (bytes \<Rightarrow> nat) \<Rightarrow> nat \<Rightarrow> element \<Rightarrow> bool"
  and left_alt :: "bytes list \<Rightarrow> (bytes \<Rightarrow> nat) \<Rightarrow> nat \<Rightarrow> alternation \<Rightarrow> bool"
  and left_cat :: "bytes list \<Rightarrow> (bytes \<Rightarrow> nat) \<Rightarrow> nat \<Rightarrow> concatenation \<Rightarrow> bool"
  and left_reps :: "bytes list \<Rightarrow> (bytes \<Rightarrow> nat) \<Rightarrow> nat \<Rightarrow> repetition list \<Rightarrow> bool"
  and left_rep :: "bytes list \<Rightarrow> (bytes \<Rightarrow> nat) \<Rightarrow> nat \<Rightarrow> repetition \<Rightarrow> bool"
where
  "left_lt K R m (RulenameElement name) = (R (ToLower name) < m)"
| "left_lt K R m (GroupElement a) = left_alt K R m a"
| "left_lt K R m (OptionElement a) = left_alt K R m a"
| "left_lt K R m (ListElement mn mx e expansion) =
     (case expansion of
        None \<Rightarrow> R (ToLower (str ruleNameOws)) < m \<and> left_lt K R m e
      | Some a \<Rightarrow> left_alt K R m a)"
| "left_lt K R m (CharValElement sensitive v) = True"
| "left_lt K R m (NumValElement base status vs) = True"
| "left_lt K R m (ProseValElement v) = True"
| "left_alt K R m (Alternation cs) = (\<forall>c \<in> set cs. left_cat K R m c)"
| "left_cat K R m (Concatenation rs) = left_reps K R m rs"
| "left_reps K R m [] = True"
| "left_reps K R m (r # rs) = (left_rep K R m r \<and> (consuming_rep K r \<or> left_reps K R m rs))"
| "left_rep K R m (Repetition mn mx e) = left_lt K R m e"

definition checked_rule :: "bytes list \<Rightarrow> (bytes \<Rightarrow> nat) \<Rightarrow> bytes \<Rightarrow> rule \<Rightarrow> bool" where
  "checked_rule K R key r \<longleftrightarrow>
     good_alt K (rule_alternation r) \<and> left_alt K R (R key) (rule_alternation r) \<and>
     (key \<in> set K \<longrightarrow> consuming_alt K (rule_alternation r))"

definition checked_grammar :: "bytes list \<Rightarrow> (bytes \<Rightarrow> nat) \<Rightarrow> grammar \<Rightarrow> bool" where
  "checked_grammar K R g \<longleftrightarrow>
     (\<forall>name r. getRule name g = Some r \<longrightarrow> checked_rule K R (ToLower name) r)"

text \<open>The weight of an element, by which the elements called from one are smaller.\<close>

fun weight :: "element \<Rightarrow> nat"
  and weight_alt :: "alternation \<Rightarrow> nat"
  and weight_cat :: "concatenation \<Rightarrow> nat"
  and weight_rep :: "repetition \<Rightarrow> nat"
where
  "weight (GroupElement a) = Suc (weight_alt a)"
| "weight (OptionElement a) = Suc (Suc (weight_alt a))"
| "weight (ListElement mn mx e expansion) =
     (case expansion of None \<Rightarrow> 100 + 2 * weight e | Some a \<Rightarrow> Suc (weight_alt a))"
| "weight (RulenameElement name) = 1"
| "weight (CharValElement sensitive v) = 1"
| "weight (NumValElement base status vs) = 1"
| "weight (ProseValElement v) = 1"
| "weight_alt (Alternation cs) = sum_list (map weight_cat cs)"
| "weight_cat (Concatenation rs) = sum_list (map weight_rep rs)"
| "weight_rep (Repetition mn mx e) = weight e"

lemma good_proper:
  "good K e \<Longrightarrow> proper e" "good_alt K a \<Longrightarrow> proper_alt a" "good_cat K c \<Longrightarrow> proper_cat c"
  "good_rep K r \<Longrightarrow> proper_rep r"
  by (induction K e and K a and K c and K r rule: good_good_alt_good_cat_good_rep.induct)
    (auto split: option.splits)

lemma good_list: "good K (ListElement mn mx e x) \<Longrightarrow> good_alt K (list_alternation mn mx e x)"
  by (cases x) (auto simp: list_alternation_def expandList_def builder_defs Inf_def Let_def)

lemma left_list:
  "left_lt K R m (ListElement mn mx e x) \<Longrightarrow> left_alt K R m (list_alternation mn mx e x)"
  by (cases x) (auto simp: list_alternation_def expandList_def builder_defs Inf_def Let_def)

lemma consuming_list:
  "consuming K (ListElement mn mx e x) \<Longrightarrow> consuming_alt K (list_alternation mn mx e x)"
  by (cases x) (auto simp: list_alternation_def expandList_def builder_defs Inf_def Let_def)

lemma weight_list: "weight_alt (list_alternation mn mx e x) < weight (ListElement mn mx e x)"
  by (cases x) (auto simp: list_alternation_def expandList_def builder_defs Inf_def Let_def)

section \<open>Consuming elements\<close>

lemma consuming_rep_lang:
  assumes "rep_lang L r w" "consuming_rep K r" "\<And>w. L (Element r) w \<Longrightarrow> consuming K (Element r) \<Longrightarrow> w \<noteq> []"
  shows "w \<noteq> []"
proof -
  obtain k where k: "Min r \<le> int k" "copies (L (Element r)) k w" using assms(1) by (auto simp: rep_lang_def)
  obtain mn mx e where r: "r = Repetition mn mx e" by (cases r)
  then have "k \<noteq> 0" using k(1) assms(2) by (cases k) auto
  then show ?thesis using k(2) assms(2,3) r by (cases k) auto
qed

lemma consuming_seq_lang:
  assumes "seq_lang L rs w" "\<exists>r \<in> set rs. consuming_rep K r" "\<And>e w. L e w \<Longrightarrow> consuming K e \<Longrightarrow> w \<noteq> []"
  shows "w \<noteq> []"
  using assms(1,2)
proof (induction rs arbitrary: w)
  case (Cons r rs)
  then show ?case using consuming_rep_lang [of L r _ K] assms(3) by auto
qed simp

lemma consuming_alt_lang:
  assumes "alt_lang L a w" "consuming_alt K a" "\<And>e w. L e w \<Longrightarrow> consuming K e \<Longrightarrow> w \<noteq> []"
  shows "w \<noteq> []"
proof -
  obtain c where c: "c \<in> set (Concatenations a)" "seq_lang L (Repetitions c) w"
    using assms(1) by (auto simp: alt_lang_def)
  have "\<exists>r \<in> set (Repetitions c). consuming_rep K r"
    using assms(2) c(1) by (cases a, cases c) auto
  then show ?thesis using consuming_seq_lang [OF c(2)] assms(3) by blast
qed

lemma consuming_derives:
  assumes "checked_grammar K R g" "derives g e w"
  shows "consuming K e \<Longrightarrow> w \<noteq> []"
  using assms(2)
proof (induction rule: derives.induct)
  case (rulename name r w)
  then have "consuming_alt K (rule_alternation r)"
    using assms(1) by (auto simp: checked_grammar_def checked_rule_def)
  then show ?case using consuming_alt_lang [OF rulename(2)] by blast
next
  case (group a w)
  then show ?case using consuming_alt_lang [OF group(1)] by auto
next
  case (list mn mx e x w)
  then show ?case using consuming_alt_lang [OF list(1) consuming_list] by blast
next
  case (num_series base vs rs)
  then show ?case by (cases vs) (auto simp: list_all2_Cons1 rune_string_not_Nil)
qed auto

section \<open>Ranks\<close>

lemma eventually_all:
  assumes "\<And>x. x \<in> set xs \<Longrightarrow> \<exists>B. \<forall>m \<ge> B. P m x"
  shows "\<exists>B :: nat. \<forall>m \<ge> B. \<forall>x \<in> set xs. P m x"
  using assms
proof (induction xs)
  case (Cons x xs)
  then obtain A B where "\<forall>m \<ge> A. P m x" "\<forall>m \<ge> B. \<forall>x \<in> set xs. P m x" by (metis list.set_intros)
  then have "\<forall>m \<ge> max A B. \<forall>y \<in> set (x # xs). P m y" by simp
  then show ?case ..
qed simp

lemma left_eventually:
  "\<exists>B. \<forall>m \<ge> B. left_lt K R m e" "\<exists>B. \<forall>m \<ge> B. left_alt K R m a" "\<exists>B. \<forall>m \<ge> B. left_cat K R m c"
  "\<exists>B. \<forall>m \<ge> B. left_rep K R m r"
proof (induction e and a and c and r)
  case (RulenameElement name)
  show ?case by (rule exI [of _ "Suc (R (ToLower name))"]) auto
next
  case (ListElement mn mx e x)
  obtain B where "\<forall>m \<ge> B. left_lt K R m e" using ListElement by auto
  then have B: "\<forall>m \<ge> max B (Suc (R (ToLower (str ruleNameOws)))). left_lt K R m e \<and> R (ToLower (str ruleNameOws)) < m"
    by auto
  show ?case
  proof (cases x)
    case None
    then show ?thesis using B by (intro exI [of _ "max B (Suc (R (ToLower (str ruleNameOws))))"]) auto
  next
    case (Some a)
    then show ?thesis using ListElement(2) [of a] by simp
  qed
next
  case (Alternation cs)
  then show ?case using eventually_all [of cs "left_cat K R"] by simp
next
  case (Concatenation rs)
  then obtain B where "\<forall>m \<ge> B. \<forall>r \<in> set rs. left_rep K R m r" using eventually_all [of rs "left_rep K R"] by blast
  moreover have reps: "\<forall>r \<in> set rs. left_rep K R m r \<Longrightarrow> left_reps K R m rs" for m by (induction rs) auto
  ultimately have "\<forall>m \<ge> B. left_reps K R m rs" by blast
  then show ?case by auto
qed auto

lemma left_lt_ex: "\<exists>m. left_lt K R m e"
  using left_eventually(1) by blast

section \<open>Convergence\<close>

text \<open>With enough fuel there is an answer, and it stays.\<close>

definition converges :: "(nat \<Rightarrow> stop + 'a) \<Rightarrow> bool" where
  "converges f \<longleftrightarrow> (\<exists>x N. \<forall>n \<ge> N. f n = Inr x)"

lemma converges_const [simp]: "converges (\<lambda>n. Inr x)"
  by (auto simp: converges_def)

lemma converges_bind:
  assumes "converges f" "\<And>x N. (\<forall>n \<ge> N. f n = Inr x) \<Longrightarrow> converges (\<lambda>n. h n x)"
  shows "converges (\<lambda>n. bind (f n) (h n))"
proof -
  obtain x N where x: "\<forall>n \<ge> N. f n = Inr x" using assms(1) by (auto simp: converges_def)
  from assms(2) [OF this] obtain y M where y: "\<forall>n \<ge> M. h n x = Inr y" by (auto simp: converges_def)
  have "\<forall>n \<ge> max N M. bind (f n) (h n) = Inr y" using x y by simp
  then show ?thesis unfolding converges_def by blast
qed

lemma converges_shift: "converges f \<Longrightarrow> (\<And>n. g (Suc n) = f n) \<Longrightarrow> converges g"
proof -
  assume f: "converges f" and g: "\<And>n. g (Suc n) = f n"
  obtain x N where "\<forall>n \<ge> N. f n = Inr x" using f by (auto simp: converges_def)
  then have "g n = Inr x" if "n \<ge> Suc N" for n using g [of "n - 1"] that by (cases n) auto
  then show "converges g" by (auto simp: converges_def)
qed

lemma converges_collect:
  "(\<And>x. x \<in> set xs \<Longrightarrow> converges (\<lambda>n. F n x)) \<Longrightarrow> converges (\<lambda>n. collect (F n) xs)"
  by (induction xs) (auto intro!: converges_bind)

locale parsing =
  fixes K :: "bytes list" and R :: "bytes \<Rightarrow> nat" and g :: grammar and input :: bytes
  assumes checked: "checked_grammar K R g"
begin

abbreviation halts :: "element \<Rightarrow> nat \<Rightarrow> bool" where
  "halts e i \<equiv> converges (\<lambda>n. solveElement n g input e i)"

lemma grammar_proper: "proper_grammar g"
  using checked good_proper(2) by (auto simp: proper_grammar_def checked_grammar_def checked_rule_def)

lemma solver: "exact_solver (solveElement n g input) (derives g) proper input"
  by (rule exact_solver.intro) (use solveElement_answers grammar_proper could_match in blast)+

lemma next_iteration_converges:
  assumes "\<And>p. p \<in> set prev \<Longrightarrow> halts (Element r) (End p)"
  shows "converges (\<lambda>n. next_iteration (solveElement n g input) r input k prev)"
  unfolding next_iteration_def
proof (rule converges_collect)
  fix p assume "p \<in> set prev"
  then have "converges (\<lambda>n. bind (solveElement n g input (Element r) (End p)) (\<lambda>es. Inr (f es)))" for f :: "path list \<Rightarrow> path list"
    using assms by (intro converges_bind) auto
  then show "converges (\<lambda>n. if \<not> shouldContinueRepetition r input (End p) k then Inr []
      else bind (solveElement n g input (Element r) (End p)) (\<lambda>es. Inr (map (\<lambda>e.
        Path (Subpaths p @ [e]) [] (Start p) (End e)) es)))"
    by (cases "shouldContinueRepetition r input (End p) k") simp_all
qed

text \<open>The paths of an iteration of consuming elements end ever later.\<close>

lemma copies_length: "copies l k w \<Longrightarrow> (\<And>w. l w \<Longrightarrow> w \<noteq> []) \<Longrightarrow> k \<le> length w"
proof (induction k arbitrary: w)
  case (Suc k)
  then obtain u v where "w = u @ v" "l u" "copies l k v" by auto
  moreover have "k \<le> length v" using Suc.IH \<open>copies l k v\<close> Suc.prems(2) by blast
  ultimately show ?case using Suc.prems(2) [of u] by (cases u) auto
qed simp

lemma iterations_converge:
  assumes r: "proper (Element r)" "Max r = Inf \<longrightarrow> consuming K (Element r)" "Max r = Inf \<or> 0 \<le> Max r"
    and i: "i \<le> length input"
    and halts: "\<And>j. i \<le> j \<Longrightarrow> j \<le> length input \<Longrightarrow> halts (Element r) j"
    and prev: "answers (copies (derives g (Element r)) k) input i prev" "Max r = Inf \<or> int k \<le> Max r"
  shows "converges (\<lambda>n. iterations (n - c) (solveElement n g input) r input (int k) prev)"
  using prev
proof (induction "if Max r = Inf then Suc (length input) - k else nat (Max r) - k" arbitrary: k c prev rule: less_induct)
  case less
  show ?case
  proof (cases "int k = Max r")
    case True
    then show ?thesis by (simp add: iterations.simps)
  next
    case False
    have m: "Max r = Inf \<or> int k < Max r" using False less.prems(2) by auto
    have step: "converges (\<lambda>n. next_iteration (solveElement n g input) r input (int k) prev)"
      using answersD [OF less.prems(1)] by (intro next_iteration_converges halts) auto
    have "converges (\<lambda>n. bind (next_iteration (solveElement n g input) r input (int k) prev) (\<lambda>cur.
        if cur = [] then Inr []
        else bind (iterations (n - Suc c) (solveElement n g input) r input (int k + 1) cur)
          (\<lambda>later. Inr (cur # later))))"
    proof (rule converges_bind [OF step])
      fix cur N assume "\<forall>n \<ge> N. next_iteration (solveElement n g input) r input (int k) prev = Inr cur"
      then have a: "answers (copies (derives g (Element r)) (Suc k)) input i cur"
        using exact_solver.next_iteration_answers [OF solver less.prems(1) r(1) i m] by blast
      show "converges (\<lambda>n. if cur = [] then Inr []
          else bind (iterations (n - Suc c) (solveElement n g input) r input (int k + 1) cur)
            (\<lambda>later. Inr (cur # later)))"
      proof (cases "cur = []")
        case F: False
        then obtain p where p: "p \<in> set cur" by (cases cur) auto
        have "Suc k \<le> length input" if "Max r = Inf"
        proof -
          have "Suc k \<le> length (slice input i (End p))"
            using answersD(4) [OF a p] by (rule copies_length)
              (use that r(2) consuming_derives [OF checked] in blast)
          then show ?thesis using answersD [OF a p] by (simp add: length_slice)
        qed
        with m have "converges (\<lambda>n. iterations (n - Suc c) (solveElement n g input) r input (int (Suc k)) cur)"
          by (intro less.hyps a) auto
        then have "converges (\<lambda>n. bind (iterations (n - Suc c) (solveElement n g input) r input (int k + 1) cur)
            (\<lambda>later. Inr (cur # later)))"
          by (intro converges_bind) (simp_all add: add.commute)
        with F show ?thesis by simp
      qed simp
    qed
    then obtain x N where x: "\<forall>n \<ge> N. bind (next_iteration (solveElement n g input) r input (int k) prev) (\<lambda>cur.
        if cur = [] then Inr []
        else bind (iterations (n - Suc c) (solveElement n g input) r input (int k + 1) cur)
          (\<lambda>later. Inr (cur # later))) = Inr x" by (auto simp: converges_def)
    have "iterations (n - c) (solveElement n g input) r input (int k) prev = Inr x" if "n \<ge> max N (Suc c)" for n
    proof -
      have "n - c = Suc (n - Suc c)" using that by (simp add: Suc_diff_Suc)
      then show ?thesis using x that False
        by (subst iterations.simps) simp
    qed
    then show ?thesis unfolding converges_def by blast
  qed
qed

lemma repetition_converges:
  assumes r: "good_rep K r" and i: "i \<le> length input"
    and halts: "\<And>j. i \<le> j \<Longrightarrow> j \<le> length input \<Longrightarrow> halts (Element r) j"
  shows "converges (\<lambda>n. solveRepetition n (solveElement n g input) r input i)"
proof (cases "shouldContinueRepetition r input i 0")
  case False
  then show ?thesis by (simp add: solveRepetition_def)
next
  case True
  have g: "proper (Element r)" "Max r = Inf \<longrightarrow> consuming K (Element r)" "Max r = Inf \<or> 0 \<le> Max r"
    using r by (cases r; auto dest: good_proper)+
  have max: "Max r = Inf \<or> int 1 \<le> Max r" using True unfolding shouldContinue_iff [of r] by auto
  have "converges (\<lambda>n. bind (solveElement n g input (Element r) i) (\<lambda>first.
      bind (iterations n (solveElement n g input) r input 1 first) (\<lambda>later. Inr (f first later))))"
    for f :: "path list \<Rightarrow> path list list \<Rightarrow> path list"
  proof (rule converges_bind)
    show "halts (Element r) i" using i by (intro halts) auto
  next
    fix first N assume "\<forall>n \<ge> N. solveElement n g input (Element r) i = Inr first"
    then have "solveElement N g input (Element r) i = Inr first" by blast
    from solveElement_answers [OF grammar_proper g(1) i this]
    have "answers (copies (derives g (Element r)) 1) input i first" by (simp add: answers_def)
    from iterations_converge [OF g i halts this max, of 0]
    show "converges (\<lambda>n. bind (iterations n (solveElement n g input) r input 1 first) (\<lambda>later. Inr (f first later)))"
      by (intro converges_bind) simp_all
  qed
  then show ?thesis using True by (simp add: solveRepetition_def Let_def)
qed

text \<open>The calls at \<open>i\<close> itself are those in left position.\<close>

lemma following_converges:
  assumes "\<forall>r \<in> set rs. good_rep K r" "i \<le> length input"
    and "\<And>e j. good K e \<Longrightarrow> i < j \<Longrightarrow> j \<le> length input \<Longrightarrow> halts e j"
    and "\<And>r. r \<in> set rs \<Longrightarrow> left_rep K R m r \<Longrightarrow> halts (Element r) i"
    and "answers l input i cps" "l [] \<Longrightarrow> left_reps K R m rs"
  shows "converges (\<lambda>n. solve_following n (solveElement n g input) rs input i cps)"
  using assms
proof (induction rs arbitrary: l cps)
  case (Cons r rs)
  have good: "good_rep K r" "good K (Element r)" using Cons.prems(1) by (cases r; simp)+
  have ok: "proper (Element r)" "counts_ok r" using good(1) by (cases r; auto simp: counts_ok_def dest: good_proper)+
  let ?step = "\<lambda>n c. bind (solveRepetition n (solveElement n g input) r input (End c)) (\<lambda>ps.
      Inr (map (extend_path i c) ps))"
  show ?case unfolding solve_following.simps
  proof (rule converges_bind [OF converges_collect])
    fix c assume c: "c \<in> set cps"
    note C = answersD [OF Cons.prems(5) c]
    have "halts (Element r) j" if "End c \<le> j" "j \<le> length input" for j
    proof (cases "j = i")
      case True
      then have "l []" using C that by (metis antisym slice_same)
      then show ?thesis using Cons.prems(4,6) True by simp
    next
      case False
      then show ?thesis using Cons.prems(3) [OF good(2), of j] C that by simp
    qed
    then have "converges (\<lambda>n. solveRepetition n (solveElement n g input) r input (End c))"
      using C by (intro repetition_converges [OF good(1)]) auto
    then show "converges (\<lambda>n. ?step n c)" by (intro converges_bind) simp_all
  next
    fix cur N assume "\<forall>n \<ge> N. collect (?step n) cps = Inr cur"
    then have run: "solve_following N (solveElement N g input) [r] input i cps = Inr cur" by simp
    have a: "answers (\<lambda>w. \<exists>u v. w = u @ v \<and> l u \<and> seq_lang (derives g) [r] v) input i cur"
      by (rule exact_solver.solve_following_answers [OF solver _ Cons.prems(2,5) run])
        (use ok in \<open>simp add: ok_rep_def\<close>)
    have "left_reps K R m rs" if "\<exists>u v. [] = u @ v \<and> l u \<and> seq_lang (derives g) [r] v"
    proof -
      have "l []" "rep_lang (derives g) r []" using that by auto
      then have "\<not> consuming_rep K r"
        using consuming_rep_lang [of "derives g" r "[]" K] consuming_derives [OF checked] by blast
      then show ?thesis using Cons.prems(6) [OF \<open>l []\<close>] by simp
    qed
    then show "converges (\<lambda>n. solve_following n (solveElement n g input) rs input i cur)"
      using Cons.prems(1-4) by (intro Cons.IH [OF _ _ _ _ a]) auto
  qed
qed simp

lemma alternation_converges:
  assumes good: "good_alt K a" and left: "left_alt K R m a" and i: "i \<le> length input"
    and later: "\<And>e j. good K e \<Longrightarrow> i < j \<Longrightarrow> j \<le> length input \<Longrightarrow> halts e j"
    and here: "\<And>e. good K e \<Longrightarrow> left_lt K R m e \<Longrightarrow> weight e \<le> weight_alt a \<Longrightarrow> halts e i"
  shows "converges (\<lambda>n. solveAlternation n (solveElement n g input) a input i)"
  unfolding solveAlternation_def
proof (rule converges_collect)
  fix c assume c: "c \<in> set (Concatenations a)"
  obtain rs where rs: "c = Concatenation rs" by (cases c)
  have g: "good_cat K c" "left_cat K R m c" "weight_cat c \<le> weight_alt a"
    using c good left by (cases a; auto intro: member_le_sum_list)+
  then obtain r rs' where r: "rs = r # rs'" "\<forall>r \<in> set rs. good_rep K r" "left_reps K R m rs"
    using rs by (cases rs) auto
  have H: "halts (Element q) i" if "q \<in> set rs" "left_rep K R m q" for q
  proof -
    have "weight_rep q \<le> weight_cat c" using that(1) rs by (auto intro: member_le_sum_list)
    then have "weight (Element q) \<le> weight_alt a" "good K (Element q)" "left_lt K R m (Element q)"
      using g(3) that r(2) by (cases q; auto)+
    then show ?thesis using here by blast
  qed
  have good_r: "good_rep K r" "good K (Element r)" using r by (cases r; auto)+
  have ok: "proper (Element r)" "counts_ok r" using good_r(1) by (cases r; auto simp: counts_ok_def dest: good_proper)+
  have "converges (\<lambda>n. bind (solveRepetition n (solveElement n g input) r input i) (\<lambda>paths.
      solve_following n (solveElement n g input) rs' input i (map (\<lambda>p. Path [p] [] i (End p)) paths)))"
  proof (rule converges_bind)
    have "halts (Element r) j" if "i \<le> j" "j \<le> length input" for j
      using that later [OF good_r(2), of j] H [of r] r(1,3) by (cases "j = i") auto
    then show "converges (\<lambda>n. solveRepetition n (solveElement n g input) r input i)"
      by (rule repetition_converges [OF good_r(1) i])
  next
    fix ps N assume "\<forall>n \<ge> N. solveRepetition n (solveElement n g input) r input i = Inr ps"
    then have "answers (rep_lang (derives g) r) input i ps"
      using exact_solver.solveRepetition_answers [OF solver ok i] by blast
    then have a: "answers (rep_lang (derives g) r) input i (map (\<lambda>p. Path [p] [] i (End p)) ps)"
      by (auto simp: answers_def image_image)
    have "left_reps K R m rs'" if "rep_lang (derives g) r []"
      using consuming_rep_lang [OF that, of K] consuming_derives [OF checked] r(1,3) by auto
    then show "converges (\<lambda>n. solve_following n (solveElement n g input) rs' input i
        (map (\<lambda>p. Path [p] [] i (End p)) ps))"
      using r(1,2) H by (intro following_converges [OF _ i later _ a]) auto
  qed
  then show "converges (\<lambda>n. solve_concatenation n (solveElement n g input) input i c)"
    by (simp add: solve_concatenation_def rs r(1))
qed

lemma char_val_converges: "halts (CharValElement sensitive v) i"
  by (rule converges_shift [of "\<lambda>n. Inr (matchCharVal sensitive v input i)"]) simp_all

lemma prose_val_converges: "halts (ProseValElement v) i"
  by (rule converges_shift [of "\<lambda>n. Inr []"]) simp_all

lemma series_converges:
  "\<forall>v \<in> set vs. ParseNumVal v base \<noteq> None \<Longrightarrow> \<exists>ps. matchSeries base vs input i m = Inr ps"
  by (induction vs arbitrary: m) (auto simp: mustParseNumVal_def Let_def)

lemma num_val_converges:
  assumes "good K (NumValElement base status vs)" shows "halts (NumValElement base status vs) i"
proof -
  have "\<exists>ps. matchNumVal base status vs input i = Inr ps"
  proof (cases status)
    case NumValStatusSeries
    then show ?thesis using series_converges [of vs base i i] assms by (simp add: matchNumVal_def)
  next
    case NumValStatusRange
    then have "Suc (Suc 0) \<le> length vs" using assms by simp
    then obtain v0 v1 vs' where "vs = v0 # v1 # vs'" by (auto simp: Suc_le_length_iff)
    then show ?thesis using assms NumValStatusRange by (auto simp: matchNumVal_def mustParseNumVal_def)
  qed
  then obtain ps where "matchNumVal base status vs input i = Inr ps" ..
  then show ?thesis by (intro converges_shift [OF converges_const [of ps]]) simp
qed

text \<open>By induction on what is left of the input, the rank, and the weight of the element.\<close>

lemma element_converges:
  assumes "good K e" "left_lt K R m e" "i \<le> length input"
  shows "halts e i"
proof -
  have "good K e \<longrightarrow> left_lt K R m e \<longrightarrow> l \<le> length input \<longrightarrow> halts e (length input - l)" for l
  proof (induction "(l, m, weight e)" arbitrary: l m e rule: wf_induct_rule
      [OF wf_lex_prod [OF wf_less_than wf_lex_prod [OF wf_less_than wf_less_than]]])
    case (1 l m e)
    let ?i = "length input - l"
    show ?case
    proof (intro impI)
      assume e: "good K e" "left_lt K R m e" "l \<le> length input"
      have later: "halts f j" if "good K f" "?i < j" "j \<le> length input" for f j
      proof -
        obtain m' where "left_lt K R m' f" using left_lt_ex by blast
        moreover have "length input - j < l" "length input - (length input - j) = j" using that e(3) by auto
        ultimately show ?thesis using 1 [of "length input - j" m' f] that(1) by auto
      qed
      have here: "halts f ?i" if "good K f" "left_lt K R m' f" "m' < m \<or> m' = m \<and> weight f < weight e" for f m'
        using 1 [of l m' f] that e(3) by auto
      have i: "?i \<le> length input" by simp
      have alt: "converges (\<lambda>n. solveAlternation n (solveElement n g input) a input ?i)"
        if "good_alt K a" "left_alt K R m' a" "m' < m \<or> m' = m \<and> weight_alt a < weight e" for a m'
        using that(3) by (intro alternation_converges [OF that(1,2) i later] here) auto
      show "halts e ?i"
      proof (cases e)
        case (RulenameElement name)
        show ?thesis
        proof (cases "getRule name g")
          case None
          then show ?thesis unfolding RulenameElement by (intro converges_shift [OF converges_const [of "[]"]]) simp
        next
          case (Some r)
          then have "checked_rule K R (ToLower name) r" using checked by (simp add: checked_grammar_def)
          then have "converges (\<lambda>n. solveAlternation n (solveElement n g input) (rule_alternation r) input ?i)"
            using e(2) unfolding RulenameElement by (intro alt [of _ "R (ToLower name)"]) (auto simp: checked_rule_def)
          then have "converges (\<lambda>n. bind (solveAlternation n (solveElement n g input) (rule_alternation r) input ?i)
              (\<lambda>ps. Inr (map (stamp name) ps)))" by (rule converges_bind) simp
          then show ?thesis unfolding RulenameElement by (rule converges_shift) (simp add: Some Let_def)
        qed
      next
        case (GroupElement a)
        have "converges (\<lambda>n. solveAlternation n (solveElement n g input) a input ?i)"
          using e by (intro alt [of _ m]) (auto simp: GroupElement)
        then show ?thesis unfolding GroupElement by (rule converges_shift) (simp add: Let_def)
      next
        case (OptionElement a)
        have "halts (GroupElement a) j" if "?i \<le> j" "j \<le> length input" for j
          using here [of "GroupElement a" m] later [of "GroupElement a" j] that e
          by (cases "j = ?i") (auto simp: OptionElement)
        then have "converges (\<lambda>n. solveRepetition n (solveElement n g input) (Repetition 0 1 (GroupElement a)) input ?i)"
          using e(1) by (intro repetition_converges) (auto simp: OptionElement Inf_def)
        then show ?thesis unfolding OptionElement by (rule converges_shift) (simp add: Let_def)
      next
        case (ListElement mn mx f x)
        have "converges (\<lambda>n. solveAlternation n (solveElement n g input) (list_alternation mn mx f x) input ?i)"
        proof (rule alt)
          show "good_alt K (list_alternation mn mx f x)" using e(1) good_list unfolding ListElement by blast
          show "left_alt K R m (list_alternation mn mx f x)" using e(2) left_list unfolding ListElement by blast
        qed (use weight_list [of mn mx f x] in \<open>simp add: ListElement del: weight.simps\<close>)
        then show ?thesis unfolding ListElement by (rule converges_shift) (simp add: Let_def)
      next
        case (CharValElement sensitive v)
        then show ?thesis using char_val_converges by simp
      next
        case (NumValElement base status vs)
        then show ?thesis using num_val_converges e(1) by simp
      next
        case (ProseValElement v)
        then show ?thesis using prose_val_converges by simp
      qed
    qed
  qed
  from this [of "length input - i"] assms show ?thesis by simp
qed

theorem parse_converges: "converges (\<lambda>fuel. Parse fuel input g name)"
proof (cases "getRule name g")
  case None
  then show ?thesis by (simp add: Parse_def)
next
  case (Some r)
  then have "good_alt K (rule_alternation r)" "left_alt K R (R (ToLower name)) (rule_alternation r)"
    using checked by (auto simp: checked_grammar_def checked_rule_def)
  then have "converges (\<lambda>n. solveAlternation n (solveElement n g input) (rule_alternation r) input 0)"
  proof (rule alternation_converges)
    fix e j assume "good K e" "j \<le> length input"
    then show "halts e j" using element_converges left_lt_ex by blast
  qed (use element_converges in auto)
  then show ?thesis unfolding Parse_def Some option.case by (rule converges_bind) simp
qed

end

end
