(* ===== verification/Abnf_Self.thy ===== *)
theory Abnf_Self
  imports Abnf_Termination
begin

text \<open>
  The grammar of ABNF passes the check of \<open>Abnf_Termination\<close>.
\<close>

lemma rulemap_entries:
  "foldl (\<lambda>m (i, r). m(ToLower (Name r) \<mapsto> i)) m (List.enumerate n rs) k = Some i \<Longrightarrow>
   m k = Some i \<or> n \<le> i \<and> i < n + length rs \<and> ToLower (Name (rs ! (i - n))) = k"
proof (induction rs arbitrary: m n)
  case (Cons r rs)
  from Cons.IH [of "m(ToLower (Name r) \<mapsto> n)" "Suc n"] Cons.prems
  show ?case by (auto split: if_splits simp: Suc_le_eq nth_Cons' Suc_diff_Suc)
qed simp

lemma getRule_newGrammar:
  assumes "getRule name (newGrammar rs) = Some r"
  shows "(r \<in> set rs \<and> ToLower (Name r) = ToLower name) \<or> (ToLower name, r) \<in> set coreRules"
proof (cases "Rulemap (newGrammar rs) (ToLower name)")
  case None
  then show ?thesis using assms by (auto simp: getRule_def dest: map_of_SomeD)
next
  case (Some i)
  then have "i < length rs \<and> ToLower (Name (rs ! i)) = ToLower name"
    using rulemap_entries [of Map.empty 0 rs "ToLower name" i] by (simp add: newGrammar_def)
  moreover have "r = rs ! i" using assms Some by (simp add: getRule_def newGrammar_def)
  ultimately show ?thesis by auto
qed

lemma checked_newGrammar:
  assumes "list_all (\<lambda>r. checked_rule K R (ToLower (Name r)) r) rs"
    and "list_all (\<lambda>(key, r). checked_rule K R key r) coreRules"
  shows "checked_grammar K R (newGrammar rs)"
  unfolding checked_grammar_def
proof (intro allI impI)
  fix name r assume "getRule name (newGrammar rs) = Some r"
  from getRule_newGrammar [OF this] assms show "checked_rule K R (ToLower name) r"
    by (auto simp: list_all_iff)
qed

definition abnf_consuming :: "bytes list" where
  "abnf_consuming = map str
     [''alpha'', ''bit'', ''char'', ''cr'', ''crlf'', ''ctl'', ''digit'', ''dquote'', ''hexdig'', ''htab'', ''lf'',
      ''octet'', ''sp'', ''vchar'', ''wsp'', ''rulelist'', ''rule'', ''rulename'', ''defined-as'', ''elements'',
      ''c-wsp'', ''c-nl'', ''comment'', ''alternation'', ''concatenation'', ''repetition'', ''repeat'',
      ''element'', ''group'', ''option'', ''char-val'', ''case-insensitive-string'', ''case-sensitive-string'',
      ''quoted-string'', ''num-val'', ''bin-val'', ''dec-val'', ''hex-val'', ''prose-val'']"

definition abnf_ranks :: "(bytes \<times> nat) list" where
  "abnf_ranks = map (\<lambda>(n, k). (str n, k))
     [(''crlf'', 1), (''hexdig'', 1), (''wsp'', 1), (''lwsp'', 2), (''comment'', 0), (''c-nl'', 2), (''c-wsp'', 3),
      (''rulename'', 1), (''quoted-string'', 1), (''case-insensitive-string'', 2), (''char-val'', 3),
      (''element'', 4), (''repeat'', 1), (''repetition'', 5), (''concatenation'', 6), (''alternation'', 7),
      (''elements'', 8), (''defined-as'', 4), (''rule'', 2), (''rulelist'', 3)]"

definition abnf_rank :: "bytes \<Rightarrow> nat" where
  "abnf_rank key = (case map_of abnf_ranks key of None \<Rightarrow> 0 | Some k \<Rightarrow> k)"

text \<open>The ranks of the rules, and that all of them but \<open>LWSP\<close> consume input.\<close>

definition rule_names :: "string list" where
  "rule_names =
     [ruleNameRulelist, ruleNameRule, ruleNameRulename, ruleNameDefinedAs, ruleNameElements,
      ruleNameCWsp, ruleNameCNl, ruleNameComment, ruleNameAlternation, ruleNameConcatenation,
      ruleNameRepetition, ruleNameRepeat, ruleNameElement, ruleNameGroup, ruleNameOption,
      ruleNameCharVal, ruleNameCaseInsensitiveString, ruleNameCaseSensitiveString,
      ruleNameQuotedString, ruleNameNumVal, ruleNameBinVal, ruleNameDecVal, ruleNameHexVal,
      ruleNameProseVal, ruleNameAlpha, ruleNameBit, ruleNameChar, ruleNameCr, ruleNameCrlf,
      ruleNameCtl, ruleNameDigit, ruleNameDquote, ruleNameHexdig, ruleNameHtab, ruleNameLf,
      ruleNameLwsp, ruleNameOctet, ruleNameSp, ruleNameVchar, ruleNameWsp]"

lemma rule_table:
  "map (\<lambda>n. (abnf_rank (ToLower (str n)), ToLower (str n) \<in> set abnf_consuming)) rule_names =
     [(3, True), (2, True), (1, True), (4, True), (8, True), (3, True), (2, True), (0, True),
      (7, True), (6, True), (5, True), (1, True), (4, True), (0, True), (0, True), (3, True),
      (2, True), (0, True), (1, True), (0, True), (0, True), (0, True), (0, True), (0, True),
      (0, True), (0, True), (0, True), (0, True), (1, True), (0, True), (0, True), (0, True),
      (1, True), (0, True), (0, True), (2, False), (0, True), (0, True), (0, True), (1, True)]"
  by code_simp

lemmas rule_facts = rule_table [unfolded rule_names_def list.map list.inject prod.inject]

lemmas check_defs = builder_defs checked_rule_def Inf_def ParseNumVal_def ParseUint32_def digit_of_def
  digit_byte_def lower_byte_def ascii_lower_def upper_byte_def MaxRune_def

lemma core_names: "map fst coreRules = map (\<lambda>(key, r). ToLower (Name r)) coreRules"
  by code_simp

lemma core_rules_checked:
  "list_all (\<lambda>r. checked_rule abnf_consuming abnf_rank (ToLower (Name r)) r) (map snd coreRules)"
  by (simp add: coreRules_def core_rule_defs check_defs rule_facts)

lemma coreRules_checked: "list_all (\<lambda>(key, r). checked_rule abnf_consuming abnf_rank key r) coreRules"
proof -
  have "key = ToLower (Name r)" if "(key, r) \<in> set coreRules" for key r
    using core_names that by (auto simp: map_eq_conv)
  then show ?thesis using core_rules_checked by (force simp: list_all_iff)
qed

lemma abnf_rules_checked: "checked_grammar abnf_consuming abnf_rank abnfGrammar"
  unfolding abnfGrammar_def
proof (rule checked_newGrammar [OF _ coreRules_checked])
  show "list_all (\<lambda>r. checked_rule abnf_consuming abnf_rank (ToLower (Name r)) r)
     [abnfRulelist, abnfRule, abnfRulename, abnfDefinedAs, abnfElements, abnfCWsp, abnfCNl,
      abnfComment, abnfAlternation, abnfConcatenation, abnfRepetition, abnfRepeat, abnfElement,
      abnfGroup, abnfOption, abnfCharVal, abnfCaseInsensitiveString, abnfCaseSensitiveString,
      abnfQuotedString, abnfNumVal, abnfBinVal, abnfDecVal, abnfHexVal, abnfProseVal]"
    by (simp add: abnf_rule_defs check_defs rule_facts)
qed

interpretation abnf: parsing abnf_consuming abnf_rank abnfGrammar input for input
  by standard (rule abnf_rules_checked)

end
