(* ===== verification/Abnf_Validate.thy ===== *)
theory Abnf_Validate
  imports Abnf_Termination
begin

text \<open>
  The semantic validation of \<open>src/pkg/abnf/validate.go\<close>, which answers the first error, and what it
  is worth to the parser: a validated grammar without list operators, empty concatenations and ranges of
  fewer than two values never makes it panic.
\<close>

section \<open>The code\<close>

datatype abnf_error =
    DependencyNotFoundError bytes
  | InvalidRepetitionError repetition
  | InvalidNumeralError bytes bytes

text \<open>The first error of a loop.\<close>

fun first_error :: "('a \<Rightarrow> 'e option) \<Rightarrow> 'a list \<Rightarrow> 'e option" where
  "first_error f [] = None"
| "first_error f (x # xs) = (case f x of None \<Rightarrow> first_error f xs | Some e \<Rightarrow> Some e)"

lemma first_error_cong [fundef_cong]:
  "xs = ys \<Longrightarrow> (\<And>x. x \<in> set ys \<Longrightarrow> f x = g x) \<Longrightarrow> first_error f xs = first_error g ys"
  by (induction xs arbitrary: ys) (auto split: option.split)

lemma first_error_None: "first_error f xs = None \<longleftrightarrow> (\<forall>x \<in> set xs. f x = None)"
  by (induction xs) (auto split: option.split)

fun validateAlternation :: "alternation \<Rightarrow> abnf_error option"
  and validateConcatenation :: "concatenation \<Rightarrow> abnf_error option"
  and validateRepetition :: "repetition \<Rightarrow> abnf_error option"
  and validateElement :: "element \<Rightarrow> abnf_error option"
where
  "validateAlternation (Alternation cs) = first_error validateConcatenation cs"
| "validateConcatenation (Concatenation rs) = first_error validateRepetition rs"
| "validateRepetition (Repetition mn mx e) =
     (if mx \<noteq> Inf \<and> mn > mx then Some (InvalidRepetitionError (Repetition mn mx e))
      else validateElement e)"
| "validateElement (NumValElement base status vs) =
     first_error (\<lambda>v. case ParseNumVal v base of None \<Rightarrow> Some (InvalidNumeralError base v) | Some r \<Rightarrow> None) vs"
| "validateElement (GroupElement a) = validateAlternation a"
| "validateElement (OptionElement a) = validateAlternation a"
| "validateElement e = None"

lemma weight_element:
  assumes "c \<in> set (Concatenations a)" "r \<in> set (Repetitions c)"
  shows "weight (Element r) \<le> weight_alt a"
proof -
  have "weight_cat c \<le> weight_alt a" using assms(1) by (cases a) (auto intro: member_le_sum_list)
  moreover have "weight_rep r \<le> weight_cat c" using assms(2) by (cases c) (auto intro: member_le_sum_list)
  moreover have "weight_rep r = weight (Element r)" by (cases r) simp
  ultimately show ?thesis by simp
qed

lemma weight_list_double:
  "Suc (2 * weight_alt (list_alternation mn mx e x)) < 2 * weight (ListElement mn mx e x)"
  using weight_list [of mn mx e x] by linarith

function appendDependencies :: "alternation \<Rightarrow> bytes list \<Rightarrow> bytes list"
  and elementDependencies :: "element \<Rightarrow> bytes list \<Rightarrow> bytes list"
where
  "appendDependencies a dependencies =
     foldl (\<lambda>dependencies c.
         foldl (\<lambda>dependencies r. elementDependencies (Element r) dependencies) dependencies (Repetitions c))
       dependencies (Concatenations a)"
| "elementDependencies e dependencies =
     (case e of
        RulenameElement name \<Rightarrow>
          (let name = ToLower name
           in if name \<notin> set dependencies then dependencies @ [name] else dependencies)
      | GroupElement a \<Rightarrow> appendDependencies a dependencies
      | OptionElement a \<Rightarrow> appendDependencies a dependencies
      | ListElement mn mx e x \<Rightarrow> appendDependencies (list_alternation mn mx e x) dependencies
      | _ \<Rightarrow> dependencies)"
  by pat_completeness auto
termination
  by (relation "measure (\<lambda>x. case x of Inl (a, ds) \<Rightarrow> 2 * weight_alt a + 1 | Inr (e, ds) \<Rightarrow> 2 * weight e)")
    (auto simp: le_imp_less_Suc weight_element weight_list_double simp del: weight.simps(3))

declare appendDependencies.simps [simp del] elementDependencies.simps [simp del]

definition alternationDependencies :: "alternation \<Rightarrow> bytes list" where
  "alternationDependencies a = appendDependencies a []"

definition validateGrammar :: "grammar \<Rightarrow> abnf_error option" where
  "validateGrammar g =
     (case first_error (\<lambda>r. first_error (\<lambda>dependency.
              if getRule dependency g = None then Some (DependencyNotFoundError dependency) else None)
            (alternationDependencies (rule_alternation r))) (Rules g) of
        Some e \<Rightarrow> Some e
      | None \<Rightarrow> first_error (\<lambda>r. validateAlternation (rule_alternation r)) (Rules g))"

section \<open>What validation is worth\<close>

text \<open>The shape the evaluation gives every element: no empty concatenation, and at least two values to a
  range. List operators are excluded: the validation does not look into them.\<close>

fun shaped :: "element \<Rightarrow> bool"
  and shaped_alt :: "alternation \<Rightarrow> bool"
  and shaped_cat :: "concatenation \<Rightarrow> bool"
  and shaped_rep :: "repetition \<Rightarrow> bool"
where
  "shaped (RulenameElement name) = True"
| "shaped (GroupElement a) = shaped_alt a"
| "shaped (OptionElement a) = shaped_alt a"
| "shaped (CharValElement sensitive v) = True"
| "shaped (NumValElement base status vs) = (status = NumValStatusRange \<longrightarrow> 2 \<le> length vs)"
| "shaped (ListElement mn mx e expansion) = False"
| "shaped (ProseValElement v) = True"
| "shaped_alt (Alternation cs) = (\<forall>c \<in> set cs. shaped_cat c)"
| "shaped_cat (Concatenation rs) = (rs \<noteq> [] \<and> (\<forall>r \<in> set rs. shaped_rep r))"
| "shaped_rep (Repetition mn mx e) = shaped e"

text \<open>What makes the parser safe from a panic.\<close>

fun sound :: "element \<Rightarrow> bool"
  and sound_alt :: "alternation \<Rightarrow> bool"
  and sound_cat :: "concatenation \<Rightarrow> bool"
  and sound_rep :: "repetition \<Rightarrow> bool"
where
  "sound (RulenameElement name) = True"
| "sound (GroupElement a) = sound_alt a"
| "sound (OptionElement a) = sound_alt a"
| "sound (CharValElement sensitive v) = True"
| "sound (NumValElement base status vs) =
     ((\<forall>v \<in> set vs. ParseNumVal v base \<noteq> None) \<and> (status = NumValStatusRange \<longrightarrow> 2 \<le> length vs))"
| "sound (ListElement mn mx e expansion) =
     (sound e \<and> (case expansion of None \<Rightarrow> True | Some a \<Rightarrow> sound_alt a))"
| "sound (ProseValElement v) = True"
| "sound_alt (Alternation cs) = (\<forall>c \<in> set cs. sound_cat c)"
| "sound_cat (Concatenation rs) = (rs \<noteq> [] \<and> (\<forall>r \<in> set rs. sound_rep r))"
| "sound_rep (Repetition mn mx e) = sound e"

lemma validate_sound:
  "validateAlternation a = None \<Longrightarrow> shaped_alt a \<Longrightarrow> sound_alt a"
  "validateConcatenation c = None \<Longrightarrow> shaped_cat c \<Longrightarrow> sound_cat c"
  "validateRepetition r = None \<Longrightarrow> shaped_rep r \<Longrightarrow> sound_rep r"
  "validateElement e = None \<Longrightarrow> shaped e \<Longrightarrow> sound e"
  by (induction a and c and r and e
      rule: validateAlternation_validateConcatenation_validateRepetition_validateElement.induct)
    (auto simp: first_error_None split: if_splits option.splits)

lemma good_sound:
  "good K e \<Longrightarrow> sound e" "good_alt K a \<Longrightarrow> sound_alt a" "good_cat K c \<Longrightarrow> sound_cat c"
  "good_rep K r \<Longrightarrow> sound_rep r"
  by (induction K e and K a and K c and K r rule: good_good_alt_good_cat_good_rep.induct)
    (auto split: option.splits)

lemma sound_list: "sound (ListElement mn mx e x) \<Longrightarrow> sound_alt (list_alternation mn mx e x)"
  by (cases x) (auto simp: list_alternation_def expandList_def builder_defs Let_def)

section \<open>No panic\<close>

definition calm :: "stop + 'a \<Rightarrow> bool" where
  "calm m \<longleftrightarrow> m \<noteq> Inl Panic"

lemma calm_simps [simp]: "calm (Inr x)" "\<not> calm (Inl Panic)" "calm (Inl OutOfFuel)"
  by (simp_all add: calm_def)

lemma calm_bind: "calm m \<Longrightarrow> (\<And>x. calm (f x)) \<Longrightarrow> calm (bind m f)"
  by (cases m) (auto simp: calm_def)

lemma calm_collect: "(\<And>x. x \<in> set xs \<Longrightarrow> calm (f x)) \<Longrightarrow> calm (collect f xs)"
  by (induction xs) (auto intro!: calm_bind)

locale calm_solver =
  fixes E :: solver
  assumes calm_element: "sound e \<Longrightarrow> calm (E e i)"
begin

lemma next_iteration_calm: "sound (Element r) \<Longrightarrow> calm (next_iteration E r input k prev)"
  unfolding next_iteration_def by (rule calm_collect) (auto intro: calm_bind calm_element)

lemma iterations_calm: "sound (Element r) \<Longrightarrow> calm (iterations fuel E r input k prev)"
proof (induction fuel arbitrary: k prev)
  case 0
  then show ?case by (simp add: iterations.simps)
next
  case (Suc fuel)
  then show ?case
    by (subst iterations.simps) (auto intro!: calm_bind next_iteration_calm)
qed

lemma repetition_calm: "sound (Element r) \<Longrightarrow> calm (solveRepetition fuel E r input i)"
  unfolding solveRepetition_def Let_def by (auto intro!: calm_bind calm_element iterations_calm)

lemma following_calm:
  "\<forall>r \<in> set rs. sound (Element r) \<Longrightarrow> calm (solve_following fuel E rs input i cps)"
  by (induction rs arbitrary: cps) (auto intro!: calm_bind calm_collect repetition_calm)

lemma alternation_calm: "sound_alt a \<Longrightarrow> calm (solveAlternation fuel E a input i)"
  unfolding solveAlternation_def
proof (rule calm_collect)
  fix c assume "sound_alt a" "c \<in> set (Concatenations a)"
  then have s: "Repetitions c \<noteq> []" "\<forall>r \<in> set (Repetitions c). sound_rep r" by (cases a; cases c; auto)+
  have "sound (Element r)" if "r \<in> set (Repetitions c)" for r using s(2) that by (cases r) fastforce
  then show "calm (solve_concatenation fuel E input i c)"
    using s(1) by (auto simp: solve_concatenation_def neq_Nil_conv intro!: calm_bind repetition_calm following_calm)
qed

end

lemma series_calm: "\<forall>v \<in> set vs. ParseNumVal v base \<noteq> None \<Longrightarrow> calm (matchSeries base vs input i j)"
  by (induction vs arbitrary: j) (auto simp: mustParseNumVal_def Let_def)

lemma num_val_calm:
  assumes "sound (NumValElement base status vs)" shows "calm (matchNumVal base status vs input i)"
proof (cases status)
  case NumValStatusSeries
  then show ?thesis using assms series_calm by (simp add: matchNumVal_def)
next
  case NumValStatusRange
  then have "Suc (Suc 0) \<le> length vs" using assms by simp
  then obtain v0 v1 vs' where "vs = v0 # v1 # vs'" by (auto simp: Suc_le_length_iff)
  then show ?thesis using assms NumValStatusRange by (auto simp: matchNumVal_def mustParseNumVal_def)
qed

lemma element_calm:
  assumes "\<And>name r. getRule name g = Some r \<Longrightarrow> sound_alt (rule_alternation r)"
  shows "sound e \<Longrightarrow> calm (solveElement fuel g input e i)"
proof (induction fuel arbitrary: e i)
  case (Suc fuel)
  have E: "calm_solver (solveElement fuel g input)" by (rule calm_solver.intro) (rule Suc.IH)
  note alt = calm_solver.alternation_calm [OF E]
  show ?case using Suc.prems
    by (cases e) (auto simp: Let_def num_val_calm sound_list split: option.split
      intro!: calm_bind alt calm_solver.repetition_calm [OF E] dest: assms)
qed simp

end
