(* ===== verification/Abnf_Properties.thy ===== *)
theory Abnf_Properties
  imports Abnf_Self Abnf_Validate "HOL-Library.Code_Target_Nat"
begin

text \<open>
  What the parser and the validation of \<open>src/pkg/abnf\<close> promise: the parser answers exactly the
  words its grammar derives, it returns for every checked grammar, the grammar of ABNF among them,
  and a validated grammar without list operators, empty concatenations and one-valued ranges never makes
  it panic; and the ways in which a validated grammar still can fail.
\<close>

section \<open>Answers\<close>

lemma answers_whole:
  assumes "answers L input 0 ps"
  shows "filter (\<lambda>p. End p = length input) ps \<noteq> [] \<longleftrightarrow> L input"
proof -
  have "filter (\<lambda>p. End p = length input) ps \<noteq> [] \<longleftrightarrow> length input \<in> End ` set ps"
    by (force simp: filter_empty_conv)
  also have "\<dots> \<longleftrightarrow> L input" using assms by (simp add: answers_def slice_def)
  finally show ?thesis .
qed

text \<open>The solutions of a run.\<close>

lemma parse_solutions:
  assumes "proper_grammar g" "Parse fuel input g name = Inr (Some ps)"
  shows "ps \<noteq> [] \<longleftrightarrow> derives g (RulenameElement name) input"
    and "list_all (\<lambda>p. MatchRule p = name \<and> Start p = 0 \<and> End p = length input) ps"
proof -
  obtain r qs where r: "getRule name g = Some r"
    and qs: "solveAlternation fuel (solveElement fuel g input) (rule_alternation r) input 0 = Inr qs"
    and ps: "ps = map (stamp name) (filter (\<lambda>p. End p = length input) qs)"
    using assms(2) by (auto simp: Parse_def bind_Inr split: option.splits)
  have "proper_alt (rule_alternation r)" using assms(1) r by (auto simp: proper_grammar_def)
  from proper_altD [OF this] have "answers (alt_lang (derives g) (rule_alternation r)) input 0 qs"
    using parser.solveAlternation_answers [OF _ _ qs] assms(1) by (simp add: ok_rep_def)
  note whole = answers_whole [OF this] and paths = answersD(1) [OF this]
  have "derives g (RulenameElement name) input \<longleftrightarrow> alt_lang (derives g) (rule_alternation r) input"
    using r by (auto elim: derives_rulenameE intro: derives.rulename)
  then show "ps \<noteq> [] \<longleftrightarrow> derives g (RulenameElement name) input"
    and "list_all (\<lambda>p. MatchRule p = name \<and> Start p = 0 \<and> End p = length input) ps"
    using whole paths by (auto simp: ps list_all_iff stamp_def)
qed

text \<open>C27: When \<open>Parse\<close> answers, it has a solution exactly if the root rule derives the whole input by
  the rules of RFC 5234, and every solution is a path over the whole input that carries the name
  of the root rule.\<close>

theorem abnf_parse_derives:
  assumes "proper_grammar g" "Parse fuel input g name = Inr (Some ps)"
  shows "(ps \<noteq> [] \<longleftrightarrow> derives g (RulenameElement name) input) \<and>
    list_all (\<lambda>p. MatchRule p = name \<and> Start p = 0 \<and> End p = length input) ps"
  using parse_solutions [OF assms] by blast

lemma abnf_parse_derives_witness: "derives abnfGrammar (RulenameElement (str ''BIT'')) (str ''1'')"
proof -
  have "Parse 3 (str ''1'') abnfGrammar (str ''BIT'') = Inr (Some [stamp (str ''BIT'') (Path [leaf 0 1] [] 0 1)])"
    by code_simp
  from abnf_parse_derives [OF abnf.grammar_proper this] show ?thesis by simp
qed

section \<open>Returning\<close>

text \<open>C28: \<open>Parse\<close> returns for every grammar that passes the check (no left recursion, no unbounded
  repetition of what matches nothing, valid numerals): with enough fuel it has one answer, on
  every input and for every rule.\<close>

theorem abnf_parse_returns:
  assumes "checked_grammar K R g"
  shows "\<exists>N answer. \<forall>k. Parse (N + k) input g name = Inr answer"
proof -
  obtain x N where "\<forall>n \<ge> N. Parse n input g name = Inr x"
    using parsing.parse_converges [OF parsing.intro [OF assms], of input name] by (auto simp: converges_def)
  then have "\<forall>k. Parse (N + k) input g name = Inr x" by simp
  then show ?thesis by blast
qed

lemma abnf_parse_returns_witness:
  "\<exists>N answer. \<forall>k. Parse (N + k) (str ''a=b'') abnfGrammar (str ruleNameRulelist) = Inr answer"
  by (rule abnf_parse_returns [OF abnf_rules_checked])

text \<open>The run of the grammar of ABNF.\<close>

lemma definition_answers:
  "\<exists>N ps. (\<forall>k. Parse (N + k) input abnfGrammar (str ruleNameRulelist) = Inr (Some ps)) \<and>
     (ps \<noteq> [] \<longleftrightarrow> derives abnfGrammar (RulenameElement (str ruleNameRulelist)) input)"
proof -
  obtain x N where x: "\<forall>n \<ge> N. Parse n input abnfGrammar (str ruleNameRulelist) = Inr x"
    using abnf.parse_converges [of input "str ruleNameRulelist"] by (auto simp: converges_def)
  have root: "getRule (str ruleNameRulelist) abnfGrammar \<noteq> None" by code_simp
  have n: "Parse N input abnfGrammar (str ruleNameRulelist) = Inr x" using x by simp
  then obtain ps where ps: "x = Some ps" using root by (auto simp: Parse_def bind_Inr split: option.splits)
  obtain r qs where r: "getRule (str ruleNameRulelist) abnfGrammar = Some r"
    and qs: "solveAlternation N (solveElement N abnfGrammar input) (rule_alternation r) input 0 = Inr qs"
    and f: "ps = map (stamp (str ruleNameRulelist)) (filter (\<lambda>p. End p = length input) qs)"
    using n ps by (auto simp: Parse_def bind_Inr split: option.splits)
  have "proper_alt (rule_alternation r)" using abnf.grammar_proper r by (auto simp: proper_grammar_def)
  from proper_altD [OF this] have "answers (alt_lang (derives abnfGrammar) (rule_alternation r)) input 0 qs"
    using parser.solveAlternation_answers [OF _ _ qs] abnf.grammar_proper by (simp add: ok_rep_def)
  from answers_whole [OF this] have "ps \<noteq> [] \<longleftrightarrow> derives abnfGrammar (RulenameElement (str ruleNameRulelist)) input"
    using r by (auto simp: f elim: derives_rulenameE intro: derives.rulename)
  then show ?thesis using x ps by (intro exI [of _ N] exI [of _ ps]) simp
qed

text \<open>C29: On every input, parsing a definition with the grammar of ABNF returns, and finds a solution
  exactly if the input is a rule list by that grammar.\<close>

theorem abnf_definition_syntax:
  "\<exists>N ps. (\<forall>k. Parse (N + k) input abnfGrammar (str ruleNameRulelist) = Inr (Some ps)) \<and>
     (ps \<noteq> [] \<longleftrightarrow> derives abnfGrammar (RulenameElement (str ruleNameRulelist)) input)"
  by (rule definition_answers)

text \<open>An unbounded repetition of an element that derives the empty word never returns: every
  iteration has another.\<close>

lemma nullable_repetition:
  assumes "proper_grammar g" "proper e" "derives g e []" "0 \<le> mn" "i \<le> length input"
  shows "solveRepetition fuel (solveElement fuel' g input) (Repetition mn Inf e) input i \<noteq> Inr ps"
proof
  let ?r = "Repetition mn Inf e" and ?E = "solveElement fuel' g input"
  assume run: "solveRepetition fuel ?E ?r input i = Inr ps"
  have E: "exact_solver ?E (derives g) proper input"
    by (rule exact_solver.intro) (use solveElement_answers assms(1) could_match in blast)+
  have "shouldContinueRepetition ?r input i 0"
    using could_match [OF assms(2), of g input i i] assms(3,5) by (simp add: shouldContinue_iff [of ?r])
  then obtain fs later where fs: "?E e i = Inr fs" and later: "iterations fuel ?E ?r input (int 1) fs = Inr later"
    using run by (auto simp: solveRepetition_def Let_def bind_Inr)
  have "answers (copies (derives g e) 1) input i fs"
    using solveElement_answers [OF assms(1,2,5) fs] by (simp add: answers_def)
  from exact_solver.iterations_answers [OF E later, of i] this assms(2,5)
  have "\<forall>j. i \<le> j \<longrightarrow> j \<le> length input \<longrightarrow> \<not> copies (derives g e) (Suc 1 + length later) (slice input i j)"
    by simp
  moreover have "copies (derives g e) k []" for k using assms(3) by (induction k) auto
  ultimately show False using assms(5) slice_same [of input i] order_refl [of i] by metis
qed

definition nullable_loop :: grammar where
  "nullable_loop = newGrammar [newRule ''a'' [cat [rep 0 Inf (opt [cat [one (str_val ''x'')]])]]]"

lemma proper_newGrammar:
  assumes "list_all (\<lambda>r. proper_alt (rule_alternation r)) rs"
  shows "proper_grammar (newGrammar rs)"
  unfolding proper_grammar_def
proof (intro allI impI)
  fix name r assume "getRule name (newGrammar rs) = Some r"
  from getRule_newGrammar [OF this] show "proper_alt (rule_alternation r)"
    using assms coreRules_checked by (auto simp: list_all_iff checked_rule_def dest: good_proper)
qed

text \<open>C30: A validated grammar can keep the parser from ever returning: \<open>a = *[ "x" ]\<close> is valid, and
  no amount of fuel gives an answer, on any input.\<close>

theorem abnf_nullable_loop:
  "validateGrammar nullable_loop = None \<and> (\<forall>fuel. \<nexists>answer. Parse fuel input nullable_loop (str ''a'') = Inr answer)"
proof
  show "validateGrammar nullable_loop = None" by code_simp
  let ?o = "opt [cat [one (str_val ''x'')]]"
  let ?g = nullable_loop
  have r: "getRule (str ''a'') ?g = Some (newRule ''a'' [cat [rep 0 Inf ?o]])" by code_simp
  have p: "proper_grammar ?g" unfolding nullable_loop_def
    by (rule proper_newGrammar) (simp add: builder_defs Inf_def)
  have "solveRepetition fuel (solveElement fuel' ?g input) (rep 0 Inf ?o) input 0 \<noteq> Inr ps" for fuel fuel' ps
    unfolding rep_def by (rule nullable_repetition [OF p])
      (simp_all add: builder_defs derives.option_none Inf_def)
  then show "\<forall>fuel. \<nexists>answer. Parse fuel input ?g (str ''a'') = Inr answer"
    unfolding Parse_def r option.case
    by (auto simp: bind_Inr solveAlternation_def solve_concatenation_def newRule_def alt_def cat_def)
qed

section \<open>Validation\<close>

text \<open>Validated rules are sound.\<close>

lemma validated_no_panic:
  assumes "validateGrammar g = None" "list_all (\<lambda>r. shaped_alt (rule_alternation r)) (Rules g)"
    and "\<And>key i. Rulemap g key = Some i \<Longrightarrow> i < length (Rules g)"
  shows "Parse fuel input g name \<noteq> Inl Panic"
proof -
  have own: "sound_alt (rule_alternation r)" if "r \<in> set (Rules g)" for r
    using assms(1,2) that validate_sound(1) by (auto simp: validateGrammar_def first_error_None list_all_iff split: option.splits)
  have core: "sound_alt (rule_alternation r)" if "(key, r) \<in> set coreRules" for key r
    using coreRules_checked that by (auto simp: list_all_iff checked_rule_def dest: good_sound)
  have rules: "sound_alt (rule_alternation r)" if "getRule key g = Some r" for key r
  proof (cases "Rulemap g (ToLower key)")
    case None
    then have "(ToLower key, r) \<in> set coreRules" using that by (auto simp: getRule_def dest: map_of_SomeD)
    then show ?thesis by (rule core)
  next
    case (Some i)
    then have "r \<in> set (Rules g)" using that assms(3) [OF Some] by (auto simp: getRule_def)
    then show ?thesis by (rule own)
  qed
  have "calm_solver (solveElement fuel g input)"
    by (rule calm_solver.intro) (rule element_calm [OF rules])
  from calm_solver.alternation_calm [OF this rules]
  have "calm (Parse fuel input g name)"
    by (auto simp: Parse_def split: option.split intro!: calm_bind)
  then show ?thesis by (simp add: calm_def)
qed

text \<open>C31: A validated grammar never makes \<open>Parse\<close> panic, on any input and for any root rule, if it has no
  list operator, no empty concatenation and no range of fewer than two values, and its rule map points
  into its rules. The validation looks at none of these; \<open>abnf_list_not_validated\<close> and
  \<open>abnf_shape_not_validated\<close> are validated grammars that make \<open>Parse\<close> panic. The grammars \<open>ParseABNF\<close>
  makes can have list operators only.\<close>

theorem abnf_validated_no_panic:
  assumes "validateGrammar g = None" "list_all (\<lambda>r. shaped_alt (rule_alternation r)) (Rules g)"
    and "\<And>key i. Rulemap g key = Some i \<Longrightarrow> i < length (Rules g)"
  shows "Parse fuel input g name \<noteq> Inl Panic"
  by (rule validated_no_panic [OF assms])

lemma abnf_validated_no_panic_witness:
  "Parse 9 (str ''B'') (newGrammar [newRule ''a'' [cat [one (numRange ''x'' ''41'' ''42'')]]]) (str ''a'') \<noteq> Inl Panic"
proof (rule abnf_validated_no_panic)
  let ?g = "newGrammar [newRule ''a'' [cat [one (numRange ''x'' ''41'' ''42'')]]]"
  show "validateGrammar ?g = None"
    by (simp add: validateGrammar_def newGrammar_def builder_defs alternationDependencies_def appendDependencies.simps
      elementDependencies.simps ParseNumVal_def ParseUint32_def digit_of_def digit_byte_def MaxRune_def Inf_def)
  show "list_all (\<lambda>r. shaped_alt (rule_alternation r)) (Rules ?g)"
    by (simp add: newGrammar_def builder_defs)
  show "i < length (Rules ?g)" if "Rulemap ?g key = Some i" for key i
    using that by (simp add: newGrammar_def split: if_splits)
qed

text \<open>A list of numerals that are no code points.\<close>

definition invalid_list :: grammar where
  "invalid_list = newGrammar
     [newRule ''a'' [cat [one (ListElement 1 Inf (numSeries ''x'' [''110000'']) None)]],
      newRule ''OWS'' [cat [rep 0 Inf (ref ''SP'')]]]"

text \<open>The validation does not look into list operators: \<open>a = 1#%x110000\<close> passes it, and
  parsing with it panics.\<close>

lemma abnf_list_not_validated:
  "validateGrammar invalid_list = None \<and> Parse 9 (str ''A'') invalid_list (str ''a'') = Inl Panic"
proof
  show "validateGrammar invalid_list = None" by code_simp
  show "Parse 9 (str ''A'') invalid_list (str ''a'') = Inl Panic" by code_simp
qed

text \<open>Nor does it look at empty concatenations and at the number of the values of a range, which the
  parser reads by their index. The evaluation never makes such elements.\<close>

lemma abnf_shape_not_validated:
  "validateGrammar (newGrammar [newRule ''a'' [cat []]]) = None \<and>
   Parse 9 (str ''A'') (newGrammar [newRule ''a'' [cat []]]) (str ''a'') = Inl Panic \<and>
   validateGrammar (newGrammar [newRule ''a'' [cat [one (NumValElement (str ''x'') NumValStatusRange [str ''41''])]]]) = None \<and>
   Parse 9 (str ''A'') (newGrammar [newRule ''a'' [cat [one (NumValElement (str ''x'') NumValStatusRange [str ''41''])]]])
     (str ''a'') = Inl Panic"
  by (intro conjI; code_simp)

lemma abnf_rule_sound: "getRule name abnfGrammar = Some r \<Longrightarrow> sound_alt (rule_alternation r)"
  using abnf_rules_checked good_sound(2) by (auto simp: checked_grammar_def checked_rule_def)

interpretation abnf_calm: calm_solver "solveElement fuel abnfGrammar input" for fuel input
  by standard (rule element_calm [OF abnf_rule_sound])

end
