(* ===== verification/Abnf_Trees.thy ===== *)
theory Abnf_Trees
  imports Abnf_Self
begin

text \<open>
  The shape of the paths that the parser answers. Its construction is not that of a parse tree: the
  path of a concatenation holds only the repetitions that consumed input (or the first, if none
  did), and the iterations of a repetition after the first are appended to the subpaths of the
  first. \<open>tree\<close> describes the paths of an element by \<open>joined\<close> and \<open>many\<close>, which say this in a
  closed form, and the parser is shown to answer only trees.
\<close>

section \<open>Joined and repeated paths\<close>

definition consumed :: "path list \<Rightarrow> path list" where
  "consumed ps = filter (\<lambda>p. Start p \<noteq> End p) ps"

definition joined :: "path list \<Rightarrow> path" where
  "joined ps = Path (if consumed ps = [] then [hd ps] else consumed ps) [] (Start (hd ps)) (End (last ps))"

definition chained :: "path list \<Rightarrow> bool" where
  "chained ps \<longleftrightarrow> successively (\<lambda>p q. End p = Start q) ps"

definition many :: "(path \<Rightarrow> bool) \<Rightarrow> path \<Rightarrow> bool" where
  "many P p \<longleftrightarrow>
     (\<exists>q qs. P q \<and> qs \<noteq> [] \<and> list_all P qs \<and> chained (q # qs) \<and>
       p = Path (Subpaths q @ qs) [] (Start q) (End (last qs)))"

definition empty_at :: "nat \<Rightarrow> path" where
  "empty_at i = Path [leaf i i] [] i i"

definition rep_tree :: "(element \<Rightarrow> path \<Rightarrow> bool) \<Rightarrow> repetition \<Rightarrow> path \<Rightarrow> bool" where
  "rep_tree T r p \<longleftrightarrow>
     Min r = 0 \<and> p = empty_at (Start p) \<or> T (Element r) p \<or> Max r \<noteq> 1 \<and> many (T (Element r)) p"

definition alt_tree :: "(element \<Rightarrow> path \<Rightarrow> bool) \<Rightarrow> alternation \<Rightarrow> path \<Rightarrow> bool" where
  "alt_tree T a p \<longleftrightarrow>
     (\<exists>c \<in> set (Concatenations a). \<exists>ps. ps \<noteq> [] \<and> list_all2 (rep_tree T) (Repetitions c) ps \<and> chained ps \<and> p = joined ps)"

lemma many_mono: "(\<And>p. P p \<longrightarrow> Q p) \<Longrightarrow> many P p \<longrightarrow> many Q p"
  by (auto simp: many_def list_all_iff)

lemma rep_tree_mono: "(\<And>e p. T e p \<longrightarrow> T' e p) \<Longrightarrow> rep_tree T r p \<longrightarrow> rep_tree T' r p"
  using many_mono [of "T (Element r)" "T' (Element r)" p] by (auto simp: rep_tree_def)

lemma alt_tree_mono [mono]: "(\<And>e p. T e p \<longrightarrow> T' e p) \<Longrightarrow> alt_tree T a p \<longrightarrow> alt_tree T' a p"
  unfolding alt_tree_def by (blast intro: list_all2_mono rep_tree_mono [rule_format])

lemma rep_tree_mono' [mono]: "(\<And>e p. T e p \<longrightarrow> T' e p) \<Longrightarrow> rep_tree T r p \<longrightarrow> rep_tree T' r p"
  by (rule rep_tree_mono)

lemma chained_snoc:
  "chained ps \<Longrightarrow> ps \<noteq> [] \<Longrightarrow> End (last ps) = Start p \<Longrightarrow> chained (ps @ [p])"
  by (simp add: chained_def successively_append_iff)

lemma many_snoc:
  assumes "P p \<or> many P p" "P q" "Start q = End p"
  shows "many P (Path (Subpaths p @ [q]) [] (Start p) (End q))"
  using assms(1)
proof
  assume "P p"
  then show ?thesis using assms(2,3) unfolding many_def
    by (intro exI [of _ p] exI [of _ "[q]"]) (simp add: chained_def)
next
  assume "many P p"
  then obtain x xs where "P x" "xs \<noteq> []" "list_all P xs" "chained (x # xs)"
    "p = Path (Subpaths x @ xs) [] (Start x) (End (last xs))" by (auto simp: many_def)
  then show ?thesis using assms(2,3) chained_snoc [of "x # xs" q] unfolding many_def
    by (intro exI [of _ x] exI [of _ "xs @ [q]"]) simp
qed

lemma extend_joined:
  assumes "ps \<noteq> []" "Start p = End (last ps)"
  shows "extend_path (Start (hd ps)) (joined ps) p = joined (ps @ [p])"
proof (cases "consumed ps = []")
  case True
  then have "Start (hd ps) = End (hd ps)" using assms(1) by (cases ps) (auto simp: consumed_def split: if_splits)
  then show ?thesis using True assms by (simp add: extend_path_def joined_def consumed_def Let_def)
next
  case False
  then have "last (consumed ps) \<in> set (consumed ps)" by simp
  then have "Start (last (consumed ps)) \<noteq> End (last (consumed ps))" unfolding consumed_def by simp
  with False show ?thesis using assms by (simp add: extend_path_def joined_def consumed_def Let_def)
qed

section \<open>Trees\<close>

text \<open>Every node derives its part of the input.\<close>

definition reads :: "grammar \<Rightarrow> bytes \<Rightarrow> element \<Rightarrow> path \<Rightarrow> bool" where
  "reads g input e p \<longleftrightarrow>
     Start p \<le> End p \<and> End p \<le> length input \<and> derives g e (slice input (Start p) (End p))"

inductive tree :: "grammar \<Rightarrow> bytes \<Rightarrow> element \<Rightarrow> path \<Rightarrow> bool" for g :: grammar and input :: bytes where
  rulename: "reads g input (RulenameElement name) p \<Longrightarrow> getRule name g = Some r \<Longrightarrow>
    alt_tree (tree g input) (rule_alternation r) p \<Longrightarrow> tree g input (RulenameElement name) (stamp name p)"
| group: "reads g input (GroupElement a) p \<Longrightarrow> alt_tree (tree g input) a p \<Longrightarrow> tree g input (GroupElement a) p"
| option: "reads g input (OptionElement a) p \<Longrightarrow> rep_tree (tree g input) (Repetition 0 1 (GroupElement a)) p \<Longrightarrow>
    tree g input (OptionElement a) p"
| list: "reads g input (ListElement mn mx e x) p \<Longrightarrow> alt_tree (tree g input) (list_alternation mn mx e x) p \<Longrightarrow>
    tree g input (ListElement mn mx e x) p"
| char_val: "reads g input (CharValElement s v) (leaf i j) \<Longrightarrow> tree g input (CharValElement s v) (leaf i j)"
| num_val: "reads g input (NumValElement b s vs) (leaf i j) \<Longrightarrow> tree g input (NumValElement b s vs) (leaf i j)"

inductive_cases tree_rulenameE: "tree g input (RulenameElement name) p"
inductive_simps tree_group: "tree g input (GroupElement a) p"
inductive_simps tree_option: "tree g input (OptionElement a) p"
inductive_cases tree_charE: "tree g input (CharValElement s v) p"

lemma tree_reads: "tree g input e p \<Longrightarrow> reads g input e p"
  by (induction rule: tree.induct) (simp_all add: reads_def stamp_def)

section \<open>The parser answers trees\<close>

locale sound_solver =
  fixes E :: solver and T :: "element \<Rightarrow> path \<Rightarrow> bool" and ok :: "element \<Rightarrow> bool" and input :: bytes
  assumes sound: "ok e \<Longrightarrow> i \<le> length input \<Longrightarrow> E e i = Inr ps \<Longrightarrow> p \<in> set ps \<Longrightarrow>
    T e p \<and> Start p = i \<and> End p \<le> length input"
begin

lemma next_iteration_many:
  assumes run: "next_iteration E r input k prev = Inr cur" and ok: "ok (Element r)"
    and prev: "\<And>p. p \<in> set prev \<Longrightarrow> (T (Element r) p \<or> many (T (Element r)) p) \<and> Start p = i \<and> End p \<le> length input"
    and p: "p \<in> set cur"
  shows "many (T (Element r)) p \<and> Start p = i \<and> End p \<le> length input"
proof -
  define step where "step = (\<lambda>previousPath.
         if \<not> shouldContinueRepetition r input (End previousPath) k then Inr []
         else
           bind (E (Element r) (End previousPath)) (\<lambda>elementPaths.
             Inr (map (\<lambda>elementPath.
                    Path (Subpaths previousPath @ [elementPath]) [] (Start previousPath)
                      (End elementPath)) elementPaths)))"
  have c: "collect step prev = Inr cur" using run by (simp add: next_iteration_def step_def)
  obtain q where q: "q \<in> set prev" "p \<in> set (projr (step q))" using p collect_set(1) [OF c] by blast
  obtain zs where "step q = Inr zs" using collect_set(2) [OF c q(1)] by blast
  with q(2) obtain es e where es: "E (Element r) (End q) = Inr es" "e \<in> set es"
    "p = Path (Subpaths q @ [e]) [] (Start q) (End e)" by (auto simp: step_def bind_Inr split: if_splits)
  have "T (Element r) e \<and> Start e = End q \<and> End e \<le> length input"
    using sound [OF ok _ es(1,2)] prev [OF q(1)] by simp
  then show ?thesis using many_snoc [of "T (Element r)" q e] prev [OF q(1)] by (simp add: es(3))
qed

lemma iterations_many:
  assumes "iterations fuel E r input k prev = Inr later" "ok (Element r)"
    and "\<And>p. p \<in> set prev \<Longrightarrow> (T (Element r) p \<or> many (T (Element r)) p) \<and> Start p = i \<and> End p \<le> length input"
    and "ps \<in> set later" "p \<in> set ps"
  shows "k \<noteq> Max r \<and> many (T (Element r)) p \<and> Start p = i \<and> End p \<le> length input"
  using assms
proof (induction fuel arbitrary: k prev later)
  case 0
  then show ?case by (simp add: iterations.simps split: if_splits)
next
  case (Suc fuel)
  from Suc.prems(1,4) obtain cur rest where k: "k \<noteq> Max r"
    and cur: "next_iteration E r input k prev = Inr cur"
    and rest: "rest = [] \<or> iterations fuel E r input (k + 1) cur = Inr rest" and later: "later = cur # rest"
    by (subst (asm) iterations.simps) (auto simp: bind_Inr split: if_splits)
  have many: "many (T (Element r)) q \<and> Start q = i \<and> End q \<le> length input" if "q \<in> set cur" for q
    by (rule next_iteration_many [OF cur Suc.prems(2,3) that])
  show ?case
  proof (cases "ps = cur")
    case True
    then show ?thesis using k many Suc.prems(5) by simp
  next
    case False
    then have "ps \<in> set rest" using Suc.prems(4) later by simp
    moreover from this rest have "iterations fuel E r input (k + 1) cur = Inr rest" by auto
    ultimately show ?thesis using Suc.IH [OF _ Suc.prems(2) _ _ Suc.prems(5)] many k by blast
  qed
qed

lemma solveRepetition_tree:
  assumes run: "solveRepetition fuel E r input i = Inr ps" and ok: "ok (Element r)" and i: "i \<le> length input"
    and p: "p \<in> set ps"
  shows "rep_tree T r p \<and> Start p = i \<and> End p \<le> length input"
proof (cases "Min r = 0 \<and> p = empty_at i")
  case True
  then show ?thesis using i by (simp add: rep_tree_def empty_at_def)
next
  case False
  then have "shouldContinueRepetition r input i 0"
    using run p by (auto simp: solveRepetition_def Let_def empty_at_def split: if_splits)
  with run obtain first later where E: "E (Element r) i = Inr first"
    and later: "iterations fuel E r input 1 first = Inr later"
    and ps: "ps = (if Min r = 0 then [empty_at i] else []) @ concat (drop (nat (max 1 (Min r)) - 1) (first # later))"
    by (auto simp: solveRepetition_def Let_def bind_Inr empty_at_def)
  from p False obtain qs where "qs \<in> set (drop (nat (max 1 (Min r)) - 1) (first # later))" "p \<in> set qs"
    unfolding ps by (auto split: if_splits)
  from in_set_dropD [OF this(1)] this(2)
  consider "p \<in> set first" | qs where "qs \<in> set later" "p \<in> set qs" by auto
  then show ?thesis
  proof cases
    case 1
    then show ?thesis using sound [OF ok i E] by (simp add: rep_tree_def)
  next
    case 2
    then show ?thesis using iterations_many [OF later ok _ 2] sound [OF ok i E] by (auto simp: rep_tree_def)
  qed
qed

definition partial :: "repetition list \<Rightarrow> nat \<Rightarrow> path \<Rightarrow> bool" where
  "partial rs i p \<longleftrightarrow>
     (\<exists>ps. ps \<noteq> [] \<and> list_all2 (rep_tree T) rs ps \<and> chained ps \<and> p = joined ps \<and> Start (hd ps) = i) \<and>
     End p \<le> length input"

lemma partial_extend:
  assumes "partial rs i c" "rep_tree T r p" "Start p = End c" "End p \<le> length input"
  shows "partial (rs @ [r]) i (extend_path i c p)"
proof -
  obtain ps where ps: "ps \<noteq> []" "list_all2 (rep_tree T) rs ps" "chained ps" "c = joined ps" "Start (hd ps) = i"
    using assms(1) by (auto simp: partial_def)
  have "End c = End (last ps)" by (simp add: ps(4) joined_def)
  then have "extend_path i c p = joined (ps @ [p])" "chained (ps @ [p])"
    using extend_joined [OF ps(1)] chained_snoc [OF ps(3,1)] assms(3) by (simp_all add: ps(4,5))
  moreover from this have "End (extend_path i c p) = End p" by (simp add: joined_def)
  ultimately show ?thesis using ps assms unfolding partial_def
    by (intro conjI exI [of _ "ps @ [p]"]) (auto intro: list_all2_appendI)
qed

lemma solve_following_tree:
  assumes "solve_following fuel E rs input i cs = Inr ps" "\<And>r. r \<in> set rs \<Longrightarrow> ok (Element r)"
    and "\<And>c. c \<in> set cs \<Longrightarrow> partial ss i c" and "p \<in> set ps"
  shows "partial (ss @ rs) i p"
  using assms
proof (induction rs arbitrary: ss cs)
  case (Cons r rs)
  obtain ds where ds: "collect (\<lambda>c. bind (solveRepetition fuel E r input (End c)) (\<lambda>paths.
      Inr (map (extend_path i c) paths))) cs = Inr ds" "solve_following fuel E rs input i ds = Inr ps"
    using Cons.prems(1) by (auto simp: bind_Inr)
  have "partial (ss @ [r]) i d" if d: "d \<in> set ds" for d
  proof -
    obtain c where c: "c \<in> set cs" "d \<in> set (projr (bind (solveRepetition fuel E r input (End c)) (\<lambda>paths.
      Inr (map (extend_path i c) paths))))" using d collect_set(1) [OF ds(1)] by blast
    obtain zs where "bind (solveRepetition fuel E r input (End c)) (\<lambda>paths.
      Inr (map (extend_path i c) paths)) = Inr zs" using collect_set(2) [OF ds(1) c(1)] by blast
    with c(2) obtain qs q where q: "solveRepetition fuel E r input (End c) = Inr qs" "q \<in> set qs"
      "d = extend_path i c q" by (auto simp: bind_Inr)
    note P = Cons.prems(3) [OF c(1)]
    then have "End c \<le> length input" by (simp add: partial_def)
    from solveRepetition_tree [OF q(1) _ this q(2)] show ?thesis
      using Cons.prems(2) partial_extend [OF P] by (simp add: q(3))
  qed
  then show ?case using Cons.IH [OF ds(2), of "ss @ [r]"] Cons.prems(2,4) by simp
qed simp

lemma solveAlternation_tree:
  assumes run: "solveAlternation fuel E a input i = Inr ps" and i: "i \<le> length input"
    and ok: "\<And>c r. c \<in> set (Concatenations a) \<Longrightarrow> r \<in> set (Repetitions c) \<Longrightarrow> ok (Element r)" and p: "p \<in> set ps"
  shows "alt_tree T a p \<and> Start p = i \<and> End p \<le> length input"
proof -
  have coll: "collect (solve_concatenation fuel E input i) (Concatenations a) = Inr ps"
    using run by (simp add: solveAlternation_def)
  obtain c where c: "c \<in> set (Concatenations a)" "p \<in> set (projr (solve_concatenation fuel E input i c))"
    using p collect_set(1) [OF coll] by blast
  obtain qs where "solve_concatenation fuel E input i c = Inr qs" using collect_set(2) [OF coll c(1)] by blast
  with c(2) have "solve_concatenation fuel E input i c = Inr qs" "p \<in> set qs" by simp_all
  then obtain r rs first where r: "Repetitions c = r # rs" "solveRepetition fuel E r input i = Inr first"
    "solve_following fuel E rs input i (map (\<lambda>p. Path [p] [] i (End p)) first) = Inr qs"
    by (auto simp: solve_concatenation_def bind_Inr split: list.splits)
  have start: "partial [r] i d" if d: "d \<in> set (map (\<lambda>p. Path [p] [] i (End p)) first)" for d
  proof -
    obtain q where q: "q \<in> set first" "d = Path [q] [] i (End q)" using d by auto
    have "rep_tree T r q \<and> Start q = i \<and> End q \<le> length input"
      using solveRepetition_tree [OF r(2) ok [OF c(1)] i q(1)] r(1) by simp
    then show ?thesis unfolding partial_def
      by (intro conjI exI [of _ "[q]"]) (simp_all add: q(2) joined_def consumed_def chained_def)
  qed
  have "partial ([r] @ rs) i p"
    by (rule solve_following_tree [OF r(3) _ start \<open>p \<in> set qs\<close>]) (use ok [OF c(1)] r(1) in simp_all)
  then show ?thesis using c(1) r(1) unfolding partial_def alt_tree_def
    by (auto simp: joined_def intro!: bexI [of _ c])
qed

end

lemma matchSeries_leaf: "matchSeries base vs input i m = Inr ps \<Longrightarrow> p \<in> set ps \<Longrightarrow> \<exists>j. p = leaf i j"
  by (induction base vs input i m rule: matchSeries.induct) (auto simp: bind_Inr Let_def split: if_splits)

lemma matchRange_leaf: "p \<in> set (matchRange low high input i) \<Longrightarrow> \<exists>j. p = leaf i j"
  by (auto simp: matchRange_def Let_def split: prod.splits if_splits)

lemma matchNumVal_leaf: "matchNumVal base status vs input i = Inr ps \<Longrightarrow> p \<in> set ps \<Longrightarrow> \<exists>j. p = leaf i j"
  using matchSeries_leaf matchRange_leaf
  by (fastforce simp: matchNumVal_def bind_Inr split: num_val_status.splits list.splits)

lemma solveElement_tree:
  assumes "proper_grammar g"
  shows "proper e \<Longrightarrow> i \<le> length input \<Longrightarrow> solveElement fuel g input e i = Inr ps \<Longrightarrow> p \<in> set ps \<Longrightarrow>
    tree g input e p \<and> Start p = i \<and> End p \<le> length input"
proof (induction fuel arbitrary: e i ps p)
  case (Suc fuel)
  let ?E = "solveElement fuel g input"
  note P = answersD [OF solveElement_answers [OF assms Suc.prems(1-3)] Suc.prems(4)]
  then have reads: "reads g input e p" by (simp add: reads_def)
  have E: "sound_solver ?E (tree g input) proper input"
    by (rule sound_solver.intro) (rule Suc.IH)
  have alt: "alt_tree (tree g input) a q"
    if "proper_alt a" "solveAlternation fuel ?E a input i = Inr qs" "q \<in> set qs" for a q qs
    using sound_solver.solveAlternation_tree [OF E that(2) Suc.prems(2) _ that(3)] proper_altD [OF that(1)] by blast
  have "tree g input e p"
  proof (cases e)
    case (RulenameElement name)
    with Suc.prems(3,4) obtain r qs q where r: "getRule name g = Some r" and
      qs: "solveAlternation fuel ?E (rule_alternation r) input i = Inr qs" "q \<in> set qs" and q: "p = stamp name q"
      by (auto simp: bind_Inr split: option.splits)
    have "proper_alt (rule_alternation r)" using assms r by (auto simp: proper_grammar_def)
    moreover have "reads g input (RulenameElement name) q"
      using reads by (simp add: RulenameElement q reads_def stamp_def)
    ultimately show ?thesis using tree.rulename [OF _ r alt] qs by (simp add: RulenameElement q)
  next
    case (GroupElement a)
    then show ?thesis using reads alt [of a ps p] Suc.prems by (auto intro: tree.group)
  next
    case (OptionElement a)
    let ?r = "Repetition 0 1 (GroupElement a)"
    have "solveRepetition fuel ?E ?r input i = Inr ps" "proper (Element ?r)"
      using Suc.prems by (simp_all add: OptionElement)
    from sound_solver.solveRepetition_tree [OF E this Suc.prems(2,4)] show ?thesis
      using reads by (simp add: OptionElement tree.option)
  next
    case (ListElement mn mx f x)
    then show ?thesis using reads alt [of "list_alternation mn mx f x" ps p] Suc.prems
        proper_list_alternation [of mn mx f x] by (auto intro: tree.list)
  next
    case (CharValElement sensitive v)
    then obtain j where "p = leaf i j" using Suc.prems by (auto simp: matchCharVal_def split: if_splits)
    then show ?thesis using reads by (simp add: CharValElement tree.char_val)
  next
    case (NumValElement base status vs)
    then obtain j where "p = leaf i j" using Suc.prems matchNumVal_leaf by fastforce
    then show ?thesis using reads by (simp add: NumValElement tree.num_val)
  next
    case (ProseValElement v)
    then show ?thesis using Suc.prems by simp
  qed
  then show ?case using P by simp
qed simp

interpretation trees: sound_solver "solveElement fuel g input" "tree g input"
  "\<lambda>e. proper_grammar g \<and> proper e" input for fuel g input
  by standard (use solveElement_tree in blast)

end
