(* ===== verification/Abnf_Evaluate.thy ===== *)
theory Abnf_Evaluate
  imports Abnf_Validate
begin

text \<open>
  The evaluation of a parsed definition into a grammar (\<open>src/pkg/abnf/evaluate.go\<close> and the list
  operators of \<open>list.go\<close>), and \<open>ParseABNF\<close> of \<open>parse.go\<close>, which parses, evaluates and validates.
  The evaluation reads the path tree by position: an index out of range is a panic. The rules it
  collects are objects shared by a list and an index by name; here the index holds positions.
\<close>

section \<open>Paths and input\<close>

datatype evaluate_error =
    Evaluate_Panic
  | UnexpectedPathStructure
  | AtoiError bytes
  | CoreRuleModificationError bytes
  | DuplicatedRuleError bytes
  | RuleNotFoundError bytes

definition subpath :: "path \<Rightarrow> nat \<Rightarrow> evaluate_error + path" where
  "subpath p k = (if k < length (Subpaths p) then Inr (Subpaths p ! k) else Inl Evaluate_Panic)"

definition last_subpath :: "path \<Rightarrow> evaluate_error + path" where
  "last_subpath p = (if Subpaths p = [] then Inl Evaluate_Panic else Inr (last (Subpaths p)))"

text \<open>\<open>input[i:j]\<close> and \<open>input[i]\<close>, for an input without spare capacity.\<close>

definition substring :: "bytes \<Rightarrow> nat \<Rightarrow> nat \<Rightarrow> evaluate_error + bytes" where
  "substring input i j =
     (if i \<le> j \<and> j \<le> length input then Inr (take (j - i) (drop i input)) else Inl Evaluate_Panic)"

definition byte_at :: "bytes \<Rightarrow> nat \<Rightarrow> evaluate_error + byte" where
  "byte_at input i = (if i < length input then Inr (input ! i) else Inl Evaluate_Panic)"

text \<open>The first index of a byte from \<open>i\<close> to \<open>j\<close>.\<close>

function index_byte :: "bytes \<Rightarrow> byte \<Rightarrow> nat \<Rightarrow> nat \<Rightarrow> evaluate_error + nat option" where
  "index_byte input b i j =
     (if i < j then
        bind (byte_at input i) (\<lambda>c. if c \<noteq> b then index_byte input b (i + 1) j else Inr (Some i))
      else Inr None)"
  by auto
termination by (relation "measure (\<lambda>(input, b, i, j). j - i)") auto

declare index_byte.simps [simp del]

text \<open>\<open>strings.EqualFold\<close> of rule names, which are ASCII.\<close>

definition EqualFold :: "bytes \<Rightarrow> bytes \<Rightarrow> bool" where
  "EqualFold s t \<longleftrightarrow> ToLower s = ToLower t"

text \<open>\<open>strings.TrimSpace\<close> of what the grammar of ABNF matches, which is ASCII.\<close>

definition space_byte :: "byte \<Rightarrow> bool" where
  "space_byte b \<longleftrightarrow> b \<in> {0x20, 0x09, 0x0A, 0x0B, 0x0C, 0x0D}"

definition TrimSpace :: "bytes \<Rightarrow> bytes" where
  "TrimSpace s = rev (dropWhile space_byte (rev (dropWhile space_byte s)))"

text \<open>\<open>strconv.Atoi\<close>, to 64 bits.\<close>

fun decimal :: "nat \<Rightarrow> bytes \<Rightarrow> nat option" where
  "decimal n [] = Some n"
| "decimal n (c # s) = (if digit_byte c then decimal (n * 10 + digit_value c) s else None)"

definition Atoi :: "bytes \<Rightarrow> evaluate_error + int" where
  "Atoi s =
     (let negative = has_prefix s (str ''-'');
          digits = (if negative \<or> has_prefix s (str ''+'') then drop 1 s else s)
      in if digits = [] then Inl (AtoiError s)
         else
           (case decimal 0 digits of
              None \<Rightarrow> Inl (AtoiError s)
            | Some n \<Rightarrow>
                let i = (if negative then - int n else int n)
                in if - (2 ^ 63) \<le> i \<and> i < 2 ^ 63 then Inr i else Inl (AtoiError s)))"

text \<open>A loop over the paths of a list that appends what each of them evaluates to.\<close>

fun traverse :: "('a \<Rightarrow> 'e + 'b) \<Rightarrow> 'a list \<Rightarrow> 'e + 'b list" where
  "traverse f [] = Inr []"
| "traverse f (x # xs) = bind (f x) (\<lambda>y. bind (traverse f xs) (\<lambda>ys. Inr (y # ys)))"

lemma traverse_cong [fundef_cong]:
  "xs = ys \<Longrightarrow> (\<And>x. x \<in> set ys \<Longrightarrow> f x = g x) \<Longrightarrow> traverse f xs = traverse g ys"
  by (induction xs arbitrary: ys) auto

declare bind_cong [fundef_cong]

section \<open>Items\<close>

definition item_index :: "path list \<Rightarrow> bytes \<Rightarrow> nat \<Rightarrow> nat" where
  "item_index subpaths itemRuleName i =
     i + length (takeWhile (\<lambda>p. \<not> EqualFold (MatchRule p) itemRuleName) (drop i subpaths))"

definition listItemPaths :: "path \<Rightarrow> bytes \<Rightarrow> evaluate_error + path list" where
  "listItemPaths p itemRuleName =
     bind (subpath p 0) (\<lambda>firstItem.
       if length (Subpaths p) = 1 then Inr [firstItem]
       else
         bind (subpath p 1) (\<lambda>following.
           let i = item_index (Subpaths following) itemRuleName 1
           in bind (subpath following i) (\<lambda>item.
              bind (traverse last_subpath (drop (i + 1) (Subpaths following))) (\<lambda>items.
                Inr (firstItem # item # items)))))"

lemma subpath_nodes: "subpath p k = Inr q \<Longrightarrow> path_nodes q < path_nodes p"
  by (auto simp: subpath_def path_nodes_subpath split: if_splits)

lemma last_subpath_nodes: "last_subpath p = Inr q \<Longrightarrow> path_nodes q < path_nodes p"
  by (auto simp: last_subpath_def path_nodes_subpath split: if_splits)

lemma traverse_mem: "traverse f xs = Inr ys \<Longrightarrow> y \<in> set ys \<Longrightarrow> \<exists>x \<in> set xs. f x = Inr y"
  by (induction xs arbitrary: ys) (auto simp: bind_Inr)

lemma listItemPaths_nodes:
  assumes "listItemPaths p name = Inr items" "q \<in> set items"
  shows "path_nodes q < path_nodes p"
proof (cases "length (Subpaths p) = 1")
  case True
  then show ?thesis using assms by (auto simp: listItemPaths_def bind_Inr subpath_nodes)
next
  case False
  with assms(1) obtain f g item rest i where
    p: "subpath p 0 = Inr f" "subpath p 1 = Inr g" and
    g: "subpath g i = Inr item" "traverse last_subpath (drop (i + 1) (Subpaths g)) = Inr rest" and
    items: "items = f # item # rest"
    by (auto simp: listItemPaths_def bind_Inr Let_def)
  have "path_nodes q < path_nodes g" if "q \<in> set rest"
    using traverse_mem [OF g(2) that] by (auto dest!: in_set_dropD path_nodes_subpath last_subpath_nodes)
  then show ?thesis using assms(2) p g(1) by (auto simp: items dest!: subpath_nodes)
qed

section \<open>Literals\<close>

text \<open>The value of a char-val: the text between the quotes of its quoted string, if there is any.\<close>

definition char_val_text :: "bytes \<Rightarrow> path list \<Rightarrow> evaluate_error + bytes" where
  "char_val_text input subpaths =
     (case List.find (\<lambda>p. EqualFold (MatchRule p) (str ruleNameQuotedString) \<and> length (Subpaths p) \<noteq> 2) subpaths of
        None \<Rightarrow> Inr []
      | Some p \<Rightarrow> bind (subpath p 1) (\<lambda>q. substring input (Start q) (End q)))"

definition evaluateCharVal :: "bytes \<Rightarrow> path \<Rightarrow> evaluate_error + element" where
  "evaluateCharVal input p =
     bind (subpath p 0) (\<lambda>string_path.
     bind (char_val_text input (Subpaths string_path)) (\<lambda>v.
       Inr (CharValElement (EqualFold (MatchRule string_path) (str ruleNameCaseSensitiveString)) v)))"

definition subpath_text :: "bytes \<Rightarrow> path \<Rightarrow> nat \<Rightarrow> evaluate_error + bytes" where
  "subpath_text input p k = bind (subpath p k) (\<lambda>q. substring input (Start q) (End q))"

definition evaluateNumVal :: "bytes \<Rightarrow> path \<Rightarrow> evaluate_error + element" where
  "evaluateNumVal input p =
     bind (subpath p 1) (\<lambda>q. bind (subpath q 0) (\<lambda>basePath.
       let base =
             (if MatchRule basePath = str ruleNameBinVal then str ''b''
              else if MatchRule basePath = str ruleNameDecVal then str ''d''
              else if MatchRule basePath = str ruleNameHexVal then str ''x'' else [])
       in bind (subpath_text input basePath 1) (\<lambda>v.
          if length (Subpaths basePath) > 2 then
            bind (subpath basePath 2) (\<lambda>q. bind (subpath q 0) (\<lambda>hitPath.
            bind (subpath hitPath 0) (\<lambda>separator. bind (byte_at input (Start separator)) (\<lambda>c.
              let status = (if c = ch CHR ''-'' then NumValStatusRange else NumValStatusSeries)
              in bind (subpath_text input hitPath 1) (\<lambda>second.
                 bind (traverse (\<lambda>q. subpath_text input q 1) (drop 2 (Subpaths hitPath))) (\<lambda>others.
                   Inr (NumValElement base status (v # second # others))))))))
          else Inr (NumValElement base NumValStatusSeries [v]))))"

section \<open>Repeats\<close>

text \<open>A count, or what stands for it where it is absent.\<close>

definition count_or :: "int \<Rightarrow> bytes \<Rightarrow> evaluate_error + int" where
  "count_or absent s = (if s \<noteq> [] then Atoi s else Inr absent)"

definition listRepeatCounts :: "bytes \<Rightarrow> path \<Rightarrow> nat \<Rightarrow> evaluate_error + int \<times> int" where
  "listRepeatCounts input repeatPath hashIndex =
     bind (substring input (Start repeatPath) hashIndex) (\<lambda>s.
     bind (count_or 0 s) (\<lambda>minimum.
     bind (substring input (hashIndex + 1) (End repeatPath)) (\<lambda>s.
     bind (count_or Inf s) (\<lambda>maximum. Inr (minimum, maximum)))))"

definition repeatCounts :: "bytes \<Rightarrow> path \<Rightarrow> evaluate_error + int \<times> int" where
  "repeatCounts input repeatPath =
     bind (index_byte input (ch CHR ''*'') (Start repeatPath) (End repeatPath)) (\<lambda>starIndex.
       case starIndex of
         None \<Rightarrow>
           bind (substring input (Start repeatPath) (End repeatPath)) (\<lambda>s.
           bind (Atoi s) (\<lambda>count. Inr (count, count)))
       | Some i \<Rightarrow>
           bind (substring input (Start repeatPath) i) (\<lambda>s.
           bind (count_or 0 s) (\<lambda>minCount.
           bind (substring input (i + 1) (End repeatPath)) (\<lambda>s.
           bind (count_or Inf s) (\<lambda>maxCount. Inr (minCount, maxCount))))))"

section \<open>Elements\<close>

lemma find_nodes: "List.find P (Subpaths p) = Some q \<Longrightarrow> path_nodes q < path_nodes p"
  by (metis find_Some_iff nth_mem path_nodes_subpath)

lemma child_nodes:
  "Subpaths p = [q] \<Longrightarrow> path_nodes q < path_nodes p"
  "Subpaths p = [r, q] \<Longrightarrow> path_nodes q < path_nodes p"
  "Subpaths p = [r] \<Longrightarrow> subpath r k = Inr q \<Longrightarrow> path_nodes q < path_nodes p"
  "Subpaths p = [t, r] \<Longrightarrow> subpath r k = Inr q \<Longrightarrow> path_nodes q < path_nodes p"
  by (auto simp: path_nodes_subpaths [of p] dest: subpath_nodes)

function evaluateAlternation :: "bytes \<Rightarrow> path \<Rightarrow> evaluate_error + alternation"
  and evaluateConcatenation :: "bytes \<Rightarrow> path \<Rightarrow> evaluate_error + concatenation"
  and evaluateRepetition :: "bytes \<Rightarrow> path \<Rightarrow> evaluate_error + repetition"
  and evaluateListRepeat :: "bytes \<Rightarrow> path \<Rightarrow> nat \<Rightarrow> path \<Rightarrow> evaluate_error + element"
  and evaluateElement :: "bytes \<Rightarrow> path \<Rightarrow> evaluate_error + element"
where
  "evaluateAlternation input p =
     bind (listItemPaths p (str ruleNameConcatenation)) (\<lambda>items.
     bind (traverse (evaluateConcatenation input) items) (\<lambda>cs. Inr (Alternation cs)))"
| "evaluateConcatenation input p =
     bind (listItemPaths p (str ruleNameRepetition)) (\<lambda>items.
     bind (traverse (evaluateRepetition input) items) (\<lambda>rs. Inr (Concatenation rs)))"
| "evaluateRepetition input p =
     (case Subpaths p of
        [elementPath] \<Rightarrow>
          bind (subpath elementPath 0) (\<lambda>q.
          bind (evaluateElement input q) (\<lambda>e. Inr (Repetition 1 1 e)))
      | [optionPath, elementPath] \<Rightarrow>
          bind (subpath optionPath 0) (\<lambda>hit. bind (subpath hit 0) (\<lambda>repeatPath.
          bind (index_byte input (ch CHR ''#'') (Start repeatPath) (End repeatPath)) (\<lambda>hash.
            case hash of
              Some i \<Rightarrow> bind (evaluateListRepeat input repeatPath i elementPath) (\<lambda>listElement. Inr (one listElement))
            | None \<Rightarrow>
                bind (repeatCounts input repeatPath) (\<lambda>(minCount, maxCount).
                bind (subpath elementPath 0) (\<lambda>q.
                bind (evaluateElement input q) (\<lambda>e. Inr (Repetition minCount maxCount e)))))))
      | _ \<Rightarrow> Inl UnexpectedPathStructure)"
| "evaluateListRepeat input repeatPath hashIndex elementPath =
     bind (listRepeatCounts input repeatPath hashIndex) (\<lambda>(minimum, maximum).
     bind (subpath elementPath 0) (\<lambda>q.
     bind (evaluateElement input q) (\<lambda>e.
       Inr (ListElement minimum maximum e (Some (expandList minimum maximum e))))))"
| "evaluateElement input p =
     (if MatchRule p = str ruleNameRulename then
        bind (substring input (Start p) (End p)) (\<lambda>name. Inr (RulenameElement name))
      else if MatchRule p = str ruleNameGroup \<or> MatchRule p = str ruleNameOption then
        (case List.find (\<lambda>q. EqualFold (MatchRule q) (str ruleNameAlternation)) (Subpaths p) of
           None \<Rightarrow> Inl UnexpectedPathStructure
         | Some alternationPath \<Rightarrow>
             bind (evaluateAlternation input alternationPath) (\<lambda>a.
               Inr (if MatchRule p = str ruleNameOption then OptionElement a else GroupElement a)))
      else if MatchRule p = str ruleNameCharVal then evaluateCharVal input p
      else if MatchRule p = str ruleNameNumVal then evaluateNumVal input p
      else if MatchRule p = str ruleNameProseVal then
        bind (substring input (Start p + 1) (End p - 1)) (\<lambda>v. Inr (ProseValElement v))
      else
        (case Subpaths p of
           [q] \<Rightarrow> evaluateElement input q
         | _ \<Rightarrow> bind (substring input (Start p) (End p)) (\<lambda>s. Inl UnexpectedPathStructure)))"
  by pat_completeness auto

termination
  by (relation "measure (\<lambda>x. case x of
      Inl (Inl (input, p)) \<Rightarrow> path_nodes p
    | Inl (Inr (input, p)) \<Rightarrow> path_nodes p
    | Inr (Inl (input, p)) \<Rightarrow> path_nodes p
    | Inr (Inr (Inl (input, repeatPath, i, p))) \<Rightarrow> path_nodes p
    | Inr (Inr (Inr (input, p))) \<Rightarrow> path_nodes p)",
      simp_all only: wf_measure in_measure prod.case sum.case)
    (fast intro: listItemPaths_nodes subpath_nodes find_nodes child_nodes)+

declare evaluateAlternation.simps [simp del] evaluateConcatenation.simps [simp del]
  evaluateRepetition.simps [simp del] evaluateListRepeat.simps [simp del] evaluateElement.simps [simp del]

section \<open>Grammars\<close>

definition evaluateRule :: "bytes \<Rightarrow> path \<Rightarrow> evaluate_error + rule" where
  "evaluateRule input p =
     bind (subpath_text input p 0) (\<lambda>rulename.
     bind (subpath p 2) (\<lambda>elements. bind (subpath elements 0) (\<lambda>alternationPath.
     bind (evaluateAlternation input alternationPath) (\<lambda>a.
       Inr \<lparr>Name = rulename, rule_alternation = a\<rparr>))))"

text \<open>The "defined-as" characters between their comments and spaces.\<close>

definition defined_as_path :: "path \<Rightarrow> evaluate_error + path" where
  "defined_as_path definedAsPath =
     (case Subpaths definedAsPath of
        [p] \<Rightarrow> Inr p
      | [p, q] \<Rightarrow> bind (subpath p 0) (\<lambda>r. Inr (if Subpaths r = [] then p else q))
      | _ \<Rightarrow> subpath definedAsPath 1)"

definition add_rule :: "bytes \<Rightarrow> rule \<Rightarrow> grammar \<Rightarrow> evaluate_error + grammar" where
  "add_rule defined_as r g =
     (let lowerName = ToLower (Name r)
      in if defined_as = str ''='' then
           if Rulemap g lowerName \<noteq> None then Inl (DuplicatedRuleError (Name r))
           else Inr \<lparr>Rules = Rules g @ [r], Rulemap = (Rulemap g)(lowerName \<mapsto> length (Rules g))\<rparr>
         else if defined_as = str ''=/'' then
           (case Rulemap g lowerName of
              None \<Rightarrow> Inl (RuleNotFoundError (Name r))
            | Some i \<Rightarrow>
                let existingRule = Rules g ! i;
                    a = Alternation (Concatenations (rule_alternation existingRule) @ Concatenations (rule_alternation r))
                in Inr (g\<lparr>Rules := (Rules g)[i := existingRule\<lparr>rule_alternation := a\<rparr>]\<rparr>))
         else Inr g)"

definition evaluate_line :: "bytes \<Rightarrow> path \<Rightarrow> grammar \<Rightarrow> evaluate_error + grammar" where
  "evaluate_line input p g =
     (if MatchRule p = str ruleNameRule then
        bind (evaluateRule input p) (\<lambda>r.
          if map_of coreRules (ToLower (Name r)) \<noteq> None then Inl (CoreRuleModificationError (Name r))
          else
            bind (subpath p 1) (\<lambda>definedAsPath. bind (defined_as_path definedAsPath) (\<lambda>q.
            bind (substring input (Start q) (End q)) (\<lambda>s. add_rule (TrimSpace s) r g))))
      else Inr g)"

text \<open>The first line is a subpath of the list itself, the others are the first subpath of one.\<close>

fun evaluate_lines :: "bytes \<Rightarrow> path \<Rightarrow> path list \<Rightarrow> grammar \<Rightarrow> evaluate_error + grammar" where
  "evaluate_lines input p rest g =
     bind (evaluate_line input p g) (\<lambda>g.
       case rest of
         [] \<Rightarrow> Inr g
       | q # rest \<Rightarrow> bind (subpath q 0) (\<lambda>p. evaluate_lines input p rest g))"

declare evaluate_lines.simps [simp del]

definition evaluateGrammar :: "bytes \<Rightarrow> path \<Rightarrow> evaluate_error + grammar" where
  "evaluateGrammar input p =
     bind (subpath p 0) (\<lambda>listPath. bind (subpath listPath 0) (\<lambda>q.
       evaluate_lines input q (drop 1 (Subpaths listPath)) \<lparr>Rules = [], Rulemap = Map.empty\<rparr>))"

datatype parse_error =
    Parse_Error bytes
  | ErrNoSolutionFound
  | MultipleSolutionsFoundError "path list"
  | Evaluate_Error evaluate_error
  | Validate_Error abnf_error

definition ParseABNFWithPath :: "nat \<Rightarrow> bytes \<Rightarrow> stop + (parse_error + grammar \<times> path)" where
  "ParseABNFWithPath fuel input =
     bind (Parse fuel input abnfGrammar (str ruleNameRulelist)) (\<lambda>solutions.
       case solutions of
         None \<Rightarrow> Inr (Inl (Parse_Error (str ruleNameRulelist)))
       | Some [] \<Rightarrow> Inr (Inl ErrNoSolutionFound)
       | Some [p] \<Rightarrow>
           (case evaluateGrammar input p of
              Inl e \<Rightarrow> if e = Evaluate_Panic then Inl Panic else Inr (Inl (Evaluate_Error e))
            | Inr g \<Rightarrow>
                (case validateGrammar g of
                   Some e \<Rightarrow> Inr (Inl (Validate_Error e))
                 | None \<Rightarrow> Inr (Inr (g, p))))
       | Some paths \<Rightarrow> Inr (Inl (MultipleSolutionsFoundError paths)))"

definition ParseABNF :: "nat \<Rightarrow> bytes \<Rightarrow> stop + (parse_error + grammar)" where
  "ParseABNF fuel input =
     bind (ParseABNFWithPath fuel input) (\<lambda>r. Inr (map_sum id fst r))"

end
