(* ===== verification/Abnf_Shapes.thy ===== *)
theory Abnf_Shapes
  imports Abnf_Trees Abnf_Evaluate
begin

text \<open>
  The paths of the rules of ABNF: for each rule that the evaluation reads, which subpaths a tree of
  it has.
\<close>

section \<open>Spans\<close>

abbreviation abnf_tree :: "bytes \<Rightarrow> element \<Rightarrow> path \<Rightarrow> bool" where
  "abnf_tree input \<equiv> tree abnfGrammar input"

definition within :: "bytes \<Rightarrow> path \<Rightarrow> bool" where
  "within input p \<longleftrightarrow> Start p < End p \<and> End p \<le> length input"

lemma tree_within:
  assumes "abnf_tree input e p" "consuming abnf_consuming e"
  shows "within input p"
proof -
  have r: "reads abnfGrammar input e p" using assms(1) by (rule tree_reads)
  then have "slice input (Start p) (End p) \<noteq> []"
    using consuming_derives [OF abnf_rules_checked _ assms(2)] by (auto simp: reads_def)
  with r show ?thesis by (auto simp: within_def reads_def slice_Nil intro: le_neq_implies_less)
qed

lemma within_many:
  assumes "many P p" "\<And>q. P q \<Longrightarrow> within input q"
  shows "within input p"
proof -
  have "Start q < End (last (q # qs)) \<and> End (last (q # qs)) \<le> length input"
    if "within input q" "list_all (within input) qs" "chained (q # qs)" for q qs
    using that
  proof (induction qs arbitrary: q)
    case (Cons x xs)
    then have "Start x < End (last (x # xs)) \<and> End (last (x # xs)) \<le> length input"
      by (intro Cons.IH) (simp_all add: chained_def)
    then show ?case using Cons.prems by (simp add: within_def chained_def)
  qed (simp add: within_def)
  then show ?thesis using assms by (fastforce simp: many_def within_def list_all_iff)
qed

section \<open>The parts of a path\<close>

text \<open>The subpaths of a path of some alternatives, each of which consumes input.\<close>

definition parts :: "bytes \<Rightarrow> concatenation list \<Rightarrow> path list \<Rightarrow> bool" where
  "parts input cs qs \<longleftrightarrow> (\<exists>c \<in> set cs. \<exists>ps. list_all2 (rep_tree (abnf_tree input)) (Repetitions c) ps \<and> qs = consumed ps)"

lemma rep_consuming:
  assumes "rep_tree (abnf_tree input) r p" "consuming_rep abnf_consuming r"
  shows "within input p"
  using assms within_many [of "abnf_tree input (Element r)" p input]
  by (cases r) (auto simp: rep_tree_def tree_within)

lemma consumed_within: "p \<in> set ps \<Longrightarrow> within input p \<Longrightarrow> consumed ps \<noteq> []"
  by (force simp: consumed_def within_def filter_empty_conv)

lemma alt_tree_parts:
  assumes "alt_tree (abnf_tree input) (alt cs) p" "consuming_alt abnf_consuming (alt cs)"
  shows "parts input cs (Subpaths p) \<and> Subpaths p \<noteq> [] \<and> MatchRule p = []"
proof -
  obtain c ps where c: "c \<in> set cs" "list_all2 (rep_tree (abnf_tree input)) (Repetitions c) ps" "p = joined ps"
    using assms(1) by (auto simp: alt_tree_def alt_def)
  have "consuming_cat abnf_consuming c" using assms(2) c(1) by (simp add: alt_def)
  from this obtain r where r: "r \<in> set (Repetitions c)" "consuming_rep abnf_consuming r"
    by (cases "(abnf_consuming, c)" rule: consuming_cat.cases) auto
  then obtain q where "q \<in> set ps" "rep_tree (abnf_tree input) r q"
    using c(2) by (metis in_set_conv_nth list_all2_conv_all_nth)
  then have "consumed ps \<noteq> []" using rep_consuming r(2) consumed_within by blast
  then show ?thesis using c by (auto simp: parts_def joined_def)
qed

lemma grp_parts:
  assumes "abnf_tree input (grp cs) p" "consuming_alt abnf_consuming (alt cs)"
  shows "parts input cs (Subpaths p) \<and> Subpaths p \<noteq> [] \<and> MatchRule p = []"
  using alt_tree_parts [OF _ assms(2)] assms(1) by (auto simp: grp_def tree_group)

lemma rule_parts:
  assumes "abnf_tree input (ref n) p" "getRule (str n) abnfGrammar = Some (newRule n cs)"
    "consuming_alt abnf_consuming (alt cs)"
  shows "parts input cs (Subpaths p) \<and> Subpaths p \<noteq> [] \<and> MatchRule p = str n"
  using assms(1,2) alt_tree_parts [OF _ assms(3)]
  by (force simp: ref_def newRule_def stamp_def elim: tree_rulenameE)

lemma opt_grp:
  "abnf_tree input (opt cs) p \<Longrightarrow> p = empty_at (Start p) \<or> abnf_tree input (grp cs) p"
  by (auto simp: opt_def grp_def tree_option rep_tree_def)

text \<open>What a repetition contributes.\<close>

definition part :: "path \<Rightarrow> path list" where
  "part p = (if Start p \<noteq> End p then [p] else [])"

lemma part_simps:
  "within input p \<Longrightarrow> part p = [p]"
  "p = empty_at (Start p) \<Longrightarrow> part p = []"
  by (simp_all add: part_def within_def) (metis empty_at_def path.sel(4))

lemma consumed_part: "consumed [] = []" "consumed (p # ps) = part p @ consumed ps"
  by (simp_all add: consumed_def part_def)

lemma parts_simps:
  "parts input [] qs \<longleftrightarrow> False"
  "parts input (cat rs # cs) qs \<longleftrightarrow>
     (\<exists>ps. list_all2 (rep_tree (abnf_tree input)) rs ps \<and> qs = consumed ps) \<or> parts input cs qs"
  by (auto simp: parts_def cat_def)

definition some :: "bytes \<Rightarrow> element \<Rightarrow> path \<Rightarrow> bool" where
  "some input e p \<longleftrightarrow> within input p \<and> (abnf_tree input e p \<or> many (abnf_tree input e) p)"

lemma part_some: "some input e p \<Longrightarrow> part p = [p]"
  by (auto simp: some_def part_simps)

lemma some_within: "some input e p \<Longrightarrow> within input p"
  by (simp add: some_def)

lemma rep_one:
  "consuming abnf_consuming e \<Longrightarrow>
   rep_tree (abnf_tree input) (one e) p \<longleftrightarrow> within input p \<and> abnf_tree input e p"
  using tree_within by (auto simp: rep_tree_def one_def rep_def)

lemma rep_star:
  "consuming abnf_consuming e \<Longrightarrow>
   rep_tree (abnf_tree input) (rep 0 Inf e) p \<Longrightarrow> list_all (some input e) (part p)"
  using tree_within within_many [of "abnf_tree input e" p input] part_simps(2) [of p]
  by (auto simp: rep_tree_def rep_def some_def Inf_def part_def split: if_splits)

lemma rep_plus:
  "consuming abnf_consuming e \<Longrightarrow> rep_tree (abnf_tree input) (rep 1 Inf e) p \<longleftrightarrow> some input e p"
  using tree_within within_many [of "abnf_tree input e" p input] by (auto simp: rep_tree_def rep_def some_def Inf_def)

lemma rep_opt:
  "consuming abnf_consuming (grp cs) \<Longrightarrow> rep_tree (abnf_tree input) (one (opt cs)) p \<Longrightarrow>
   list_all (\<lambda>p. within input p \<and> abnf_tree input (grp cs) p) (part p)"
  using tree_within [of input "grp cs" p] opt_grp [of input cs p] part_simps(2) [of p]
  by (auto simp: rep_tree_def one_def rep_def part_def split: if_splits)

section \<open>The rules\<close>

lemma rulemap_lookup:
  "i < length rs \<Longrightarrow> distinct (map (\<lambda>r. ToLower (Name r)) rs) \<Longrightarrow>
   foldl (\<lambda>m (i, r). m(ToLower (Name r) \<mapsto> i)) m (List.enumerate n rs) (ToLower (Name (rs ! i))) = Some (n + i)"
proof (induction rs arbitrary: m n i)
  case (Cons r rs)
  show ?case
  proof (cases i)
    case 0
    have "foldl (\<lambda>m (i, r). m(ToLower (Name r) \<mapsto> i)) m (List.enumerate n rs) k = m k"
      if "k \<notin> (\<lambda>r. ToLower (Name r)) ` set rs" for m n k using that
      by (induction rs arbitrary: m n) auto
    from this [of "ToLower (Name r)" "m(ToLower (Name r) \<mapsto> n)" "Suc n"]
    show ?thesis using Cons.prems(2) 0 by (simp del: fun_upd_apply) simp
  next
    case (Suc j)
    then show ?thesis using Cons.IH [of j _ "Suc n"] Cons.prems by simp
  qed
qed simp

lemma getRule_nth:
  assumes "i < length rs" "distinct (map (\<lambda>r. ToLower (Name r)) rs)" "ToLower name = ToLower (Name (rs ! i))"
  shows "getRule name (newGrammar rs) = Some (rs ! i)"
  using rulemap_lookup [OF assms(1,2), of Map.empty 0] by (simp add: getRule_def newGrammar_def assms(3))

lemma abnf_Rules:
  "Rules abnfGrammar =
     [abnfRulelist, abnfRule, abnfRulename, abnfDefinedAs, abnfElements, abnfCWsp, abnfCNl,
      abnfComment, abnfAlternation, abnfConcatenation, abnfRepetition, abnfRepeat, abnfElement,
      abnfGroup, abnfOption, abnfCharVal, abnfCaseInsensitiveString, abnfCaseSensitiveString,
      abnfQuotedString, abnfNumVal, abnfBinVal, abnfDecVal, abnfHexVal, abnfProseVal]"
  by (simp add: abnfGrammar_def newGrammar_def)

lemma abnf_lower_names:
  "map (\<lambda>r. ToLower (Name r)) (Rules abnfGrammar) = map str
     [''rulelist'', ''rule'', ''rulename'', ''defined-as'', ''elements'', ''c-wsp'',
      ''c-nl'', ''comment'', ''alternation'', ''concatenation'', ''repetition'', ''repeat'',
      ''element'', ''group'', ''option'', ''char-val'', ''case-insensitive-string'', ''case-sensitive-string'',
      ''quoted-string'', ''num-val'', ''bin-val'', ''dec-val'', ''hex-val'', ''prose-val'']"
  by (simp add: abnf_Rules abnf_rule_defs newRule_def ToLower_def ruleName_defs ascii_lower_def upper_byte_def)

lemma abnf_names: "distinct (map (\<lambda>r. ToLower (Name r)) (Rules abnfGrammar))"
  by (simp add: abnf_lower_names)

lemma getRule_abnf:
  assumes "i < 24" "Name (Rules abnfGrammar ! i) = str n"
  shows "getRule (str n) abnfGrammar = Some (Rules abnfGrammar ! i)"
  using getRule_nth [of i "Rules abnfGrammar" "str n"] assms abnf_names
  by (simp add: abnf_Rules abnfGrammar_def newGrammar_def)

lemma abnf_getRule:
  "getRule (str ruleNameRulelist) abnfGrammar = Some abnfRulelist"
  "getRule (str ruleNameRule) abnfGrammar = Some abnfRule"
  "getRule (str ruleNameRulename) abnfGrammar = Some abnfRulename"
  "getRule (str ruleNameDefinedAs) abnfGrammar = Some abnfDefinedAs"
  "getRule (str ruleNameElements) abnfGrammar = Some abnfElements"
  "getRule (str ruleNameCWsp) abnfGrammar = Some abnfCWsp"
  "getRule (str ruleNameCNl) abnfGrammar = Some abnfCNl"
  "getRule (str ruleNameComment) abnfGrammar = Some abnfComment"
  "getRule (str ruleNameAlternation) abnfGrammar = Some abnfAlternation"
  "getRule (str ruleNameConcatenation) abnfGrammar = Some abnfConcatenation"
  "getRule (str ruleNameRepetition) abnfGrammar = Some abnfRepetition"
  "getRule (str ruleNameRepeat) abnfGrammar = Some abnfRepeat"
  "getRule (str ruleNameElement) abnfGrammar = Some abnfElement"
  "getRule (str ruleNameGroup) abnfGrammar = Some abnfGroup"
  "getRule (str ruleNameOption) abnfGrammar = Some abnfOption"
  "getRule (str ruleNameCharVal) abnfGrammar = Some abnfCharVal"
  "getRule (str ruleNameCaseInsensitiveString) abnfGrammar = Some abnfCaseInsensitiveString"
  "getRule (str ruleNameCaseSensitiveString) abnfGrammar = Some abnfCaseSensitiveString"
  "getRule (str ruleNameQuotedString) abnfGrammar = Some abnfQuotedString"
  "getRule (str ruleNameNumVal) abnfGrammar = Some abnfNumVal"
  "getRule (str ruleNameBinVal) abnfGrammar = Some abnfBinVal"
  "getRule (str ruleNameDecVal) abnfGrammar = Some abnfDecVal"
  "getRule (str ruleNameHexVal) abnfGrammar = Some abnfHexVal"
  "getRule (str ruleNameProseVal) abnfGrammar = Some abnfProseVal"
  using getRule_abnf [of 0 ruleNameRulelist] getRule_abnf [of 1 ruleNameRule] getRule_abnf [of 2
    ruleNameRulename] getRule_abnf [of 3 ruleNameDefinedAs] getRule_abnf [of 4 ruleNameElements]
    getRule_abnf [of 5 ruleNameCWsp] getRule_abnf [of 6 ruleNameCNl] getRule_abnf [of 7
    ruleNameComment] getRule_abnf [of 8 ruleNameAlternation] getRule_abnf [of 9
    ruleNameConcatenation] getRule_abnf [of 10 ruleNameRepetition] getRule_abnf [of 11
    ruleNameRepeat] getRule_abnf [of 12 ruleNameElement] getRule_abnf [of 13 ruleNameGroup]
    getRule_abnf [of 14 ruleNameOption] getRule_abnf [of 15 ruleNameCharVal] getRule_abnf [of 16
    ruleNameCaseInsensitiveString] getRule_abnf [of 17 ruleNameCaseSensitiveString] getRule_abnf
    [of 18 ruleNameQuotedString] getRule_abnf [of 19 ruleNameNumVal] getRule_abnf [of 20
    ruleNameBinVal] getRule_abnf [of 21 ruleNameDecVal] getRule_abnf [of 22 ruleNameHexVal]
    getRule_abnf [of 23 ruleNameProseVal]
  by (simp_all add: abnf_Rules abnf_rule_defs newRule_def)

lemma getRule_core:
  assumes "ToLower (str n) \<notin> set (map (\<lambda>r. ToLower (Name r)) (Rules abnfGrammar))"
  shows "getRule (str n) abnfGrammar = map_of coreRules (ToLower (str n))"
proof -
  have "Rulemap abnfGrammar (ToLower (str n)) = None"
  proof (rule ccontr)
    assume "Rulemap abnfGrammar (ToLower (str n)) \<noteq> None"
    then obtain i where "Rulemap abnfGrammar (ToLower (str n)) = Some i" by blast
    then have "i < length (Rules abnfGrammar)" "ToLower (Name (Rules abnfGrammar ! i)) = ToLower (str n)"
      using rulemap_entries [of Map.empty 0 "Rules abnfGrammar" "ToLower (str n)" i]
      by (simp_all add: abnfGrammar_def newGrammar_def)
    then show False using assms by (metis image_eqI nth_mem set_map)
  qed
  then show ?thesis by (simp add: getRule_def)
qed

lemma core_getRule:
  "getRule (str ruleNameAlpha) abnfGrammar = Some core_alpha"
  "getRule (str ruleNameDigit) abnfGrammar = Some core_digit"
  "getRule (str ruleNameBit) abnfGrammar = Some core_bit"
  "getRule (str ruleNameChar) abnfGrammar = Some core_char"
  "getRule (str ruleNameCr) abnfGrammar = Some core_cr"
  "getRule (str ruleNameLf) abnfGrammar = Some core_lf"
  "getRule (str ruleNameCrlf) abnfGrammar = Some core_crlf"
  "getRule (str ruleNameCtl) abnfGrammar = Some core_ctl"
  "getRule (str ruleNameDquote) abnfGrammar = Some core_dquote"
  "getRule (str ruleNameHexdig) abnfGrammar = Some core_hexdig"
  "getRule (str ruleNameSp) abnfGrammar = Some core_sp"
  "getRule (str ruleNameHtab) abnfGrammar = Some core_htab"
  "getRule (str ruleNameLwsp) abnfGrammar = Some core_lwsp"
  "getRule (str ruleNameOctet) abnfGrammar = Some core_octet"
  "getRule (str ruleNameWsp) abnfGrammar = Some core_wsp"
  "getRule (str ruleNameVchar) abnfGrammar = Some core_vchar"
  by (rule trans [OF getRule_core], unfold abnf_lower_names,
    simp add: ToLower_def ruleName_defs ascii_lower_def upper_byte_def,
    simp add: ToLower_def ruleName_defs ascii_lower_def upper_byte_def coreRules_def)+

lemma consuming_ref [simp]:
  "consuming abnf_consuming (ref ruleNameRule)"
  "consuming abnf_consuming (ref ruleNameRulename)"
  "consuming abnf_consuming (ref ruleNameDefinedAs)"
  "consuming abnf_consuming (ref ruleNameElements)"
  "consuming abnf_consuming (ref ruleNameCWsp)"
  "consuming abnf_consuming (ref ruleNameCNl)"
  "consuming abnf_consuming (ref ruleNameAlternation)"
  "consuming abnf_consuming (ref ruleNameConcatenation)"
  "consuming abnf_consuming (ref ruleNameRepetition)"
  "consuming abnf_consuming (ref ruleNameRepeat)"
  "consuming abnf_consuming (ref ruleNameElement)"
  "consuming abnf_consuming (ref ruleNameGroup)"
  "consuming abnf_consuming (ref ruleNameOption)"
  "consuming abnf_consuming (ref ruleNameCharVal)"
  "consuming abnf_consuming (ref ruleNameCaseInsensitiveString)"
  "consuming abnf_consuming (ref ruleNameCaseSensitiveString)"
  "consuming abnf_consuming (ref ruleNameQuotedString)"
  "consuming abnf_consuming (ref ruleNameNumVal)"
  "consuming abnf_consuming (ref ruleNameBinVal)"
  "consuming abnf_consuming (ref ruleNameDecVal)"
  "consuming abnf_consuming (ref ruleNameHexVal)"
  "consuming abnf_consuming (ref ruleNameProseVal)"
  "consuming abnf_consuming (ref ruleNameWsp)"
  "consuming abnf_consuming (ref ruleNameDigit)"
  "consuming abnf_consuming (ref ruleNameBit)"
  "consuming abnf_consuming (ref ruleNameHexdig)"
  "consuming abnf_consuming (ref ruleNameDquote)"
  by (simp_all add: ref_def rule_facts)

lemma consuming_builders [simp]:
  "consuming K (str_val s) \<longleftrightarrow> s \<noteq> []"
  "consuming K (grp cs) \<longleftrightarrow> consuming_alt K (alt cs)"
  "consuming K (opt cs) \<longleftrightarrow> False"
  "consuming_alt K (alt []) \<longleftrightarrow> True"
  "consuming_alt K (alt (cat rs # cs)) \<longleftrightarrow> list_ex (consuming_rep K) rs \<and> consuming_alt K (alt cs)"
  "consuming_rep K (one e) \<longleftrightarrow> consuming K e"
  "consuming_rep K (rep mn mx e) \<longleftrightarrow> mn > 0 \<and> consuming K e"
  by (auto simp: builder_defs list_ex_iff)

lemmas shape_simps = parts_simps list_all2_Cons1 consumed_part rep_one rep_plus

lemma rule_shape:
  assumes "abnf_tree input (ref ruleNameRule) p"
  shows "\<exists>n d e c. Subpaths p = [n, d, e, c] \<and> within input n \<and> abnf_tree input (ref ruleNameDefinedAs) d \<and>
    abnf_tree input (ref ruleNameElements) e \<and> MatchRule p = str ruleNameRule"
  using rule_parts [OF assms abnf_getRule(2) [unfolded abnfRule_def]] by (auto simp: shape_simps part_simps)

lemma not_fold [simp]:
  "\<not> EqualFold [] (str ruleNameConcatenation)" "\<not> EqualFold [] (str ruleNameRepetition)"
  "\<not> EqualFold [] (str ruleNameAlternation)" "\<not> EqualFold [] (str ruleNameQuotedString)"
  "\<not> EqualFold (str ruleNameCWsp) (str ruleNameConcatenation)"
  "\<not> EqualFold (str ruleNameCWsp) (str ruleNameRepetition)"
  "\<not> EqualFold (str ruleNameCWsp) (str ruleNameAlternation)"
  by (simp_all add: EqualFold_def ToLower_def ruleName_defs ascii_lower_def upper_byte_def)

lemma EqualFold_refl [simp]: "EqualFold s s"
  by (simp add: EqualFold_def)

lemma many_rule: "many P p \<Longrightarrow> MatchRule p = [] \<and> Subpaths p \<noteq> []"
  by (auto simp: many_def)

lemma char_rule: "abnf_tree input (str_val s) p \<Longrightarrow> MatchRule p = [] \<and> End p - Start p = length s"
  by (auto simp: str_val_def leaf_def reads_def length_slice elim!: tree_charE derives_charE
    dest!: list_all2_lengthD)

lemma ref_rule: "abnf_tree input (ref n) p \<Longrightarrow> MatchRule p = str n"
  by (auto simp: ref_def stamp_def elim: tree_rulenameE)

lemma grp_rule: "abnf_tree input (grp cs) p \<Longrightarrow> MatchRule p = []"
  by (auto simp: grp_def tree_group alt_tree_def joined_def)

lemma some_rule:
  "some input (ref n) p \<Longrightarrow> MatchRule p = str n \<or> MatchRule p = []"
  "some input (grp cs) p \<Longrightarrow> MatchRule p = []"
  by (auto simp: some_def dest: ref_rule grp_rule many_rule)

lemma some_not_fold:
  assumes "list_all (some input (ref n)) ps" "\<not> EqualFold (str n) name" "\<not> EqualFold [] name"
  shows "list_all (\<lambda>y. \<not> EqualFold (MatchRule y) name) ps"
  using assms some_rule(1) by (fastforce simp: list_all_iff)

text \<open>A rule whose alternatives are lists of an item, with what comes between them.\<close>

definition item_after :: "bytes \<Rightarrow> element \<Rightarrow> bytes \<Rightarrow> path \<Rightarrow> bool" where
  "item_after input e name p \<longleftrightarrow>
     (\<exists>pre x. Subpaths p = pre @ [x] \<and> pre \<noteq> [] \<and> list_all (\<lambda>y. \<not> EqualFold (MatchRule y) name) pre \<and> abnf_tree input e x)"

definition listed :: "bytes \<Rightarrow> element \<Rightarrow> bytes \<Rightarrow> path \<Rightarrow> bool" where
  "listed input e name p \<longleftrightarrow>
     (\<exists>x. abnf_tree input e x \<and>
       (Subpaths p = [x] \<or>
        (\<exists>q f fs. Subpaths p = [x, q] \<and> item_after input e name f \<and> list_all (item_after input e name) fs \<and>
          Subpaths q = Subpaths f @ fs)))"

lemma listed_rule:
  assumes "abnf_tree input (ref n) p" "getRule (str n) abnfGrammar = Some (newRule n [cat [one e, rep 0 Inf (grp cs)]])"
    and c: "consuming abnf_consuming e" "consuming abnf_consuming (grp cs)"
    and item: "\<And>f. abnf_tree input (grp cs) f \<Longrightarrow> item_after input e name f"
  shows "listed input e name p"
proof -
  obtain x q where x: "abnf_tree input e x" "Subpaths p = x # part q" and
    q: "list_all (some input (grp cs)) (part q)"
    using rule_parts [OF assms(1,2)] c by (auto simp: shape_simps part_simps dest!: rep_star [rotated])
  show ?thesis
  proof (cases "part q = []")
    case True
    then show ?thesis using x by (auto simp: listed_def)
  next
    case False
    then have "part q = [q]" "some input (grp cs) q" using q by (auto simp: part_def split: if_splits)
    then consider "abnf_tree input (grp cs) q" | "many (abnf_tree input (grp cs)) q" by (auto simp: some_def)
    then show ?thesis
    proof cases
      case 1
      then show ?thesis using x item \<open>part q = [q]\<close> unfolding listed_def
        by (intro exI [of _ x] conjI disjI2 exI [of _ q] exI [of _ "[]"]) simp_all
    next
      case 2
      then obtain f fs where "abnf_tree input (grp cs) f" "list_all (abnf_tree input (grp cs)) fs" "Subpaths q = Subpaths f @ fs"
        by (auto simp: many_def)
      then show ?thesis using x item \<open>part q = [q]\<close> unfolding listed_def
        by (intro exI [of _ x] conjI disjI2 exI [of _ q] exI [of _ f] exI [of _ fs]) (auto simp: list_all_iff)
    qed
  qed
qed

lemma alternation_shape:
  assumes "abnf_tree input (ref ruleNameAlternation) p"
  shows "listed input (ref ruleNameConcatenation) (str ruleNameConcatenation) p"
proof -
  let ?g = "[cat [rep 0 Inf (ref ruleNameCWsp), one (str_val ''/''), rep 0 Inf (ref ruleNameCWsp),
    one (ref ruleNameConcatenation)]]"
  have g: "item_after input (ref ruleNameConcatenation) (str ruleNameConcatenation) f"
    if f: "abnf_tree input (grp ?g) f" for f
  proof -
    obtain u v w x where "list_all (some input (ref ruleNameCWsp)) (part u)" "abnf_tree input (str_val ''/'') v"
      "list_all (some input (ref ruleNameCWsp)) (part w)" "abnf_tree input (ref ruleNameConcatenation) x"
      "Subpaths f = part u @ v # part w @ [x]"
      using grp_parts [OF f] by (auto simp: shape_simps part_simps dest!: rep_star [rotated])
    then show ?thesis unfolding item_after_def
      by (intro exI [of _ "part u @ v # part w"] exI [of _ x]) (auto simp: some_not_fold dest: char_rule)
  qed
  show ?thesis by (rule listed_rule [OF assms abnf_getRule(9) [unfolded abnfAlternation_def] _ _ g]) simp_all
qed

lemma concatenation_shape:
  assumes "abnf_tree input (ref ruleNameConcatenation) p"
  shows "listed input (ref ruleNameRepetition) (str ruleNameRepetition) p"
proof -
  let ?g = "[cat [rep 1 Inf (ref ruleNameCWsp), one (ref ruleNameRepetition)]]"
  have g: "item_after input (ref ruleNameRepetition) (str ruleNameRepetition) f"
    if f: "abnf_tree input (grp ?g) f" for f
  proof -
    obtain u x where "some input (ref ruleNameCWsp) u" "within input u" "abnf_tree input (ref ruleNameRepetition) x"
      "Subpaths f = [u, x]"
      using grp_parts [OF f] by (auto simp: shape_simps part_simps part_some some_within)
    then show ?thesis unfolding item_after_def
      by (intro exI [of _ "[u]"] exI [of _ x]) (auto dest: some_rule)
  qed
  show ?thesis by (rule listed_rule [OF assms abnf_getRule(10) [unfolded abnfConcatenation_def] _ _ g]) simp_all
qed

section \<open>Repeats\<close>

definition repeat_byte :: "byte \<Rightarrow> bool" where
  "repeat_byte b \<longleftrightarrow> digit_byte b \<or> b = ch CHR ''*'' \<or> b = ch CHR ''#''"

lemma copies_all: "copies L k w \<Longrightarrow> (\<And>u. L u \<Longrightarrow> list_all P u) \<Longrightarrow> list_all P w"
  by (induction k arbitrary: w) auto

lemma alt_lang_all:
  assumes "alt_lang L (alt cs) w"
    and "list_all (\<lambda>c. list_all (\<lambda>r. \<forall>u. L (Element r) u \<longrightarrow> list_all P u) (Repetitions c)) cs"
  shows "list_all P w"
proof -
  have "seq_lang L rs v \<Longrightarrow> list_all (\<lambda>r. \<forall>u. L (Element r) u \<longrightarrow> list_all P u) rs \<Longrightarrow> list_all P v" for rs v
  proof (induction rs arbitrary: v)
    case (Cons r rs)
    then obtain k x y where "v = x @ y" "copies (L (Element r)) k x" "seq_lang L rs y" by (auto simp: rep_lang_def)
    then show ?case using Cons copies_all [of "L (Element r)" k x P] by simp
  qed simp
  then show ?thesis using assms by (auto simp: alt_lang_def alt_def list_all_iff)
qed

lemma digit_text:
  assumes "derives abnfGrammar (ref ruleNameDigit) w"
  shows "list_all repeat_byte w"
proof -
  have v: "ParseNumVal (str ''30'') (str ''x'') = Some 0x30" "ParseNumVal (str ''39'') (str ''x'') = Some 0x39"
    by (simp_all add: ParseNumVal_def ParseUint32_def digit_of_def digit_byte_def MaxRune_def)
  have "list_all repeat_byte u" if u: "derives abnfGrammar (numRange ''x'' ''30'' ''39'') u" for u
  proof -
    obtain r where "0x30 \<le> r" "r \<le> 0x39" "u = encode_rune r"
      using u v unfolding numRange_def by (auto elim!: derives_rangeE)
    then show ?thesis
      by (auto simp: encode_rune_def encode_nats_def repeat_byte_def digit_byte_def word_le_nat_alt unat_of_nat)
  qed
  moreover have "alt_lang (derives abnfGrammar) (alt [cat [one (numRange ''x'' ''30'' ''39'')]]) w"
    using assms core_getRule(2) by (auto simp: ref_def core_digit_def newRule_def elim: derives_rulenameE)
  ultimately show ?thesis by (elim alt_lang_all) (simp add: cat_def one_def rep_def)
qed

lemma repeat_text:
  assumes "derives abnfGrammar (ref ruleNameRepeat) w"
  shows "list_all repeat_byte w"
proof -
  have sep: "list_all repeat_byte u" if "derives abnfGrammar (str_val [c]) u" "c = CHR ''*'' \<or> c = CHR ''#''" for u c
    using that by (auto simp: str_val_def list_all2_Cons2 same_char_def ascii_lower_def upper_byte_def repeat_byte_def
      split: if_splits elim!: derives_charE)
  have grp: "list_all repeat_byte u"
    if "derives abnfGrammar (grp [cat [rep 0 Inf (ref ruleNameDigit), one (str_val [c]), rep 0 Inf (ref ruleNameDigit)]]) u"
      "c = CHR ''*'' \<or> c = CHR ''#''" for u c
  proof -
    have "alt_lang (derives abnfGrammar) (alt [cat [rep 0 Inf (ref ruleNameDigit), one (str_val [c]),
        rep 0 Inf (ref ruleNameDigit)]]) u"
      using that by (auto simp: grp_def elim: derives_groupE)
    then show ?thesis
      by (rule alt_lang_all) (use that(2) in \<open>auto simp: cat_def one_def rep_def digit_text intro: sep\<close>)
  qed
  have "alt_lang (derives abnfGrammar) (rule_alternation abnfRepeat) w"
    using assms abnf_getRule(12) by (auto simp: ref_def elim: derives_rulenameE)
  then show ?thesis unfolding abnfRepeat_def newRule_def rule.simps
    by (elim alt_lang_all) (auto simp: cat_def one_def rep_def digit_text intro: grp)
qed

text \<open>What the evaluation reads of a repeat.\<close>

definition repeat_part :: "bytes \<Rightarrow> path \<Rightarrow> bool" where
  "repeat_part input p \<longleftrightarrow> within input p \<and> list_all repeat_byte (slice input (Start p) (End p))"

lemma repeat_shape:
  assumes "abnf_tree input (ref ruleNameRepeat) p"
  shows "\<exists>hit. Subpaths p = [hit] \<and> repeat_part input hit"
proof -
  obtain q where q: "alt_tree (abnf_tree input) (rule_alternation abnfRepeat) q" "p = stamp (str ruleNameRepeat) q"
    using assms abnf_getRule(12) by (auto simp: ref_def elim: tree_rulenameE)
  then obtain hit where "within input hit" "q = joined [hit]"
    by (auto simp: abnfRepeat_def newRule_def alt_tree_def alt_def cat_def list_all2_Cons1 rep_one rep_plus
      dest: some_within)
  moreover have "list_all repeat_byte (slice input (Start p) (End p))"
    using tree_reads [OF assms] by (simp add: reads_def repeat_text)
  ultimately show ?thesis by (auto simp: q(2) stamp_def joined_def consumed_part part_simps repeat_part_def)
qed

lemma repetition_shape:
  assumes "abnf_tree input (ref ruleNameRepetition) p"
  shows "\<exists>e. abnf_tree input (ref ruleNameElement) e \<and>
    (Subpaths p = [e] \<or>
     (\<exists>q r hit. Subpaths p = [q, e] \<and> Subpaths q = [r] \<and> Subpaths r = [hit] \<and> repeat_part input hit))"
proof -
  obtain q e where e: "abnf_tree input (ref ruleNameElement) e" "Subpaths p = part q @ [e]" and
    q: "list_all (\<lambda>q. within input q \<and> abnf_tree input (grp [cat [one (ref ruleNameRepeat)]]) q) (part q)"
    using rule_parts [OF assms abnf_getRule(11) [unfolded abnfRepetition_def]]
    by (auto simp: shape_simps part_simps dest!: rep_opt [rotated])
  have "\<exists>r. Subpaths q = [r] \<and> abnf_tree input (ref ruleNameRepeat) r"
    if "abnf_tree input (grp [cat [one (ref ruleNameRepeat)]]) q"
    using grp_parts [OF that] by (auto simp: shape_simps part_simps)
  then show ?thesis using e q repeat_shape by (fastforce simp: part_def split: if_splits)
qed

lemma element_shape:
  assumes "abnf_tree input (ref ruleNameElement) p"
  shows "\<exists>x n. Subpaths p = [x] \<and> abnf_tree input (ref n) x \<and> within input x \<and>
    n \<in> {ruleNameRulename, ruleNameGroup, ruleNameOption, ruleNameCharVal, ruleNameNumVal, ruleNameProseVal}"
  using rule_parts [OF assms abnf_getRule(13) [unfolded abnfElement_def]] by (auto simp: shape_simps part_simps)

definition enclosed :: "bytes \<Rightarrow> path \<Rightarrow> bool" where
  "enclosed input p \<longleftrightarrow>
     (\<exists>pre a post. Subpaths p = pre @ a # post \<and> abnf_tree input (ref ruleNameAlternation) a \<and>
       list_all (\<lambda>y. \<not> EqualFold (MatchRule y) (str ruleNameAlternation)) pre)"

lemma enclosed_rule:
  assumes "abnf_tree input (ref n) p" "getRule (str n) abnfGrammar = Some (newRule n [cat [one (str_val l),
      rep 0 Inf (ref ruleNameCWsp), one (ref ruleNameAlternation), rep 0 Inf (ref ruleNameCWsp), one (str_val r)]])"
    "l \<noteq> []" "r \<noteq> []"
  shows "enclosed input p"
proof -
  obtain u v a w x where "abnf_tree input (str_val l) u" "list_all (some input (ref ruleNameCWsp)) (part v)"
    "abnf_tree input (ref ruleNameAlternation) a" "Subpaths p = u # part v @ a # part w @ [x]"
    using rule_parts [OF assms(1,2)] assms(3,4) by (auto simp: shape_simps part_simps dest!: rep_star [rotated])
  then show ?thesis unfolding enclosed_def
    by (intro exI [of _ "u # part v"] exI [of _ a] exI [of _ "part w @ [x]"]) (auto simp: some_not_fold dest: char_rule)
qed

lemma group_shape: "abnf_tree input (ref ruleNameGroup) p \<Longrightarrow> enclosed input p"
  by (rule enclosed_rule [OF _ abnf_getRule(14) [unfolded abnfGroup_def]]) simp_all

lemma option_shape: "abnf_tree input (ref ruleNameOption) p \<Longrightarrow> enclosed input p"
  by (rule enclosed_rule [OF _ abnf_getRule(15) [unfolded abnfOption_def]]) simp_all

section \<open>Literals\<close>

lemma quoted_shape:
  assumes "abnf_tree input (ref ruleNameQuotedString) p"
  shows "\<exists>a b cs. Subpaths p = a # b # cs \<and> within input b"
proof -
  obtain a v b where "Subpaths p = a # part v @ [b]" "within input b"
    "list_all (some input (grp [cat [one (numRange ''x'' ''20'' ''21'')], cat [one (numRange ''x'' ''23'' ''7E'')]])) (part v)"
    using rule_parts [OF assms abnf_getRule(19) [unfolded abnfQuotedString_def]]
    by (auto simp: shape_simps part_simps numRange_def dest!: rep_star [rotated])
  then show ?thesis by (cases "part v") (auto dest: some_within)
qed

definition char_val_parts :: "bytes \<Rightarrow> path \<Rightarrow> bool" where
  "char_val_parts input s \<longleftrightarrow>
     (\<exists>pre q. Subpaths s = pre @ [q] \<and> list_all (\<lambda>y. \<not> EqualFold (MatchRule y) (str ruleNameQuotedString)) pre \<and>
       abnf_tree input (ref ruleNameQuotedString) q)"

lemma char_val_shape:
  assumes "abnf_tree input (ref ruleNameCharVal) p"
  shows "\<exists>s. Subpaths p = [s] \<and> char_val_parts input s"
proof -
  have insensitive: "char_val_parts input s" if s: "abnf_tree input (ref ruleNameCaseInsensitiveString) s" for s
  proof -
    obtain v q where "Subpaths s = part v @ [q]" "abnf_tree input (ref ruleNameQuotedString) q"
      "list_all (\<lambda>p. within input p \<and> abnf_tree input (grp [cat [one (str_val ''%i'')]]) p) (part v)"
      using rule_parts [OF s abnf_getRule(17) [unfolded abnfCaseInsensitiveString_def]]
      by (auto simp: shape_simps part_simps dest!: rep_opt [rotated])
    then show ?thesis unfolding char_val_parts_def
      by (intro exI [of _ "part v"] exI [of _ q]) (fastforce simp: list_all_iff dest: grp_rule)
  qed
  have sensitive: "char_val_parts input s" if s: "abnf_tree input (ref ruleNameCaseSensitiveString) s" for s
  proof -
    obtain v q where "Subpaths s = [v, q]" "abnf_tree input (ref ruleNameQuotedString) q" "abnf_tree input (str_val ''%s'') v"
      using rule_parts [OF s abnf_getRule(18) [unfolded abnfCaseSensitiveString_def]]
      by (auto simp: shape_simps part_simps)
    then show ?thesis unfolding char_val_parts_def
      by (intro exI [of _ "[v]"] exI [of _ q]) (auto dest: char_rule)
  qed
  show ?thesis
    using rule_parts [OF assms abnf_getRule(16) [unfolded abnfCharVal_def]] insensitive sensitive
    by (auto simp: shape_simps part_simps)
qed

definition digits_after :: "bytes \<Rightarrow> path list \<Rightarrow> bool" where
  "digits_after input ps \<longleftrightarrow> (\<exists>s d. ps = [s, d] \<and> within input s \<and> within input d)"

definition num_val_parts :: "bytes \<Rightarrow> path \<Rightarrow> bool" where
  "num_val_parts input p \<longleftrightarrow>
     (\<exists>l d. within input d \<and>
       (Subpaths p = [l, d] \<or>
        (\<exists>q h s v rest. Subpaths p = [l, d, q] \<and> Subpaths q = [h] \<and> Subpaths h = [s, v] @ rest \<and>
          digits_after input [s, v] \<and> list_all (\<lambda>y. digits_after input (Subpaths y)) rest)))"

lemma base_shape:
  assumes "abnf_tree input (ref n) p" "getRule (str n) abnfGrammar = Some (newRule n [cat [one (str_val b), rep 1 Inf d,
      one (opt [cat [rep 1 Inf (grp [cat [one (str_val ''.''), rep 1 Inf d]])],
        cat [one (grp [cat [one (str_val ''-''), rep 1 Inf d]])]])]])"
    and "consuming abnf_consuming d" "b \<noteq> []"
  shows "num_val_parts input p"
proof -
  let ?dot = "[cat [one (str_val ''.''), rep 1 Inf d]]" and ?dash = "[cat [one (str_val ''-''), rep 1 Inf d]]"
  obtain l v q where p: "Subpaths p = [l, v] @ part q" "within input v" and
    q: "list_all (\<lambda>q. abnf_tree input (grp [cat [rep 1 Inf (grp ?dot)], cat [one (grp ?dash)]]) q) (part q)"
    using rule_parts [OF assms(1,2)] assms(3,4)
    by (auto simp: shape_simps part_simps part_some some_within list_all_iff dest!: rep_opt [rotated])
  have after: "digits_after input (Subpaths y)"
    if "abnf_tree input (grp ?dot) y \<or> abnf_tree input (grp ?dash) y" for y
    using that grp_parts [of input ?dot y] grp_parts [of input ?dash y] assms(3) unfolding digits_after_def
    by (auto simp: shape_simps part_simps part_some some_within)
  show ?thesis
  proof (cases "part q = []")
    case True
    then show ?thesis using p by (auto simp: num_val_parts_def)
  next
    case False
    then have q1: "part q = [q]" by (auto simp: part_def split: if_splits)
    then have "abnf_tree input (grp [cat [rep 1 Inf (grp ?dot)], cat [one (grp ?dash)]]) q" using q by simp
    then obtain h where h: "Subpaths q = [h]" "some input (grp ?dot) h \<or> abnf_tree input (grp ?dash) h"
      using grp_parts [of input "[cat [rep 1 Inf (grp ?dot)], cat [one (grp ?dash)]]" q] assms(3)
      by (auto simp: shape_simps part_simps part_some)
    have "\<exists>y rest. Subpaths h = Subpaths y @ rest \<and> digits_after input (Subpaths y) \<and>
      list_all (\<lambda>y. digits_after input (Subpaths y)) rest"
      using h(2)
    proof (elim disjE)
      assume "some input (grp ?dot) h"
      then show ?thesis using after unfolding some_def
      proof (elim conjE disjE)
        assume "many (abnf_tree input (grp ?dot)) h"
        then obtain y ys where "abnf_tree input (grp ?dot) y" "list_all (abnf_tree input (grp ?dot)) ys"
          "Subpaths h = Subpaths y @ ys" by (auto simp: many_def)
        then show ?thesis using after by (auto simp: list_all_iff)
      qed (auto intro!: exI [of _ h])
    qed (auto intro!: exI [of _ h] after)
    then obtain s v' rest where "Subpaths h = [s, v'] @ rest" "digits_after input [s, v']"
      "list_all (\<lambda>y. digits_after input (Subpaths y)) rest" by (auto simp: digits_after_def)
    then show ?thesis using p q1 h(1) unfolding num_val_parts_def
      by (intro exI [of _ l] exI [of _ v] conjI disjI2 exI [of _ q] exI [of _ h] exI [of _ s] exI [of _ v'] exI [of _ rest])
        simp_all
  qed
qed

lemma num_val_shape:
  assumes "abnf_tree input (ref ruleNameNumVal) p"
  shows "\<exists>l g b. Subpaths p = [l, g] \<and> Subpaths g = [b] \<and> num_val_parts input b"
proof -
  let ?cs = "[cat [one (ref ruleNameBinVal)], cat [one (ref ruleNameDecVal)], cat [one (ref ruleNameHexVal)]]"
  obtain l g where lg: "Subpaths p = [l, g]" "abnf_tree input (grp ?cs) g"
    using rule_parts [OF assms abnf_getRule(20) [unfolded abnfNumVal_def]] by (auto simp: shape_simps part_simps)
  then obtain b where "Subpaths g = [b]"
    "abnf_tree input (ref ruleNameBinVal) b \<or> abnf_tree input (ref ruleNameDecVal) b \<or> abnf_tree input (ref ruleNameHexVal) b"
    using grp_parts [OF lg(2)] by (auto simp: shape_simps part_simps)
  moreover have "num_val_parts input b" if "abnf_tree input (ref ruleNameBinVal) b"
    by (rule base_shape [OF that abnf_getRule(21) [unfolded abnfBinVal_def]]) simp_all
  moreover have "num_val_parts input b" if "abnf_tree input (ref ruleNameDecVal) b"
    by (rule base_shape [OF that abnf_getRule(22) [unfolded abnfDecVal_def]]) simp_all
  moreover have "num_val_parts input b" if "abnf_tree input (ref ruleNameHexVal) b"
    by (rule base_shape [OF that abnf_getRule(23) [unfolded abnfHexVal_def]]) simp_all
  ultimately show ?thesis using lg(1) by blast
qed

lemma all_some_within: "list_all (some input e) ps \<Longrightarrow> list_all (within input) ps"
  by (auto simp: list_all_iff some_within)

lemma prose_shape:
  assumes "abnf_tree input (ref ruleNameProseVal) p"
  shows "Start p + 2 \<le> End p"
proof -
  obtain q where q: "alt_tree (abnf_tree input) (rule_alternation abnfProseVal) q" "p = stamp (str ruleNameProseVal) q"
    using assms abnf_getRule(24) by (auto simp: ref_def elim: tree_rulenameE)
  then obtain l v r where l: "abnf_tree input (str_val ''<'') l" and r: "abnf_tree input (str_val ''>'') r"
    and v: "list_all (within input) (part v)" and q': "q = joined [l, v, r]" and ch: "chained [l, v, r]"
    by (auto simp: abnfProseVal_def newRule_def alt_tree_def alt_def cat_def list_all2_Cons1 rep_one numRange_def
      dest!: rep_star [rotated] all_some_within)
  have "End l = Start l + 1" "End r = Start r + 1"
    using char_rule [OF l] char_rule [OF r] tree_within [OF l] tree_within [OF r] by (auto simp: within_def)
  moreover have "Start v \<le> End v" using v by (auto simp: part_def within_def split: if_splits)
  ultimately show ?thesis using ch by (simp add: q(2) q' stamp_def joined_def chained_def)
qed

section \<open>Rules and lines\<close>

lemma elements_shape:
  assumes "abnf_tree input (ref ruleNameElements) p"
  shows "\<exists>a ps. Subpaths p = a # ps \<and> abnf_tree input (ref ruleNameAlternation) a"
  using rule_parts [OF assms abnf_getRule(5) [unfolded abnfElements_def]]
  by (auto simp: shape_simps part_simps)

definition defined_as_parts :: "bytes \<Rightarrow> path list \<Rightarrow> bool" where
  "defined_as_parts input ps \<longleftrightarrow>
     ps \<noteq> [] \<and> length ps \<le> 3 \<and> list_all (\<lambda>p. within input p \<and> Subpaths p \<noteq> []) ps"

lemma defined_as_shape:
  assumes "abnf_tree input (ref ruleNameDefinedAs) p"
  shows "defined_as_parts input (Subpaths p)"
proof -
  let ?g = "[cat [one (str_val ''='')], cat [one (str_val ''=/'')]]"
  obtain u g v where p: "Subpaths p = part u @ g # part v" "within input g" "abnf_tree input (grp ?g) g"
    "list_all (some input (ref ruleNameCWsp)) (part u)" "list_all (some input (ref ruleNameCWsp)) (part v)"
    using rule_parts [OF assms abnf_getRule(4) [unfolded abnfDefinedAs_def]]
    by (auto simp: shape_simps part_simps dest!: rep_star [rotated])
  have "Subpaths y \<noteq> []" if "some input (ref ruleNameCWsp) y" for y
    using that rule_parts [OF _ abnf_getRule(6) [unfolded abnfCWsp_def], of input y]
    by (auto simp: some_def dest: many_rule)
  then show ?thesis using p grp_parts [OF p(3)] unfolding defined_as_parts_def
    by (auto simp: list_all_iff part_def dest: some_within)
qed

text \<open>What is found where a line of the definition is: a rule, or no rule at all.\<close>

definition line :: "bytes \<Rightarrow> path \<Rightarrow> bool" where
  "line input p \<longleftrightarrow> abnf_tree input (ref ruleNameRule) p \<or> MatchRule p = []"

lemma rulelist_shape:
  assumes "abnf_tree input (ref ruleNameRulelist) p"
  shows "\<exists>q l ls. Subpaths p = [q] \<and> Subpaths q = l # ls \<and> line input l \<and>
    list_all (\<lambda>y. \<exists>l. Subpaths y = [l] \<and> line input l) ls"
proof -
  let ?blank = "[cat [rep 0 Inf (ref ruleNameWsp), one (ref ruleNameCNl)]]"
  let ?g = "[cat [one (ref ruleNameRule)], cat [one (grp ?blank)]]"
  obtain q where q: "Subpaths p = [q]" "some input (grp ?g) q"
    using rule_parts [OF assms abnf_getRule(1) [unfolded abnfRulelist_def]]
    by (auto simp: shape_simps part_simps part_some)
  have y: "\<exists>l. Subpaths y = [l] \<and> line input l" if "abnf_tree input (grp ?g) y" for y
    using grp_parts [OF that] by (auto simp: shape_simps part_simps line_def dest: grp_rule)
  from q(2) have "\<exists>l ls. Subpaths q = l # ls \<and> line input l \<and> list_all (\<lambda>y. \<exists>l. Subpaths y = [l] \<and> line input l) ls"
    unfolding some_def
  proof (elim conjE disjE)
    assume "abnf_tree input (grp ?g) q"
    then show ?thesis using y by fastforce
  next
    assume "many (abnf_tree input (grp ?g)) q"
    then obtain x xs where "abnf_tree input (grp ?g) x" "list_all (abnf_tree input (grp ?g)) xs"
      "Subpaths q = Subpaths x @ xs" by (auto simp: many_def)
    then show ?thesis using y [of x] y by (fastforce simp: list_all_iff)
  qed
  then show ?thesis using q(1) by blast
qed

end
