(* ===== verification/Abnf_Evaluated.thy ===== *)
theory Abnf_Evaluated
  imports Abnf_Shapes
begin

text \<open>
  The evaluation of what the parser answers: it neither panics nor meets a path it does not expect,
  and the grammar it builds is well formed: no empty concatenation, no range of fewer than two values,
  no negative count, a list operator only as an unrepeated element, with the expansion of its own
  element, and an index that finds each rule by its name.
\<close>

section \<open>Evaluated grammars\<close>

definition counts :: "int \<Rightarrow> int \<Rightarrow> bool" where
  "counts mn mx \<longleftrightarrow> 0 \<le> mn \<and> (mx = Inf \<or> 0 \<le> mx)"

fun evaluated :: "element \<Rightarrow> bool"
  and evaluated_list :: "element \<Rightarrow> bool"
  and evaluated_alt :: "alternation \<Rightarrow> bool"
  and evaluated_cat :: "concatenation \<Rightarrow> bool"
  and evaluated_rep :: "repetition \<Rightarrow> bool"
where
  "evaluated (RulenameElement name) = True"
| "evaluated (GroupElement a) = evaluated_alt a"
| "evaluated (OptionElement a) = evaluated_alt a"
| "evaluated (CharValElement sensitive v) = True"
| "evaluated (NumValElement base status vs) = (vs \<noteq> [] \<and> (status = NumValStatusRange \<longrightarrow> 2 \<le> length vs))"
| "evaluated (ListElement mn mx e expansion) = False"
| "evaluated (ProseValElement v) = True"
| "evaluated_list (ListElement mn mx e expansion) =
     (counts mn mx \<and> evaluated e \<and> expansion = Some (expandList mn mx e))"
| "evaluated_list e = False"
| "evaluated_alt (Alternation cs) = (cs \<noteq> [] \<and> (\<forall>c \<in> set cs. evaluated_cat c))"
| "evaluated_cat (Concatenation rs) = (rs \<noteq> [] \<and> (\<forall>r \<in> set rs. evaluated_rep r))"
| "evaluated_rep (Repetition mn mx e) = (counts mn mx \<and> (evaluated e \<or> mn = 1 \<and> mx = 1 \<and> evaluated_list e))"

definition evaluated_grammar :: "grammar \<Rightarrow> bool" where
  "evaluated_grammar g \<longleftrightarrow>
     list_all (\<lambda>r. evaluated_alt (rule_alternation r) \<and> map_of coreRules (ToLower (Name r)) = None) (Rules g) \<and>
     (\<forall>key i. Rulemap g key = Some i \<longleftrightarrow> i < length (Rules g) \<and> key = ToLower (Name (Rules g ! i)))"

section \<open>Runs that do not panic\<close>

definition fine :: "evaluate_error + 'a \<Rightarrow> ('a \<Rightarrow> bool) \<Rightarrow> bool" where
  "fine m Q \<longleftrightarrow>
     (case m of Inl e \<Rightarrow> e \<noteq> Evaluate_Panic \<and> e \<noteq> UnexpectedPathStructure | Inr x \<Rightarrow> Q x)"

lemma fine_simps [simp]:
  "fine (Inr x) Q \<longleftrightarrow> Q x"
  "fine (Inl e) Q \<longleftrightarrow> e \<noteq> Evaluate_Panic \<and> e \<noteq> UnexpectedPathStructure"
  by (simp_all add: fine_def)

lemma fine_bind: "fine m P \<Longrightarrow> (\<And>x. m = Inr x \<Longrightarrow> P x \<Longrightarrow> fine (f x) Q) \<Longrightarrow> fine (bind m f) Q"
  by (cases m) auto

lemma fine_traverse:
  "(\<And>x. x \<in> set xs \<Longrightarrow> fine (f x) Q) \<Longrightarrow> fine (traverse f xs) (\<lambda>ys. length ys = length xs \<and> (\<forall>y \<in> set ys. Q y))"
proof (induction xs)
  case (Cons x xs)
  have "fine (f x) Q" by (rule Cons.prems) simp
  moreover have "fine (traverse f xs) (\<lambda>ys. length ys = length xs \<and> (\<forall>y \<in> set ys. Q y))"
    by (rule Cons.IH) (rule Cons.prems, simp)
  ultimately show ?case by (auto intro!: fine_bind)
qed simp

lemma fine_substring: "within input p \<Longrightarrow> fine (substring input (Start p) (End p)) (\<lambda>s. True)"
  by (simp add: within_def substring_def)

lemma subpath_nth [simp]: "subpath p k = Inr q \<longleftrightarrow> k < length (Subpaths p) \<and> Subpaths p ! k = q"
  by (simp add: subpath_def)

lemma subpath_text_eq: "Subpaths p = qs \<Longrightarrow> k < length qs \<Longrightarrow> subpath_text input p k = substring input (Start (qs ! k)) (End (qs ! k))"
  by (simp add: subpath_text_def subpath_def)

lemma index_byte_fine:
  "j \<le> length input \<Longrightarrow> fine (index_byte input b i j) (\<lambda>r. case r of None \<Rightarrow> True | Some k \<Rightarrow> i \<le> k \<and> k < j)"
proof (induction input b i j rule: index_byte.induct)
  case (1 input b i j)
  show ?case
  proof (cases "i < j")
    case True
    then have at: "byte_at input i = Inr (input ! i)" using 1 by (simp add: byte_at_def)
    show ?thesis
    proof (cases "input ! i = b")
      case True
      then show ?thesis using \<open>i < j\<close> at by (subst index_byte.simps) simp
    next
      case False
      have "fine (index_byte input b (i + 1) j) (\<lambda>r. case r of None \<Rightarrow> True | Some k \<Rightarrow> i + 1 \<le> k \<and> k < j)"
        by (rule 1) (use \<open>i < j\<close> False 1 in simp_all)
      then have "fine (index_byte input b (i + 1) j) (\<lambda>r. case r of None \<Rightarrow> True | Some k \<Rightarrow> i \<le> k \<and> k < j)"
        by (auto simp: fine_def split: sum.splits option.splits)
      then show ?thesis using \<open>i < j\<close> at False by (subst index_byte.simps) simp
    qed
  next
    case False
    then show ?thesis by (subst index_byte.simps) simp
  qed
qed

section \<open>Items\<close>

lemma item_index_after:
  assumes "pre \<noteq> []" "list_all (\<lambda>y. \<not> EqualFold (MatchRule y) name) pre" "EqualFold (MatchRule x) name"
  shows "item_index (pre @ x # rest) name 1 = length pre"
proof -
  obtain y ys where "pre = y # ys" using assms(1) by (cases pre) auto
  then show ?thesis using assms(2,3) by (simp add: item_index_def takeWhile_append2 list_all_iff)
qed

lemma items_fine:
  assumes "listed input (ref n) (str n) p"
  shows "fine (listItemPaths p (str n)) (\<lambda>items. items \<noteq> [] \<and> (\<forall>x \<in> set items. abnf_tree input (ref n) x))"
proof -
  obtain x where x: "abnf_tree input (ref n) x" and
    "Subpaths p = [x] \<or> (\<exists>q f fs. Subpaths p = [x, q] \<and> item_after input (ref n) (str n) f \<and>
       list_all (item_after input (ref n) (str n)) fs \<and> Subpaths q = Subpaths f @ fs)"
    using assms by (auto simp: listed_def)
  then consider "Subpaths p = [x]"
    | q f fs where "Subpaths p = [x, q]" "item_after input (ref n) (str n) f"
       "list_all (item_after input (ref n) (str n)) fs" "Subpaths q = Subpaths f @ fs" by blast
  then show ?thesis
  proof cases
    case 1
    then show ?thesis using x by (simp add: listItemPaths_def subpath_def)
  next
    case 2
    obtain pre y where y: "Subpaths f = pre @ [y]" "pre \<noteq> []" "abnf_tree input (ref n) y"
      "list_all (\<lambda>y. \<not> EqualFold (MatchRule y) (str n)) pre" using 2(2) by (auto simp: item_after_def)
    then have i: "item_index (Subpaths q) (str n) 1 = length pre"
      using item_index_after [OF y(2,4)] ref_rule [OF y(3)] 2(4) by simp
    have "fine (last_subpath z) (abnf_tree input (ref n))" if "z \<in> set fs" for z
      using 2(3) that by (fastforce simp: last_subpath_def item_after_def list_all_iff)
    then have "fine (traverse last_subpath fs) (\<lambda>ys. length ys = length fs \<and> (\<forall>y \<in> set ys. abnf_tree input (ref n) y))"
      by (rule fine_traverse)
    then show ?thesis using x y 2(1,4) i
      by (auto simp: listItemPaths_def subpath_def nth_append intro!: fine_bind)
  qed
qed

section \<open>Counts\<close>

lemma repeat_slice:
  assumes "repeat_part input p" "Start p \<le> i" "i \<le> j" "j \<le> End p"
  shows "\<exists>s. substring input i j = Inr s \<and> list_all repeat_byte s"
proof -
  have "take (j - i) (drop i input) = take (j - i) (drop (i - Start p) (slice input (Start p) (End p)))"
    using assms by (simp add: slice_def drop_take min_def)
  moreover have "list_all repeat_byte (take n (drop m (slice input (Start p) (End p))))" for n m
    using assms(1) by (auto simp: repeat_part_def list_all_iff dest!: in_set_takeD in_set_dropD)
  ultimately show ?thesis using assms by (simp add: substring_def repeat_part_def within_def)
qed

lemma Atoi_fine: "list_all repeat_byte s \<Longrightarrow> fine (Atoi s) (\<lambda>n. 0 \<le> n)"
  by (cases s) (auto simp: Atoi_def Let_def has_prefix_def repeat_byte_def digit_byte_def fine_def
    split: option.split)

lemma count_or_fine: "list_all repeat_byte s \<Longrightarrow> fine (count_or absent s) (\<lambda>n. n = absent \<or> 0 \<le> n)"
  using Atoi_fine [of s] by (auto simp: count_or_def fine_def split: sum.split)

lemma slice_fine:
  assumes "repeat_part input p" "Start p \<le> i" "i \<le> j" "j \<le> End p"
  shows "fine (substring input i j) (list_all repeat_byte)"
  using repeat_slice [OF assms] by auto

lemma fine_slice_bind:
  assumes "repeat_part input p" "Start p \<le> i" "i \<le> j" "j \<le> End p" "\<And>s. list_all repeat_byte s \<Longrightarrow> fine (f s) Q"
  shows "fine (bind (substring input i j) f) Q"
  using fine_bind [OF slice_fine [OF assms(1-4)]] assms(5) by blast

lemma fine_count_bind:
  assumes "list_all repeat_byte s" "\<And>n. n = absent \<or> 0 \<le> n \<Longrightarrow> fine (f n) Q"
  shows "fine (bind (count_or absent s) f) Q"
  using fine_bind [OF count_or_fine [OF assms(1)]] assms(2) by blast

lemma around_fine:
  assumes "repeat_part input p" "Start p \<le> i" "i < End p"
  shows "fine (bind (substring input (Start p) i) (\<lambda>s. bind (count_or 0 s) (\<lambda>mn.
    bind (substring input (i + 1) (End p)) (\<lambda>s. bind (count_or Inf s) (\<lambda>mx. Inr (mn, mx))))))
    (\<lambda>(mn, mx). counts mn mx)"
  by (intro fine_slice_bind [OF assms(1)] fine_count_bind) (use assms in \<open>auto simp: counts_def\<close>)

lemma listRepeatCounts_fine:
  "repeat_part input p \<Longrightarrow> Start p \<le> i \<Longrightarrow> i < End p \<Longrightarrow>
   fine (listRepeatCounts input p i) (\<lambda>(mn, mx). counts mn mx)"
  unfolding listRepeatCounts_def by (rule around_fine)

lemma repeatCounts_fine:
  assumes "repeat_part input p"
  shows "fine (repeatCounts input p) (\<lambda>(mn, mx). counts mn mx)"
  unfolding repeatCounts_def
proof (rule fine_bind [OF index_byte_fine])
  have le: "Start p \<le> End p" using assms by (simp add: repeat_part_def within_def)
  have one: "fine (bind (substring input (Start p) (End p)) (\<lambda>s. bind (Atoi s) (\<lambda>count. Inr (count, count))))
      (\<lambda>(mn, mx). counts mn mx)"
    by (intro fine_slice_bind [OF assms] fine_bind [OF Atoi_fine]) (use le in \<open>auto simp: counts_def\<close>)
  show "End p \<le> length input" using assms by (simp add: repeat_part_def within_def)
  fix star assume "case star of None \<Rightarrow> True | Some k \<Rightarrow> Start p \<le> k \<and> k < End p"
  then show "fine (case star of
         None \<Rightarrow>
           bind (substring input (Start p) (End p)) (\<lambda>s. bind (Atoi s) (\<lambda>count. Inr (count, count)))
       | Some i \<Rightarrow>
           bind (substring input (Start p) i) (\<lambda>s.
           bind (count_or 0 s) (\<lambda>minCount.
           bind (substring input (i + 1) (End p)) (\<lambda>s.
           bind (count_or Inf s) (\<lambda>maxCount. Inr (minCount, maxCount)))))) (\<lambda>(mn, mx). counts mn mx)"
    using one around_fine [OF assms] by (cases star) simp_all
qed

section \<open>Literals\<close>

lemma evaluateCharVal_fine:
  assumes "abnf_tree input (ref ruleNameCharVal) p"
  shows "fine (evaluateCharVal input p) evaluated"
proof -
  obtain s where s: "Subpaths p = [s]" "char_val_parts input s" using char_val_shape [OF assms] by blast
  then obtain pre q where pre: "Subpaths s = pre @ [q]" and q: "abnf_tree input (ref ruleNameQuotedString) q"
    and "list_all (\<lambda>y. \<not> EqualFold (MatchRule y) (str ruleNameQuotedString)) pre"
    by (auto simp: char_val_parts_def)
  then have find: "List.find (\<lambda>p. EqualFold (MatchRule p) (str ruleNameQuotedString) \<and> length (Subpaths p) \<noteq> 2) (Subpaths s) =
      (if length (Subpaths q) \<noteq> 2 then Some q else None)"
    using ref_rule [OF q] unfolding pre by (induction pre) auto
  obtain a b cs where "Subpaths q = a # b # cs" "within input b" using quoted_shape [OF q] by blast
  then have "fine (char_val_text input (Subpaths s)) (\<lambda>v. True)"
    using fine_substring [of input b] by (simp add: char_val_text_def find subpath_def)
  then show ?thesis unfolding evaluateCharVal_def
    by (auto simp: subpath_def s intro!: fine_bind)
qed

lemma digits_after_text:
  "digits_after input (Subpaths y) \<Longrightarrow> fine (subpath_text input y 1) (\<lambda>v. True)"
  using fine_substring by (auto simp: digits_after_def subpath_text_def subpath_def)

lemma evaluateNumVal_fine:
  assumes "abnf_tree input (ref ruleNameNumVal) p"
  shows "fine (evaluateNumVal input p) evaluated"
proof -
  obtain l g b where p: "Subpaths p = [l, g]" "Subpaths g = [b]" "num_val_parts input b"
    using num_val_shape [OF assms] by blast
  then obtain k d where d: "within input d" and "Subpaths b = [k, d] \<or>
      (\<exists>q h s v rest. Subpaths b = [k, d, q] \<and> Subpaths q = [h] \<and> Subpaths h = [s, v] @ rest \<and>
        digits_after input [s, v] \<and> list_all (\<lambda>y. digits_after input (Subpaths y)) rest)"
    by (auto simp: num_val_parts_def)
  then consider "Subpaths b = [k, d]"
    | q h s v rest where "Subpaths b = [k, d, q]" "Subpaths q = [h]" "Subpaths h = [s, v] @ rest"
        "digits_after input [s, v]" "list_all (\<lambda>y. digits_after input (Subpaths y)) rest" by blast
  then show ?thesis
  proof cases
    case 1
    then show ?thesis using fine_substring [OF d]
      by (auto simp: evaluateNumVal_def p Let_def subpath_text_def subpath_def intro!: fine_bind)
  next
    case 2
    have "fine (traverse (\<lambda>q. subpath_text input q 1) rest) (\<lambda>ys. length ys = length rest \<and> (\<forall>y \<in> set ys. True))"
      by (rule fine_traverse) (use 2(5) digits_after_text in \<open>auto simp: list_all_iff\<close>)
    moreover have "fine (byte_at input (Start s)) (\<lambda>c. True)" "fine (substring input (Start v) (End v)) (\<lambda>c. True)"
      using 2(4) fine_substring by (auto simp: digits_after_def within_def byte_at_def)
    ultimately show ?thesis using fine_substring [OF d] 2(1-3)
      by (auto simp: evaluateNumVal_def p Let_def subpath_text_def subpath_def intro!: fine_bind)
  qed
qed

section \<open>Elements\<close>

lemma enclosed_find:
  assumes "enclosed input p"
  shows "\<exists>a. List.find (\<lambda>q. EqualFold (MatchRule q) (str ruleNameAlternation)) (Subpaths p) = Some a \<and>
    abnf_tree input (ref ruleNameAlternation) a"
proof -
  obtain pre a post where a: "Subpaths p = pre @ a # post" "abnf_tree input (ref ruleNameAlternation) a"
    and pre: "list_all (\<lambda>y. \<not> EqualFold (MatchRule y) (str ruleNameAlternation)) pre"
    using assms by (auto simp: enclosed_def)
  from pre have "List.find (\<lambda>q. EqualFold (MatchRule q) (str ruleNameAlternation)) (pre @ a # post) = Some a"
    using ref_rule [OF a(2)] by (induction pre) auto
  then show ?thesis using a by auto
qed

text \<open>What the evaluation of a path of bounded size gives, for every rule it is called on.\<close>

definition fine_below :: "bytes \<Rightarrow> nat \<Rightarrow> bool" where
  "fine_below input n \<longleftrightarrow>
     (\<forall>p. path_nodes p < n \<longrightarrow>
       (abnf_tree input (ref ruleNameAlternation) p \<longrightarrow> fine (evaluateAlternation input p) evaluated_alt) \<and>
       (abnf_tree input (ref ruleNameConcatenation) p \<longrightarrow> fine (evaluateConcatenation input p) evaluated_cat) \<and>
       (abnf_tree input (ref ruleNameRepetition) p \<longrightarrow> fine (evaluateRepetition input p) evaluated_rep) \<and>
       (abnf_tree input (ref ruleNameElement) p \<longrightarrow> fine (bind (subpath p 0) (evaluateElement input)) evaluated))"

lemma fine_belowD:
  assumes "fine_below input n" "path_nodes p < n"
  shows "abnf_tree input (ref ruleNameAlternation) p \<Longrightarrow> fine (evaluateAlternation input p) evaluated_alt"
    "abnf_tree input (ref ruleNameConcatenation) p \<Longrightarrow> fine (evaluateConcatenation input p) evaluated_cat"
    "abnf_tree input (ref ruleNameRepetition) p \<Longrightarrow> fine (evaluateRepetition input p) evaluated_rep"
    "abnf_tree input (ref ruleNameElement) p \<Longrightarrow> fine (bind (subpath p 0) (evaluateElement input)) evaluated"
  using assms by (auto simp: fine_below_def)

lemma alternation_fine:
  assumes "fine_below input (path_nodes p)" "abnf_tree input (ref ruleNameAlternation) p"
  shows "fine (evaluateAlternation input p) evaluated_alt"
proof (subst evaluateAlternation.simps, rule fine_bind [OF items_fine [OF alternation_shape [OF assms(2)]]])
  fix items assume items: "listItemPaths p (str ruleNameConcatenation) = Inr items"
    and t: "items \<noteq> [] \<and> (\<forall>x \<in> set items. abnf_tree input (ref ruleNameConcatenation) x)"
  have "fine (evaluateConcatenation input x) evaluated_cat" if "x \<in> set items" for x
    using fine_belowD(2) [OF assms(1) listItemPaths_nodes [OF items that]] t that by blast
  then have "fine (traverse (evaluateConcatenation input) items)
      (\<lambda>ys. length ys = length items \<and> (\<forall>y \<in> set ys. evaluated_cat y))" by (rule fine_traverse)
  then show "fine (bind (traverse (evaluateConcatenation input) items) (\<lambda>cs. Inr (Alternation cs))) evaluated_alt"
    by (rule fine_bind) (use t in auto)
qed

lemma concatenation_fine:
  assumes "fine_below input (path_nodes p)" "abnf_tree input (ref ruleNameConcatenation) p"
  shows "fine (evaluateConcatenation input p) evaluated_cat"
proof (subst evaluateConcatenation.simps, rule fine_bind [OF items_fine [OF concatenation_shape [OF assms(2)]]])
  fix items assume items: "listItemPaths p (str ruleNameRepetition) = Inr items"
    and t: "items \<noteq> [] \<and> (\<forall>x \<in> set items. abnf_tree input (ref ruleNameRepetition) x)"
  have "fine (evaluateRepetition input x) evaluated_rep" if "x \<in> set items" for x
    using fine_belowD(3) [OF assms(1) listItemPaths_nodes [OF items that]] t that by blast
  then have "fine (traverse (evaluateRepetition input) items)
      (\<lambda>ys. length ys = length items \<and> (\<forall>y \<in> set ys. evaluated_rep y))" by (rule fine_traverse)
  then show "fine (bind (traverse (evaluateRepetition input) items) (\<lambda>rs. Inr (Concatenation rs))) evaluated_cat"
    by (rule fine_bind) (use t in auto)
qed

lemma bind_assoc: "bind (bind m f) h = bind m (\<lambda>x. bind (f x) h)"
  by (cases m) simp_all

lemma list_repeat_fine:
  assumes "repeat_part input r" "Start r \<le> i" "i < End r"
    and "fine (bind (subpath e 0) (evaluateElement input)) evaluated"
  shows "fine (evaluateListRepeat input r i e) evaluated_list"
proof (subst evaluateListRepeat.simps, rule fine_bind [OF listRepeatCounts_fine [OF assms(1-3)]], clarify)
  fix mn mx assume "counts mn mx"
  then have "fine (bind (bind (subpath e 0) (evaluateElement input))
      (\<lambda>e. Inr (ListElement mn mx e (Some (expandList mn mx e))))) evaluated_list"
    by (intro fine_bind [OF assms(4)]) simp
  then show "fine (bind (subpath e 0) (\<lambda>q. bind (evaluateElement input q)
      (\<lambda>e. Inr (ListElement mn mx e (Some (expandList mn mx e)))))) evaluated_list"
    unfolding bind_assoc .
qed

lemma repetition_fine:
  assumes "fine_below input (path_nodes p)" "abnf_tree input (ref ruleNameRepetition) p"
  shows "fine (evaluateRepetition input p) evaluated_rep"
proof -
  obtain e where e: "abnf_tree input (ref ruleNameElement) e" and
    p: "Subpaths p = [e] \<or>
     (\<exists>q r hit. Subpaths p = [q, e] \<and> Subpaths q = [r] \<and> Subpaths r = [hit] \<and> repeat_part input hit)"
    using repetition_shape [OF assms(2)] by blast
  then have "path_nodes e < path_nodes p" by (auto intro: child_nodes)
  from fine_belowD(4) [OF assms(1) this e]
  have E: "fine (bind (subpath e 0) (evaluateElement input)) evaluated" .
  have rep: "fine (bind (subpath e 0) (\<lambda>q. bind (evaluateElement input q) (\<lambda>e. Inr (Repetition mn mx e)))) evaluated_rep"
    if "counts mn mx" for mn mx
    unfolding bind_assoc [symmetric] using that by (intro fine_bind [OF E]) simp
  from p consider "Subpaths p = [e]" | q r hit where "Subpaths p = [q, e]" "Subpaths q = [r]" "Subpaths r = [hit]"
    "repeat_part input hit" by blast
  then show ?thesis
  proof cases
    case 1
    then show ?thesis by (subst evaluateRepetition.simps) (simp add: rep counts_def)
  next
    case 2
    note list = list_repeat_fine [OF 2(4) _ _ E]
    have "End hit \<le> length input" using 2(4) by (simp add: repeat_part_def within_def)
    from index_byte_fine [OF this, of "ch CHR ''#''" "Start hit"]
    have "fine (bind (index_byte input (ch CHR ''#'') (Start hit) (End hit)) (\<lambda>hash.
            case hash of
              Some i \<Rightarrow> bind (evaluateListRepeat input hit i e) (\<lambda>listElement. Inr (one listElement))
            | None \<Rightarrow>
                bind (repeatCounts input hit) (\<lambda>(minCount, maxCount).
                bind (subpath e 0) (\<lambda>q.
                bind (evaluateElement input q) (\<lambda>e. Inr (Repetition minCount maxCount e)))))) evaluated_rep"
    proof (rule fine_bind)
      fix hash assume h: "case hash of None \<Rightarrow> True | Some k \<Rightarrow> Start hit \<le> k \<and> k < End hit"
      show "fine (case hash of
              Some i \<Rightarrow> bind (evaluateListRepeat input hit i e) (\<lambda>listElement. Inr (one listElement))
            | None \<Rightarrow>
                bind (repeatCounts input hit) (\<lambda>(minCount, maxCount).
                bind (subpath e 0) (\<lambda>q.
                bind (evaluateElement input q) (\<lambda>e. Inr (Repetition minCount maxCount e))))) evaluated_rep"
      proof (cases hash)
        case None
        then show ?thesis using rep by (auto intro!: fine_bind [OF repeatCounts_fine [OF 2(4)]])
      next
        case (Some i)
        then show ?thesis using h by (auto simp: one_def rep_def counts_def intro!: fine_bind [OF list])
      qed
    qed
    moreover have "subpath q 0 = Inr r" "subpath r 0 = Inr hit" using 2(2,3) by simp_all
    ultimately show ?thesis by (subst evaluateRepetition.simps) (simp only: 2(1) list.case bind.simps)
  qed
qed

lemma element_fine:
  assumes "fine_below input (path_nodes p)" "abnf_tree input (ref ruleNameElement) p"
  shows "fine (bind (subpath p 0) (evaluateElement input)) evaluated"
proof -
  obtain x n where x: "Subpaths p = [x]" "abnf_tree input (ref n) x" "within input x" and
    n: "n \<in> {ruleNameRulename, ruleNameGroup, ruleNameOption, ruleNameCharVal, ruleNameNumVal, ruleNameProseVal}"
    using element_shape [OF assms(2)] by blast
  have m: "MatchRule x = str n" by (rule ref_rule [OF x(2)])
  have names: "str ruleNameGroup \<noteq> str ruleNameRulename" "str ruleNameOption \<noteq> str ruleNameRulename"
    "str ruleNameCharVal \<noteq> str ruleNameRulename" "str ruleNameNumVal \<noteq> str ruleNameRulename"
    "str ruleNameProseVal \<noteq> str ruleNameRulename" "str ruleNameCharVal \<noteq> str ruleNameGroup"
    "str ruleNameNumVal \<noteq> str ruleNameGroup" "str ruleNameProseVal \<noteq> str ruleNameGroup"
    "str ruleNameCharVal \<noteq> str ruleNameOption" "str ruleNameNumVal \<noteq> str ruleNameOption"
    "str ruleNameProseVal \<noteq> str ruleNameOption" "str ruleNameNumVal \<noteq> str ruleNameCharVal"
    "str ruleNameProseVal \<noteq> str ruleNameCharVal" "str ruleNameProseVal \<noteq> str ruleNameNumVal"
    by (simp_all add: ruleName_defs)
  have enclosed: "fine (evaluateElement input x) evaluated"
    if e: "enclosed input x" and r: "MatchRule x = str ruleNameGroup \<or> MatchRule x = str ruleNameOption"
  proof -
    obtain a where a: "List.find (\<lambda>q. EqualFold (MatchRule q) (str ruleNameAlternation)) (Subpaths x) = Some a"
      "abnf_tree input (ref ruleNameAlternation) a" using enclosed_find [OF e] by blast
    have "path_nodes a < path_nodes p"
      using find_nodes [OF a(1)] child_nodes(1) [OF x(1)] by simp
    from fine_belowD(1) [OF assms(1) this a(2)] show ?thesis
      using r names by (subst evaluateElement.simps) (auto simp: a(1) intro!: fine_bind)
  qed
  have "fine (evaluateElement input x) evaluated"
  proof (cases "n = ruleNameGroup \<or> n = ruleNameOption")
    case True
    then show ?thesis using x(2) m group_shape option_shape by (intro enclosed) auto
  next
    case False
    then consider "n = ruleNameRulename" | "n = ruleNameCharVal" | "n = ruleNameNumVal" | "n = ruleNameProseVal"
      using n by blast
    then show ?thesis
    proof cases
      case 1
      then show ?thesis using m fine_substring [OF x(3)] by (subst evaluateElement.simps) (auto intro!: fine_bind)
    next
      case 2
      then show ?thesis using m names evaluateCharVal_fine x(2) by (subst evaluateElement.simps) simp
    next
      case 3
      then show ?thesis using m names evaluateNumVal_fine x(2) by (subst evaluateElement.simps) simp
    next
      case 4
      then have "Start x + 2 \<le> End x" using prose_shape x(2) by blast
      then have "fine (substring input (Start x + 1) (End x - 1)) (\<lambda>s. True)"
        using x(3) by (auto simp: substring_def within_def)
      then show ?thesis using m names 4 by (subst evaluateElement.simps) (auto intro!: fine_bind)
    qed
  qed
  then show ?thesis using x(1) by (simp add: subpath_def)
qed

lemma fine_all: "fine_below input n"
proof (induction n)
  case 0
  then show ?case by (simp add: fine_below_def)
next
  case (Suc n)
  have below: "fine_below input (path_nodes p)" if "path_nodes p < Suc n" for p
    using Suc that by (auto simp: fine_below_def)
  show ?case unfolding fine_below_def
    using alternation_fine [OF below] concatenation_fine [OF below] repetition_fine [OF below] element_fine [OF below]
    by blast
qed

lemma evaluateAlternation_fine:
  "abnf_tree input (ref ruleNameAlternation) p \<Longrightarrow> fine (evaluateAlternation input p) evaluated_alt"
  by (rule alternation_fine [OF fine_all])

section \<open>Rules and grammars\<close>

lemma evaluateRule_fine:
  assumes "abnf_tree input (ref ruleNameRule) p"
  shows "fine (evaluateRule input p) (\<lambda>r. evaluated_alt (rule_alternation r))"
proof -
  obtain n d e c where p: "Subpaths p = [n, d, e, c]" "within input n" "abnf_tree input (ref ruleNameElements) e"
    using rule_shape [OF assms] by blast
  obtain a ps where a: "Subpaths e = a # ps" "abnf_tree input (ref ruleNameAlternation) a"
    using elements_shape [OF p(3)] by blast
  have "fine (evaluateAlternation input a) evaluated_alt" by (rule evaluateAlternation_fine [OF a(2)])
  then show ?thesis using fine_substring [OF p(2)]
    by (auto simp: evaluateRule_def subpath_text_def subpath_def p(1) a(1) intro!: fine_bind)
qed

lemma defined_as_fine:
  assumes "defined_as_parts input (Subpaths p)"
  shows "fine (defined_as_path p) (within input)"
proof -
  obtain x xs where x: "Subpaths p = x # xs" "length xs \<le> 2" "list_all (\<lambda>p. within input p \<and> Subpaths p \<noteq> []) (x # xs)"
    using assms by (cases "Subpaths p") (auto simp: defined_as_parts_def)
  show ?thesis
  proof (cases xs)
    case Nil
    then show ?thesis using x by (simp add: defined_as_path_def)
  next
    case (Cons y ys)
    then show ?thesis using x by (cases ys) (auto simp: defined_as_path_def subpath_def)
  qed
qed

lemma add_rule_fine:
  assumes g: "evaluated_grammar g" and r: "evaluated_alt (rule_alternation r)"
    "map_of coreRules (ToLower (Name r)) = None"
  shows "fine (add_rule d r g) evaluated_grammar"
proof -
  let ?k = "ToLower (Name r)"
  have new: "evaluated_grammar \<lparr>Rules = Rules g @ [r], Rulemap = (Rulemap g)(?k \<mapsto> length (Rules g))\<rparr>"
    if none: "Rulemap g ?k = None"
  proof -
    have "?k \<noteq> ToLower (Name (Rules g ! i))" if "i < length (Rules g)" for i
      using none g that unfolding evaluated_grammar_def by (metis option.distinct(1))
    then show ?thesis using g r
      by (auto simp: evaluated_grammar_def nth_append less_Suc_eq split: if_splits)
  qed
  have old: "evaluated_grammar (g\<lparr>Rules := (Rules g)[i := (Rules g ! i)\<lparr>rule_alternation :=
      Alternation (Concatenations (rule_alternation (Rules g ! i)) @ Concatenations (rule_alternation r))\<rparr>]\<rparr>)"
    if "Rulemap g ?k = Some i" for i
  proof -
    have i: "i < length (Rules g)" using g that by (simp add: evaluated_grammar_def)
    have "evaluated_alt (rule_alternation (Rules g ! i))" "map_of coreRules (ToLower (Name (Rules g ! i))) = None"
      using g i by (auto simp: evaluated_grammar_def list_all_length)
    then show ?thesis using g r(1) i
      by (cases "rule_alternation (Rules g ! i)"; cases "rule_alternation r")
        (auto simp: evaluated_grammar_def list_all_length nth_list_update)
  qed
  show ?thesis using g new old by (auto simp: add_rule_def Let_def split: option.split)
qed

lemma evaluate_line_fine:
  assumes "line input p" "evaluated_grammar g"
  shows "fine (evaluate_line input p g) evaluated_grammar"
proof (cases "MatchRule p = str ruleNameRule")
  case True
  then have t: "abnf_tree input (ref ruleNameRule) p" using assms(1) by (simp add: line_def ruleName_defs)
  obtain n d e c where p: "Subpaths p = [n, d, e, c]" "abnf_tree input (ref ruleNameDefinedAs) d"
    using rule_shape [OF t] by blast
  note d = defined_as_fine [OF defined_as_shape [OF p(2)]]
  have "fine (evaluateRule input p) (\<lambda>r. evaluated_alt (rule_alternation r))" by (rule evaluateRule_fine [OF t])
  moreover have "fine (bind (defined_as_path d) (\<lambda>q.
      bind (substring input (Start q) (End q)) (\<lambda>s. add_rule (TrimSpace s) r g))) evaluated_grammar"
    if "evaluated_alt (rule_alternation r)" "map_of coreRules (ToLower (Name r)) = None" for r
    by (intro fine_bind [OF d] fine_bind [OF fine_substring] add_rule_fine assms(2) that)
  ultimately show ?thesis using True
    by (auto simp: evaluate_line_def subpath_def p(1) intro!: fine_bind)
next
  case False
  then show ?thesis using assms(2) by (simp add: evaluate_line_def)
qed

lemma evaluate_lines_fine:
  "line input p \<Longrightarrow> list_all (\<lambda>y. \<exists>l. Subpaths y = [l] \<and> line input l) rest \<Longrightarrow> evaluated_grammar g \<Longrightarrow>
   fine (evaluate_lines input p rest g) evaluated_grammar"
proof (induction rest arbitrary: p g)
  case Nil
  then show ?case by (subst evaluate_lines.simps) (auto intro: fine_bind [OF evaluate_line_fine])
next
  case (Cons y rest)
  then obtain l where "Subpaths y = [l]" "line input l" by auto
  then show ?case using Cons
    by (subst evaluate_lines.simps) (auto simp: subpath_def intro!: fine_bind [OF evaluate_line_fine])
qed

theorem evaluateGrammar_fine:
  assumes "abnf_tree input (ref ruleNameRulelist) p"
  shows "fine (evaluateGrammar input p) evaluated_grammar"
proof -
  obtain q l ls where "Subpaths p = [q]" "Subpaths q = l # ls" "line input l"
    "list_all (\<lambda>y. \<exists>l. Subpaths y = [l] \<and> line input l) ls"
    using rulelist_shape [OF assms] by blast
  moreover have "evaluated_grammar \<lparr>Rules = [], Rulemap = Map.empty\<rparr>" by (simp add: evaluated_grammar_def)
  ultimately show ?thesis
    using evaluate_lines_fine [of input l ls] by (simp add: evaluateGrammar_def subpath_def)
qed

end
