(* ===== verification/Abnf_Definitions.thy ===== *)
theory Abnf_Definitions
  imports Abnf_Evaluated Abnf_Properties
begin

text \<open>
  What \<open>ParseABNF\<close> promises: on every input it returns a validated, well-formed grammar or an error
  that names what is wrong, and parsing with a grammar it returned is exact.
\<close>

lemma definition_tree:
  assumes "Parse fuel input abnfGrammar (str ruleNameRulelist) = Inr (Some ps)" "p \<in> set ps"
  shows "abnf_tree input (ref ruleNameRulelist) p"
proof -
  obtain r qs q where r: "getRule (str ruleNameRulelist) abnfGrammar = Some r"
    and qs: "solveAlternation fuel (solveElement fuel abnfGrammar input) (rule_alternation r) input 0 = Inr qs"
    and q: "q \<in> set qs" "p = stamp (str ruleNameRulelist) q"
    using assms by (auto simp: Parse_def bind_Inr split: option.splits)
  have "proper_alt (rule_alternation r)" using abnf.grammar_proper r by (auto simp: proper_grammar_def)
  note proper = proper_altD [OF this]
  have t: "alt_tree (abnf_tree input) (rule_alternation r) q"
    using trees.solveAlternation_tree [OF qs _ _ q(1)] proper abnf.grammar_proper by blast
  have "answers (alt_lang (derives abnfGrammar) (rule_alternation r)) input 0 qs"
    using parser.solveAlternation_answers [OF _ _ qs] proper abnf.grammar_proper by (simp add: ok_rep_def)
  from answersD [OF this q(1)] have "reads abnfGrammar input (ref ruleNameRulelist) q"
    using r by (auto simp: reads_def ref_def intro: derives.rulename)
  then show ?thesis using t r by (simp add: q(2) ref_def tree.rulename)
qed

lemma definition_evaluated:
  assumes "Parse fuel input abnfGrammar (str ruleNameRulelist) = Inr (Some [p])"
  shows "fine (evaluateGrammar input p) evaluated_grammar"
  by (rule evaluateGrammar_fine) (rule definition_tree [OF assms], simp)

text \<open>C32: On every input \<open>ParseABNF\<close> returns. It returns an error exactly of the kinds that report a
  faulty definition, among them that there is no solution exactly if the input is not a rule list;
  it never panics and never meets a path of an unexpected structure. A grammar it returns is
  validated and well formed: no core rule among its rules, one rule to a name, found by the index.\<close>

theorem parse_abnf_returns:
  "\<exists>N answer. (\<forall>k. ParseABNF (N + k) input = Inr answer) \<and>
     (case answer of
        Inl e \<Rightarrow>
          e \<noteq> Evaluate_Error Evaluate_Panic \<and> e \<noteq> Evaluate_Error UnexpectedPathStructure \<and>
          (e = ErrNoSolutionFound \<longleftrightarrow> \<not> derives abnfGrammar (ref ruleNameRulelist) input)
      | Inr g \<Rightarrow> derives abnfGrammar (ref ruleNameRulelist) input \<and> validateGrammar g = None \<and> evaluated_grammar g)"
proof -
  obtain N ps where run: "\<And>k. Parse (N + k) input abnfGrammar (str ruleNameRulelist) = Inr (Some ps)"
    and ps: "ps \<noteq> [] \<longleftrightarrow> derives abnfGrammar (ref ruleNameRulelist) input"
    using definition_answers [of input] unfolding ref_def by blast
  have "\<exists>answer. (\<forall>k. ParseABNF (N + k) input = Inr answer) \<and>
     (case answer of
        Inl e \<Rightarrow>
          e \<noteq> Evaluate_Error Evaluate_Panic \<and> e \<noteq> Evaluate_Error UnexpectedPathStructure \<and>
          (e = ErrNoSolutionFound \<longleftrightarrow> \<not> derives abnfGrammar (ref ruleNameRulelist) input)
      | Inr g \<Rightarrow> derives abnfGrammar (ref ruleNameRulelist) input \<and> validateGrammar g = None \<and> evaluated_grammar g)"
  proof (cases "\<exists>p. ps = [p]")
    case True
    then obtain p where p: "ps = [p]" ..
    have "fine (evaluateGrammar input p) evaluated_grammar"
      using definition_evaluated [of "N + 0"] run [of 0] by (simp add: p)
    then show ?thesis using ps run
      by (cases "evaluateGrammar input p"; cases "validateGrammar (projr (evaluateGrammar input p))")
        (auto simp: ParseABNF_def ParseABNFWithPath_def p)
  next
    case False
    then show ?thesis using ps run
      by (cases ps; cases "tl ps") (auto simp: ParseABNF_def ParseABNFWithPath_def)
  qed
  then show ?thesis by blast
qed

section \<open>Parsing with a parsed grammar\<close>

fun has_list :: "element \<Rightarrow> bool"
  and has_list_alt :: "alternation \<Rightarrow> bool"
  and has_list_cat :: "concatenation \<Rightarrow> bool"
  and has_list_rep :: "repetition \<Rightarrow> bool"
where
  "has_list (GroupElement a) = has_list_alt a"
| "has_list (OptionElement a) = has_list_alt a"
| "has_list (ListElement mn mx e expansion) = True"
| "has_list e = False"
| "has_list_alt (Alternation cs) = (\<exists>c \<in> set cs. has_list_cat c)"
| "has_list_cat (Concatenation rs) = (\<exists>r \<in> set rs. has_list_rep r)"
| "has_list_rep (Repetition mn mx e) = has_list e"

lemmas evaluated_induct =
  evaluated_evaluated_list_evaluated_alt_evaluated_cat_evaluated_rep.induct

lemma evaluated_proper:
  "evaluated e \<Longrightarrow> proper e" "evaluated_list e \<Longrightarrow> proper e" "evaluated_alt a \<Longrightarrow> proper_alt a"
  "evaluated_cat c \<Longrightarrow> proper_cat c" "evaluated_rep r \<Longrightarrow> proper_rep r"
  by (induction e and e and a and c and r rule: evaluated_induct) (auto simp: counts_def proper_expandList)

lemma evaluated_shaped:
  "evaluated e \<Longrightarrow> \<not> has_list e \<Longrightarrow> shaped e" "evaluated_list e \<Longrightarrow> \<not> has_list e \<Longrightarrow> shaped e"
  "evaluated_alt a \<Longrightarrow> \<not> has_list_alt a \<Longrightarrow> shaped_alt a"
  "evaluated_cat c \<Longrightarrow> \<not> has_list_cat c \<Longrightarrow> shaped_cat c"
  "evaluated_rep r \<Longrightarrow> \<not> has_list_rep r \<Longrightarrow> shaped_rep r"
  by (induction e and e and a and c and r rule: evaluated_induct) auto

lemma evaluated_grammar_proper:
  assumes "evaluated_grammar g"
  shows "proper_grammar g"
  unfolding proper_grammar_def
proof (intro allI impI)
  fix name r assume r: "getRule name g = Some r"
  show "proper_alt (rule_alternation r)"
  proof (cases "Rulemap g (ToLower name)")
    case None
    then have "(ToLower name, r) \<in> set coreRules" using r by (auto simp: getRule_def dest: map_of_SomeD)
    then show ?thesis using coreRules_checked good_proper(2) by (auto simp: list_all_iff checked_rule_def)
  next
    case (Some i)
    then have "i < length (Rules g)" "r = Rules g ! i"
      using assms r by (auto simp: evaluated_grammar_def getRule_def)
    then show ?thesis using assms evaluated_proper(3) by (auto simp: evaluated_grammar_def list_all_length)
  qed
qed

lemma parsed_evaluated:
  assumes "ParseABNF fuel input = Inr (Inr g)"
  shows "evaluated_grammar g \<and> validateGrammar g = None"
proof -
  obtain ps where ps: "Parse fuel input abnfGrammar (str ruleNameRulelist) = Inr (Some ps)"
    using assms by (auto simp: ParseABNF_def ParseABNFWithPath_def bind_Inr split: option.splits)
  with assms obtain p where p: "ps = [p]"
    by (cases ps; cases "tl ps") (auto simp: ParseABNF_def ParseABNFWithPath_def)
  have "fine (evaluateGrammar input p) evaluated_grammar" by (rule definition_evaluated) (use ps p in simp)
  then show ?thesis using assms ps unfolding ParseABNF_def ParseABNFWithPath_def p
    by (auto simp: fine_def bind_Inr split: sum.splits option.splits if_splits)
qed

text \<open>C33: Whenever \<open>Parse\<close> answers with a grammar that \<open>ParseABNF\<close> returned, it reports no rule only if there is
  none of the name, and otherwise has a solution exactly if the rule derives the input. It panics at
  most if the grammar uses the list operator. It need not answer: the grammar may repeat what matches
  nothing without end (\<open>abnf_nullable_loop\<close>), or be left recursive, and then the model runs out of any
  fuel.\<close>

theorem parsed_grammar_parses:
  assumes "ParseABNF fuel' definition = Inr (Inr g)"
  shows "case Parse fuel input g name of
      Inl e \<Rightarrow> e = OutOfFuel \<or> list_ex (\<lambda>r. has_list_alt (rule_alternation r)) (Rules g)
    | Inr None \<Rightarrow> getRule name g = None
    | Inr (Some ps) \<Rightarrow> ps \<noteq> [] \<longleftrightarrow> derives g (RulenameElement name) input"
proof -
  have g: "evaluated_grammar g" "validateGrammar g = None" using parsed_evaluated [OF assms] by auto
  show ?thesis
  proof (cases "Parse fuel input g name")
    case (Inl e)
    have "e \<noteq> Panic" if "\<not> list_ex (\<lambda>r. has_list_alt (rule_alternation r)) (Rules g)"
    proof -
      have "list_all (\<lambda>r. shaped_alt (rule_alternation r)) (Rules g)"
        using g(1) that evaluated_shaped(3) by (auto simp: evaluated_grammar_def list_all_iff list_ex_iff)
      from validated_no_panic [OF g(2) this] show ?thesis using g(1) Inl by (auto simp: evaluated_grammar_def)
    qed
    then show ?thesis using Inl by (cases e) auto
  next
    case (Inr a)
    show ?thesis
    proof (cases a)
      case None
      then show ?thesis using Inr by (auto simp: Parse_def bind_Inr split: option.splits)
    next
      case (Some ps)
      then show ?thesis using parse_solutions [OF evaluated_grammar_proper [OF g(1)]] Inr by simp
    qed
  qed
qed

section \<open>A run by the simplifier\<close>

text \<open>Equations by which the simplifier runs the parser, from the outside in.\<close>

lemma solveElement_numeral:
  "solveElement (numeral k) g input e index =
     (let fuel = pred_numeral k; E = solveElement fuel g input
      in case e of
           RulenameElement name \<Rightarrow>
             (case getRule name g of
                None \<Rightarrow> Inr []
              | Some r \<Rightarrow>
                  bind (solveAlternation fuel E (rule_alternation r) input index) (\<lambda>paths.
                    Inr (map (stamp name) paths)))
         | OptionElement a \<Rightarrow> solveRepetition fuel E (Repetition 0 1 (GroupElement a)) input index
         | GroupElement a \<Rightarrow> solveAlternation fuel E a input index
         | ListElement mn mx e expansion \<Rightarrow>
             solveAlternation fuel E (list_alternation mn mx e expansion) input index
         | CharValElement sensitive v \<Rightarrow> Inr (matchCharVal sensitive v input index)
         | NumValElement base status vs \<Rightarrow> matchNumVal base status vs input index
         | ProseValElement v \<Rightarrow> Inr [])"
  by (simp only: numeral_eq_Suc solveElement.simps Let_def)

lemma iterations_numeral:
  "iterations (numeral k) E r input i previousPaths =
     (if i = Max r then Inr []
      else
             bind (next_iteration E r input i previousPaths) (\<lambda>currentPaths.
               if currentPaths = [] then Inr []
               else
                 bind (iterations (pred_numeral k) E r input (i + 1) currentPaths) (\<lambda>later.
                   Inr (currentPaths # later))))"
  by (subst iterations.simps) (simp only: numeral_eq_Suc nat.case)

lemma bind_weak: "m = m' \<Longrightarrow> bind m f = bind m' f" by simp
lemma collect_weak: "xs = ys \<Longrightarrow> collect f xs = collect f ys" by simp

lemmas run_simps = Parse_def abnf_getRule core_getRule abnf_rule_defs core_rule_defs builder_defs Inf_def Let_def
  solveElement_numeral iterations_numeral solveAlternation_def solve_concatenation_def solveRepetition_def
  shouldContinueRepetition_def next_iteration_def matchCharVal_def matchNumVal_def matchRange_def mustParseNumVal_def
  ParseNumVal_def ParseUint32_def digit_of_def digit_byte_def MaxRune_def leaf_def stamp_def extend_path_def
  decode_rune_def decode_nats_def scalar_def RuneError_def rune_string_def encode_rune_def encode_nats_def
  same_char_def ascii_lower_def upper_byte_def lower_byte_def

text \<open>The definition \<open>a=SP\<close>.\<close>

definition space_definition :: bytes where
  "space_definition = [0x61, 0x3D, 0x53, 0x50, 0x0D, 0x0A]"

definition space_grammar :: grammar where
  "space_grammar = \<lparr>Rules = [newRule ''a'' [cat [one (ref ruleNameSp)]]], Rulemap = [str ''a'' \<mapsto> 0]\<rparr>"

lemma traverse_weak: "xs = ys \<Longrightarrow> traverse f xs = traverse f ys"
  by simp

lemmas evaluate_simps = evaluateGrammar_def subpath_def evaluate_lines.simps evaluate_line_def evaluateRule_def
  subpath_text_def substring_def evaluateAlternation.simps evaluateConcatenation.simps evaluateRepetition.simps
  evaluateElement.simps listItemPaths_def defined_as_path_def add_rule_def TrimSpace_def space_byte_def
  coreRules_def ToLower_def ascii_lower_def upper_byte_def ruleName_defs EqualFold_def

lemma space_run:
  "\<exists>p. Parse 40 space_definition abnfGrammar (str ruleNameRulelist) = Inr (Some [p]) \<and>
     evaluateGrammar space_definition p = Inr space_grammar"
  apply (simp add: run_simps space_definition_def cong: bind_weak collect_weak)
  apply (simp add: evaluate_simps space_grammar_def builder_defs cong: bind_weak traverse_weak)
  done

lemma space_validated: "validateGrammar space_grammar = None"
  by code_simp

lemma space_parsed: "ParseABNF 40 space_definition = Inr (Inr space_grammar)"
  using space_run space_validated by (auto simp: ParseABNF_def ParseABNFWithPath_def)

lemma parsed_grammar_parses_witness: "derives space_grammar (RulenameElement (str ''a'')) [0x20]"
proof -
  have "Parse 10 [0x20] space_grammar (str ''a'') = Inr (Some [stamp (str ''a'') (Path [stamp (str ''SP'') (Path [leaf 0 1] [] 0 1)] [] 0 1)])"
    by code_simp
  with parsed_grammar_parses [OF space_parsed, where fuel = 10 and input = "[0x20]" and name = "str ''a''"] show ?thesis by simp
qed

end
