(* ===== verification/Abnf_Minify.thy ===== *)
theory Abnf_Minify
  imports Abnf_Semantics
begin

text \<open>
  The simplification and rendering of grammars of \<open>src/pkg/abnf/minify\<close> (\<open>simplify.go\<close>,
  \<open>minify.go\<close>, \<open>transform.go\<close>). The code rewrites elements in place; here a rewritten element is
  a new one, and an element that occurs twice in an expansion is rewritten at each occurrence. A
  pointer that may be nil is one that is not: parsed grammars hold none.
\<close>

section \<open>Transforms\<close>

datatype transform = TransformGroup | TransformNumVal | TransformLiteral

definition AllTransforms :: "transform list" where
  "AllTransforms = [TransformGroup, TransformNumVal, TransformLiteral]"

definition enabled :: "transform list \<Rightarrow> transform \<Rightarrow> bool" where
  "enabled transforms transform \<longleftrightarrow> transform \<in> set transforms"

definition isSingle :: "repetition \<Rightarrow> bool" where
  "isSingle r \<longleftrightarrow> Min r = 1 \<and> Max r = 1"

definition isCharValRune :: "rune \<Rightarrow> bool" where
  "isCharValRune r \<longleftrightarrow> 0x20 \<le> r \<and> r \<le> 0x21 \<or> 0x23 \<le> r \<and> r \<le> 0x7E"

text \<open>\<open>isAsciiLetter\<close>, and \<open>strings.ContainsFunc\<close> of it: an ASCII rune is its byte.\<close>

definition isAsciiLetter :: "rune \<Rightarrow> bool" where
  "isAsciiLetter r \<longleftrightarrow> 0x41 \<le> r \<and> r \<le> 0x5A \<or> 0x61 \<le> r \<and> r \<le> 0x7A"

definition has_letter :: "bytes \<Rightarrow> bool" where
  "has_letter s = list_ex (\<lambda>b. isAsciiLetter (unat b)) s"

section \<open>Elements\<close>

fun parse_values :: "bytes \<Rightarrow> bytes list \<Rightarrow> rune list option" where
  "parse_values base [] = Some []"
| "parse_values base (v # vs) =
     (case ParseNumVal v base of None \<Rightarrow> None | Some r \<Rightarrow> map_option (Cons r) (parse_values base vs))"

definition simplifyNumVal :: "bytes \<Rightarrow> num_val_status \<Rightarrow> bytes list \<Rightarrow> element" where
  "simplifyNumVal base status vs =
     (let e = NumValElement base status vs in
      if length vs = 0 then e
      else
        (case parse_values base vs of
           None \<Rightarrow> e
         | Some runes \<Rightarrow>
             if status = NumValStatusRange then
               if length runes = 2 \<and> runes ! 0 = runes ! 1 then NumValElement base NumValStatusSeries [vs ! 0]
               else e
             else if \<not> list_all isCharValRune runes then e
             else
               let v = concat (map rune_string runes);
                   charVal = CharValElement (has_letter v) v
               in if length (element_String charVal) \<ge> length (element_String e) then e else charVal))"

definition mergeElements :: "element \<Rightarrow> element \<Rightarrow> element option" where
  "mergeElements left right =
     (case left of
        CharValElement leftSensitive leftValue \<Rightarrow>
          (case right of
             CharValElement rightSensitive rightValue \<Rightarrow>
               (let leftCased = has_letter leftValue; rightCased = has_letter rightValue in
                if leftCased \<and> rightCased \<and> leftSensitive \<noteq> rightSensitive then None
                else
                  Some (CharValElement (leftCased \<and> leftSensitive \<or> rightCased \<and> rightSensitive)
                    (leftValue @ rightValue)))
           | _ \<Rightarrow> None)
      | NumValElement leftBase leftStatus leftValues \<Rightarrow>
          (case right of
             NumValElement rightBase rightStatus rightValues \<Rightarrow>
               if leftStatus \<noteq> NumValStatusSeries \<or> rightStatus \<noteq> NumValStatusSeries then None
               else if ToLower leftBase \<noteq> ToLower rightBase then None
               else Some (NumValElement leftBase NumValStatusSeries (leftValues @ rightValues))
           | _ \<Rightarrow> None)
      | _ \<Rightarrow> None)"

fun merge_loop :: "transform list \<Rightarrow> repetition list \<Rightarrow> repetition list \<Rightarrow> repetition list" where
  "merge_loop transforms merged [] = merged"
| "merge_loop transforms merged (r # rs) =
     (if merged \<noteq> [] \<and> isSingle r \<and> isSingle (last merged) then
        (case mergeElements (Element (last merged)) (Element r) of
           None \<Rightarrow> merge_loop transforms (merged @ [r]) rs
         | Some e \<Rightarrow>
             let e = (case e of
                        NumValElement base status vs \<Rightarrow>
                          if enabled transforms TransformNumVal then simplifyNumVal base status vs else e
                      | _ \<Rightarrow> e)
             in merge_loop transforms (butlast merged @ [Repetition 1 1 e]) rs)
      else merge_loop transforms (merged @ [r]) rs)"

definition mergeLiterals :: "transform list \<Rightarrow> repetition list \<Rightarrow> repetition list" where
  "mergeLiterals transforms rs =
     (if \<not> enabled transforms TransformLiteral then rs else merge_loop transforms [] rs)"

definition soleGroup :: "transform list \<Rightarrow> concatenation \<Rightarrow> alternation option" where
  "soleGroup transforms c =
     (if \<not> enabled transforms TransformGroup then None
      else
        (case Repetitions c of
           [r] \<Rightarrow>
             if \<not> isSingle r then None
             else (case Element r of GroupElement a \<Rightarrow> Some a | _ \<Rightarrow> None)
         | _ \<Rightarrow> None))"

definition soleElement :: "alternation \<Rightarrow> element option" where
  "soleElement a =
     (case Concatenations a of
        [c] \<Rightarrow>
          (case Repetitions c of
             [r] \<Rightarrow> if \<not> isSingle r then None else Some (Element r)
           | _ \<Rightarrow> None)
      | _ \<Rightarrow> None)"

text \<open>What a repetition contributes to its concatenation.\<close>

definition inline_group :: "transform list \<Rightarrow> repetition \<Rightarrow> repetition list" where
  "inline_group transforms r =
     (if isSingle r \<and> enabled transforms TransformGroup then
        (case Element r of
           GroupElement a \<Rightarrow> (case Concatenations a of [c] \<Rightarrow> Repetitions c | _ \<Rightarrow> [r])
         | _ \<Rightarrow> [r])
      else [r])"

fun simplifyAlternation :: "transform list \<Rightarrow> alternation \<Rightarrow> alternation"
  and simplifyConcatenation :: "transform list \<Rightarrow> concatenation \<Rightarrow> concatenation"
  and simplifyRepetition :: "transform list \<Rightarrow> repetition \<Rightarrow> repetition"
where
  "simplifyAlternation transforms (Alternation cs) =
     Alternation (concat (map (\<lambda>c.
       let c = simplifyConcatenation transforms c
       in case soleGroup transforms c of Some a \<Rightarrow> Concatenations a | None \<Rightarrow> [c]) cs))"
| "simplifyConcatenation transforms (Concatenation rs) =
     Concatenation (mergeLiterals transforms
       (concat (map (\<lambda>r. inline_group transforms (simplifyRepetition transforms r)) rs)))"
| "simplifyRepetition transforms (Repetition mn mx e) =
     (case e of
        GroupElement a \<Rightarrow>
          let a = simplifyAlternation transforms a
          in if enabled transforms TransformGroup then
               (case soleElement a of
                  Some inner \<Rightarrow> Repetition mn mx inner
                | None \<Rightarrow> Repetition mn mx (GroupElement a))
             else Repetition mn mx (GroupElement a)
      | OptionElement a \<Rightarrow> Repetition mn mx (OptionElement (simplifyAlternation transforms a))
      | NumValElement base status vs \<Rightarrow>
          Repetition mn mx
            (if enabled transforms TransformNumVal then simplifyNumVal base status vs else e)
      | _ \<Rightarrow> Repetition mn mx e)"

definition simplifyRule :: "transform list \<Rightarrow> rule \<Rightarrow> rule" where
  "simplifyRule transforms r = r\<lparr>rule_alternation := simplifyAlternation transforms (rule_alternation r)\<rparr>"

definition simplifyGrammar :: "transform list \<Rightarrow> grammar \<Rightarrow> grammar" where
  "simplifyGrammar transforms g = g\<lparr>Rules := map (simplifyRule transforms) (Rules g)\<rparr>"

section \<open>Rendering\<close>

fun writeElement :: "element \<Rightarrow> bytes"
  and writeAlternation :: "alternation \<Rightarrow> bytes"
  and writeConcatenation :: "concatenation \<Rightarrow> bytes"
  and writeRepetition :: "repetition \<Rightarrow> bytes"
where
  "writeElement (GroupElement a) = str ''('' @ writeAlternation a @ str '')''"
| "writeElement (OptionElement a) = str ''['' @ writeAlternation a @ str '']''"
| "writeElement (ListElement mn mx e expansion) =
     (if mn \<noteq> 0 then itoa mn else []) @ str ''#'' @ (if mx \<noteq> Inf then itoa mx else []) @ writeElement e"
| "writeElement e = element_String e"
| "writeAlternation (Alternation cs) = join (map writeConcatenation cs) (str ''/'')"
| "writeConcatenation (Concatenation rs) = join (map writeRepetition rs) (str '' '')"
| "writeRepetition (Repetition mn mx e) =
     (if mn = mx then (if mn \<noteq> 1 then itoa mn else [])
      else (if mn \<noteq> 0 then itoa mn else []) @ str ''*'' @ (if mx \<noteq> Inf then itoa mx else [])) @
     writeElement e"

definition writeRule :: "rule \<Rightarrow> bytes" where
  "writeRule r = Name r @ str ''='' @ writeAlternation (rule_alternation r) @ [0x0D, 0x0A]"

definition writeGrammar :: "grammar \<Rightarrow> bytes" where
  "writeGrammar g = concat (map writeRule (Rules g))"

section \<open>Fixed points\<close>

definition maxSimplificationPasses :: nat where "maxSimplificationPasses = 8"

fun simplify_passes :: "nat \<Rightarrow> ('a \<Rightarrow> 'a) \<Rightarrow> ('a \<Rightarrow> bytes) \<Rightarrow> bytes \<Rightarrow> 'a \<Rightarrow> 'a" where
  "simplify_passes 0 simplify render previous x = x"
| "simplify_passes (Suc n) simplify render previous x =
     (let x = simplify x; current = render x
      in if current = previous then x else simplify_passes n simplify render current x)"

definition simplifyToFixedPoint :: "('a \<Rightarrow> 'a) \<Rightarrow> ('a \<Rightarrow> bytes) \<Rightarrow> 'a \<Rightarrow> 'a" where
  "simplifyToFixedPoint simplify render x = simplify_passes maxSimplificationPasses simplify render [] x"

definition RenderRule :: "rule \<Rightarrow> transform list \<Rightarrow> bytes" where
  "RenderRule r transforms =
     writeRule (if transforms \<noteq> [] then simplifyToFixedPoint (simplifyRule transforms) writeRule r else r)"

text \<open>The grammar that \<open>makeDefinition\<close> renders, with the option \<open>Simplify\<close> or without it.\<close>

definition simplified :: "bool \<Rightarrow> grammar \<Rightarrow> grammar" where
  "simplified simplify g =
     (if simplify then simplifyToFixedPoint (simplifyGrammar AllTransforms) writeGrammar g else g)"

end
