(* ===== verification/Abnf_Minify_Correct.thy ===== *)
theory Abnf_Minify_Correct
  imports Abnf_Minify
begin

text \<open>
  Simplification keeps the language: each rewriting step derives the same words (\<open>same_words\<close> and
  its kin), the rules of a simplified grammar have the meaning of the original ones in any grammar,
  and two grammars whose rules agree in that sense derive the same words. The one exception is a
  range of a single surrogate, which matches nothing while the series it becomes matches the
  encoding of U+FFFD; \<open>scalar_ranges\<close> excludes it.
\<close>

section \<open>Literals\<close>

lemma ascii_lower_cases: "ascii_lower b = (if isAsciiLetter (unat b) \<and> unat b < 0x60 then b + 32 else b)"
  by (auto simp: ascii_lower_def upper_byte_def isAsciiLetter_def word_le_nat_alt)

lemma unat_lower: "isAsciiLetter (unat b) \<Longrightarrow> unat b < 0x60 \<Longrightarrow> unat (b + 32) = unat b + 32" for b :: byte
  by (auto simp: isAsciiLetter_def unat_word_ariths)

lemma same_char_exact:
  assumes "sensitive \<or> \<not> isAsciiLetter (unat c)"
  shows "same_char sensitive b c \<longleftrightarrow> b = c"
proof (cases sensitive)
  case False
  then have c: "ascii_lower c = c" using assms by (auto simp: ascii_lower_cases)
  have "b = c" if "ascii_lower b = c"
  proof (rule ccontr)
    assume "b \<noteq> c"
    then have b: "isAsciiLetter (unat b)" "unat b < 0x60" "c = b + 32"
      using that by (auto simp: ascii_lower_cases split: if_splits)
    then have "unat c = unat b + 32" using unat_lower by simp
    then show False using b assms False by (auto simp: isAsciiLetter_def)
  qed
  then show ?thesis using False c by (auto simp: same_char_def)
qed (simp add: same_char_def)

lemma char_val_exact:
  assumes "sensitive \<or> \<not> has_letter v"
  shows "list_all2 (same_char sensitive) w v \<longleftrightarrow> w = v"
proof -
  have "list_all2 (same_char sensitive) w v \<longleftrightarrow> list_all2 (=) w v"
    by (rule list.rel_cong_simp) (use assms same_char_exact in \<open>auto simp: has_letter_def list_ex_iff simp_implies_def\<close>)
  then show ?thesis by (simp add: list.rel_eq)
qed

lemma derives_char: "derives g (CharValElement sensitive v) w \<longleftrightarrow> list_all2 (same_char sensitive) w v"
  by (auto elim: derives_charE intro: derives.char_val)

lemma derives_series: "derives g (NumValElement base NumValStatusSeries vs) w \<longleftrightarrow> series_lang base vs w"
  by (auto simp: series_lang_def elim: derives_seriesE intro: derives.num_series)

lemma derives_group: "derives g (GroupElement a) w \<longleftrightarrow> alt_lang (derives g) a w"
  by (auto elim: derives_groupE intro: derives.group)

lemma derives_option: "derives g (OptionElement a) w \<longleftrightarrow> w = [] \<or> alt_lang (derives g) a w"
  by (auto elim: derives_optionE intro: derives.option_none derives.option_some)

text \<open>Sensitivity matters to letters only.\<close>

lemma char_val_sensitive:
  assumes "has_letter v \<Longrightarrow> sensitive = sensitive'"
  shows "list_all2 (same_char sensitive) w v \<longleftrightarrow> list_all2 (same_char sensitive') w v"
  using assms by (cases "has_letter v") (auto simp: char_val_exact)

lemma parse_values_iff: "parse_values base vs = Some rs \<longleftrightarrow> list_all2 (\<lambda>v r. ParseNumVal v base = Some r) vs rs"
  by (induction vs arbitrary: rs) (auto simp: list_all2_Cons1 split: option.splits)

lemma series_values: "parse_values base vs = Some rs \<Longrightarrow> series_lang base vs w \<longleftrightarrow> w = concat (map rune_string rs)"
  unfolding series_lang_def parse_values_iff [symmetric] by auto

lemma range_values:
  assumes "parse_values base [v0, v1] = Some [r, r]" "scalar r"
  shows "derives g (NumValElement base NumValStatusRange [v0, v1]) w \<longleftrightarrow> w = encode_rune r"
proof -
  have "ParseNumVal v0 base = Some r" "ParseNumVal v1 base = Some r"
    using assms(1) by (auto split: option.splits)
  then show ?thesis using assms(2)
    by (auto elim!: derives_rangeE intro!: derives.num_range)
qed

definition scalar_range :: "bytes \<Rightarrow> num_val_status \<Rightarrow> bytes list \<Rightarrow> bool" where
  "scalar_range base status vs \<longleftrightarrow>
     (status = NumValStatusRange \<longrightarrow>
        (case parse_values base vs of Some [r, s] \<Rightarrow> r = s \<longrightarrow> scalar r | _ \<Rightarrow> True))"

lemma simplifyNumVal_words:
  assumes "scalar_range base status vs"
  shows "derives g (simplifyNumVal base status vs) w \<longleftrightarrow> derives g (NumValElement base status vs) w"
proof (cases "parse_values base vs")
  case None
  then show ?thesis by (simp add: simplifyNumVal_def Let_def)
next
  case (Some rs)
  note vals = this [unfolded parse_values_iff]
  show ?thesis
  proof (cases status)
    case NumValStatusRange
    show ?thesis
    proof (cases "vs \<noteq> [] \<and> length rs = 2 \<and> rs ! 0 = rs ! 1")
      case True
      then obtain r where rs: "rs = [r, r]" by (cases rs; cases "tl rs") auto
      with vals obtain v0 v1 where v: "vs = [v0, v1]" "ParseNumVal v0 base = Some r"
        by (auto simp: list_all2_Cons2)
      then have "scalar r" using assms NumValStatusRange Some rs by (auto simp: scalar_range_def)
      then show ?thesis using Some v rs NumValStatusRange range_values [of base v0 v1 r g w]
        by (simp add: simplifyNumVal_def derives_series series_lang_simps rune_string_def)
    next
      case False
      then show ?thesis using Some NumValStatusRange by (auto simp: simplifyNumVal_def Let_def)
    qed
  next
    case NumValStatusSeries
    let ?v = "concat (map rune_string rs)"
    have "derives g (CharValElement (has_letter ?v) ?v) w \<longleftrightarrow> w = ?v"
      by (auto simp: derives_char char_val_exact)
    then show ?thesis using Some NumValStatusSeries
      by (auto simp: simplifyNumVal_def Let_def derives_series series_values)
  qed
qed

section \<open>Merging\<close>

lemma base_lower:
  "base = str ''B'' \<or> base = str ''b'' \<longleftrightarrow> ToLower base = str ''b''"
  "base = str ''D'' \<or> base = str ''d'' \<longleftrightarrow> ToLower base = str ''d''"
  "base = str ''X'' \<or> base = str ''x'' \<longleftrightarrow> ToLower base = str ''x''"
proof -
  have l: "ascii_lower b = c \<longleftrightarrow> b = c - 32 \<or> b = c" if "lower_byte c" for b c
  proof
    assume "ascii_lower b = c"
    then show "b = c - 32 \<or> b = c" by (auto simp: ascii_lower_def split: if_splits)
  next
    assume "b = c - 32 \<or> b = c"
    then show "ascii_lower b = c"
    proof
      assume b: "b = c - 32"
      have "unat c - 32 = unat b" "97 \<le> unat c" "unat c \<le> 122"
        using that by (auto simp: b lower_byte_def word_le_nat_alt unat_sub)
      then have "upper_byte b" by (auto simp: upper_byte_def word_le_nat_alt)
      then show ?thesis by (simp add: ascii_lower_def b)
    next
      assume "b = c"
      then show ?thesis using that
        by (auto simp: ascii_lower_def upper_byte_def lower_byte_def word_le_nat_alt)
    qed
  qed
  have one: "ToLower base = [c] \<longleftrightarrow> base = [c - 32] \<or> base = [c]" if "lower_byte c" for c
    using l [OF that] by (cases base; cases "tl base") (auto simp: ToLower_def)
  show "base = str ''B'' \<or> base = str ''b'' \<longleftrightarrow> ToLower base = str ''b''"
    using one [of 98] by (simp add: lower_byte_def)
  show "base = str ''D'' \<or> base = str ''d'' \<longleftrightarrow> ToLower base = str ''d''"
    using one [of 100] by (simp add: lower_byte_def)
  show "base = str ''X'' \<or> base = str ''x'' \<longleftrightarrow> ToLower base = str ''x''"
    using one [of 120] by (simp add: lower_byte_def)
qed

lemma ParseNumVal_base: "ToLower b = ToLower c \<Longrightarrow> ParseNumVal v b = ParseNumVal v c"
  unfolding ParseNumVal_def base_lower by simp

lemma series_lang_append:
  "series_lang base (vs @ us) w \<longleftrightarrow> (\<exists>x y. w = x @ y \<and> series_lang base vs x \<and> series_lang base us y)"
proof (induction vs arbitrary: w)
  case (Cons v vs)
  show ?case unfolding append_Cons series_lang_simps Cons.IH by (auto, metis append.assoc, metis append.assoc)
qed (simp add: series_lang_simps)

lemma series_lang_base: "ToLower b = ToLower c \<Longrightarrow> series_lang b vs w \<longleftrightarrow> series_lang c vs w"
  by (simp add: series_lang_def ParseNumVal_base [of b c])

lemma mergeElements_words:
  assumes "mergeElements left right = Some e"
  shows "derives g e w \<longleftrightarrow> (\<exists>u v. w = u @ v \<and> derives g left u \<and> derives g right v)"
proof (cases left)
  case (CharValElement ls lv)
  then obtain rs rv where right: "right = CharValElement rs rv"
    and ok: "\<not> (has_letter lv \<and> has_letter rv \<and> ls \<noteq> rs)"
    and e: "e = CharValElement (has_letter lv \<and> ls \<or> has_letter rv \<and> rs) (lv @ rv)"
    using assms by (auto simp: mergeElements_def Let_def split: element.splits if_splits)
  let ?s = "has_letter lv \<and> ls \<or> has_letter rv \<and> rs"
  have "derives g e w \<longleftrightarrow> (\<exists>u v. w = u @ v \<and> list_all2 (same_char ?s) u lv \<and> list_all2 (same_char ?s) v rv)"
    unfolding e derives_char using list_all2_append2 [of "same_char ?s" w lv rv]
    by (blast intro: list_all2_appendI)
  moreover have "list_all2 (same_char ?s) u lv \<longleftrightarrow> list_all2 (same_char ls) u lv" for u
    by (rule char_val_sensitive) (use ok in auto)
  moreover have "list_all2 (same_char ?s) v rv \<longleftrightarrow> list_all2 (same_char rs) v rv" for v
    by (rule char_val_sensitive) (use ok in auto)
  ultimately show ?thesis by (simp add: CharValElement right derives_char)
next
  case (NumValElement lb ls lv)
  then obtain rb rs rv where "right = NumValElement rb NumValStatusSeries rv" "ls = NumValStatusSeries"
    "ToLower lb = ToLower rb" "e = NumValElement lb NumValStatusSeries (lv @ rv)"
    using assms by (auto simp: mergeElements_def split: element.splits if_splits)
  then show ?thesis using NumValElement
    by (simp add: derives_series series_lang_append series_lang_base [of lb rb])
qed (use assms in \<open>simp_all add: mergeElements_def\<close>)

lemma seq_lang_append:
  "seq_lang L (rs @ qs) w \<longleftrightarrow> (\<exists>u v. w = u @ v \<and> seq_lang L rs u \<and> seq_lang L qs v)"
proof (induction rs arbitrary: w)
  case (Cons r rs)
  show ?case unfolding append_Cons seq_lang.simps Cons.IH by (auto, metis append.assoc, metis append.assoc)
qed simp

lemma seq_lang_one: "seq_lang L [r] w \<longleftrightarrow> rep_lang L r w"
  by simp

lemma rep_lang_single: "isSingle r \<Longrightarrow> rep_lang L r w \<longleftrightarrow> L (Element r) w"
proof -
  assume s: "isSingle r"
  have "Min r \<le> int k \<and> (Max r = Inf \<or> int k \<le> Max r) \<longleftrightarrow> k = Suc 0" for k
    using s by (auto simp: isSingle_def Inf_def)
  then have "rep_lang L r w \<longleftrightarrow> (\<exists>k. k = Suc 0 \<and> copies (L (Element r)) k w)"
    unfolding rep_lang_def by (simp only: conj_assoc [symmetric])
  then show ?thesis by simp
qed

lemma seq_lang_cong_tail:
  "(\<And>w. seq_lang L qs w \<longleftrightarrow> seq_lang L qs' w) \<Longrightarrow> seq_lang L (rs @ qs) w \<longleftrightarrow> seq_lang L (rs @ qs') w"
  by (simp add: seq_lang_append)

lemma merged_num_val_words:
  fixes T
  assumes "mergeElements left right = Some e"
  defines "e' \<equiv> (case e of
      NumValElement base status vs \<Rightarrow> if enabled T TransformNumVal then simplifyNumVal base status vs else e
    | _ \<Rightarrow> e)"
  shows "derives g e' w \<longleftrightarrow> derives g e w"
proof (cases e)
  case (NumValElement base status vs)
  then have "status = NumValStatusSeries" using assms(1)
    by (auto simp: mergeElements_def Let_def split: element.splits if_splits)
  then show ?thesis using simplifyNumVal_words [of base status vs g w]
    by (simp add: e'_def NumValElement scalar_range_def)
qed (simp_all add: e'_def)

lemma merge_loop_words: "seq_lang (derives g) (merge_loop T merged rs) w \<longleftrightarrow> seq_lang (derives g) (merged @ rs) w"
proof (induction T merged rs arbitrary: w rule: merge_loop.induct)
  case (2 T merged r rs)
  show ?case
  proof (cases "merged \<noteq> [] \<and> isSingle r \<and> isSingle (last merged)")
    case False
    then show ?thesis unfolding merge_loop.simps if_not_P [OF False] using 2(3) [OF False] by simp
  next
    case True
    show ?thesis
    proof (cases "mergeElements (Element (last merged)) (Element r)")
      case None
      then show ?thesis using 2(1) [OF True None] True by simp
    next
      case (Some e)
      define e' where "e' = (case e of
        NumValElement base status vs \<Rightarrow> if enabled T TransformNumVal then simplifyNumVal base status vs else e
        | _ \<Rightarrow> e)"
      have m: "merged = butlast merged @ [last merged]" using True by simp
      have "seq_lang (derives g) (merge_loop T merged (r # rs)) w \<longleftrightarrow>
          seq_lang (derives g) (butlast merged @ Repetition 1 1 e' # rs) w"
        using 2(2) [OF True Some e'_def] True Some by (simp add: e'_def Let_def)
      also have "\<dots> \<longleftrightarrow> seq_lang (derives g) (butlast merged @ last merged # r # rs) w"
      proof (rule seq_lang_cong_tail)
        fix w
        have "derives g e' x \<longleftrightarrow> (\<exists>u v. x = u @ v \<and> rep_lang (derives g) (last merged) u \<and> rep_lang (derives g) r v)" for x
          using merged_num_val_words [OF Some, where T = T and g = g] mergeElements_words [OF Some, where g = g] True
          by (simp add: e'_def rep_lang_single)
        then show "seq_lang (derives g) (Repetition 1 1 e' # rs) w \<longleftrightarrow> seq_lang (derives g) (last merged # r # rs) w"
          by (auto simp: rep_lang_single isSingle_def) (metis append.assoc)+
      qed
      finally show ?thesis by (metis m append.assoc append_Cons append_Nil)
    qed
  qed
qed simp

lemma mergeLiterals_words: "seq_lang (derives g) (mergeLiterals T rs) w \<longleftrightarrow> seq_lang (derives g) rs w"
  by (simp add: mergeLiterals_def merge_loop_words)

section \<open>Groups\<close>

lemma seq_lang_concat_map:
  "(\<And>r w. r \<in> set rs \<Longrightarrow> seq_lang L (f r) w \<longleftrightarrow> rep_lang L r w) \<Longrightarrow>
   seq_lang L (concat (map f rs)) w \<longleftrightarrow> seq_lang L rs w"
  by (induction rs arbitrary: w) (auto simp: seq_lang_append)

lemma soleElement_words:
  assumes "soleElement a = Some e" shows "alt_lang L a w \<longleftrightarrow> L e w"
proof -
  obtain c r where "Concatenations a = [c]" "Repetitions c = [r]" "isSingle r" "e = Element r"
    using assms by (auto simp: soleElement_def split: list.splits if_splits)
  then show ?thesis by (simp add: alt_lang_def rep_lang_single)
qed

lemma soleGroup_words:
  assumes "soleGroup T c = Some a"
  shows "seq_lang (derives g) (Repetitions c) w \<longleftrightarrow> alt_lang (derives g) a w"
proof -
  obtain r where "Repetitions c = [r]" "isSingle r" "Element r = GroupElement a"
    using assms by (auto simp: soleGroup_def split: list.splits if_splits element.splits)
  then show ?thesis by (simp add: rep_lang_single derives_group)
qed

lemma inline_group_words: "seq_lang (derives g) (inline_group T r) w \<longleftrightarrow> rep_lang (derives g) r w"
proof (cases "inline_group T r = [r]")
  case False
  then obtain a c where "isSingle r" "Element r = GroupElement a" "Concatenations a = [c]"
    "inline_group T r = Repetitions c"
    by (auto simp: inline_group_def split: element.splits list.splits if_splits)
  then show ?thesis by (simp add: rep_lang_single derives_group alt_lang_def)
qed simp

lemma rep_lang_element:
  assumes "\<And>w. L e w \<longleftrightarrow> L e' w"
  shows "rep_lang L (Repetition mn mx e) w \<longleftrightarrow> rep_lang L (Repetition mn mx e') w"
proof -
  have "L e = L e'" using assms by blast
  then show ?thesis by (simp add: rep_lang_def)
qed

section \<open>Simplification\<close>

fun scalar_ranges :: "element \<Rightarrow> bool"
  and scalar_ranges_alt :: "alternation \<Rightarrow> bool"
  and scalar_ranges_cat :: "concatenation \<Rightarrow> bool"
  and scalar_ranges_rep :: "repetition \<Rightarrow> bool"
where
  "scalar_ranges (GroupElement a) = scalar_ranges_alt a"
| "scalar_ranges (OptionElement a) = scalar_ranges_alt a"
| "scalar_ranges (NumValElement base status vs) = scalar_range base status vs"
| "scalar_ranges e = True"
| "scalar_ranges_alt (Alternation cs) = (\<forall>c \<in> set cs. scalar_ranges_cat c)"
| "scalar_ranges_cat (Concatenation rs) = (\<forall>r \<in> set rs. scalar_ranges_rep r)"
| "scalar_ranges_rep (Repetition mn mx e) = scalar_ranges e"

lemma scalar_ranges_rep_element [simp]: "scalar_ranges_rep r \<longleftrightarrow> scalar_ranges (Element r)"
  by (cases r) simp

lemma scalar_ranges_cat_all [simp]: "scalar_ranges_cat c \<longleftrightarrow> (\<forall>r \<in> set (Repetitions c). scalar_ranges (Element r))"
  by (cases c) simp

lemma scalar_ranges_alt_all [simp]: "scalar_ranges_alt a \<longleftrightarrow> (\<forall>c \<in> set (Concatenations a). scalar_ranges_cat c)"
  by (cases a) simp

declare scalar_ranges_alt.simps [simp del] scalar_ranges_cat.simps [simp del] scalar_ranges_rep.simps [simp del]

lemma simplify_words:
  "scalar_ranges_alt a \<Longrightarrow> alt_lang (derives g) (simplifyAlternation T a) w \<longleftrightarrow> alt_lang (derives g) a w"
  "scalar_ranges_cat c \<Longrightarrow>
     seq_lang (derives g) (Repetitions (simplifyConcatenation T c)) w \<longleftrightarrow> seq_lang (derives g) (Repetitions c) w"
  "scalar_ranges_rep r \<Longrightarrow> rep_lang (derives g) (simplifyRepetition T r) w \<longleftrightarrow> rep_lang (derives g) r w"
proof (induction T a and T c and T r arbitrary: w and w and w
    rule: simplifyAlternation_simplifyConcatenation_simplifyRepetition.induct)
  case (1 T cs)
  have c: "(\<exists>d \<in> set (case soleGroup T (simplifyConcatenation T c) of
        Some a \<Rightarrow> Concatenations a | None \<Rightarrow> [simplifyConcatenation T c]). seq_lang (derives g) (Repetitions d) w) \<longleftrightarrow>
      seq_lang (derives g) (Repetitions c) w" if "c \<in> set cs" for c
    using 1 that soleGroup_words [of T "simplifyConcatenation T c" _ g w]
    by (auto simp: alt_lang_def split: option.split)
  show ?case unfolding alt_lang_def simplifyAlternation.simps alternation.sel using c by (auto simp: Let_def)
next
  case (2 T rs)
  then show ?case
    by (simp add: mergeLiterals_words seq_lang_concat_map [of rs "derives g"] inline_group_words)
next
  case (3 T mn mx e)
  show ?case
  proof (cases e)
    case (GroupElement a)
    have IH: "alt_lang (derives g) (simplifyAlternation T a) w \<longleftrightarrow> alt_lang (derives g) a w" for w
      using 3 GroupElement by simp
    show ?thesis
    proof (cases "if enabled T TransformGroup then soleElement (simplifyAlternation T a) else None")
      case None
      then have "simplifyRepetition T (Repetition mn mx e) = Repetition mn mx (GroupElement (simplifyAlternation T a))"
        by (auto simp: GroupElement Let_def split: if_splits option.split)
      then show ?thesis
        using rep_lang_element [of "derives g" "GroupElement (simplifyAlternation T a)" e] IH
        by (simp add: GroupElement derives_group)
    next
      case (Some f)
      then have "simplifyRepetition T (Repetition mn mx e) = Repetition mn mx f"
        and f: "soleElement (simplifyAlternation T a) = Some f" by (auto simp: GroupElement Let_def split: if_splits)
      then show ?thesis
        using rep_lang_element [of "derives g" f e] IH soleElement_words [OF f, of "derives g"]
        by (simp add: GroupElement derives_group)
    qed
  next
    case (OptionElement a)
    then show ?thesis using 3 rep_lang_element [of "derives g" "OptionElement (simplifyAlternation T a)" e]
      by (simp add: derives_option)
  next
    case (NumValElement base status vs)
    then show ?thesis
      using 3 simplifyNumVal_words [of base status vs g] rep_lang_element [of "derives g" "simplifyNumVal base status vs" e]
      by simp
  qed simp_all
qed

text \<open>Simplification introduces no range, so it can be repeated.\<close>

lemma simplifyNumVal_scalar: "scalar_range base status vs \<Longrightarrow> scalar_ranges (simplifyNumVal base status vs)"
  by (auto simp: simplifyNumVal_def Let_def scalar_range_def split: option.split)

lemma mergeElements_scalar: "mergeElements left right = Some e \<Longrightarrow> scalar_ranges e"
  by (auto simp: mergeElements_def Let_def scalar_range_def split: element.splits if_splits)

lemma merge_loop_scalar:
  "\<forall>r \<in> set merged \<union> set rs. scalar_ranges (Element r) \<Longrightarrow>
   \<forall>r \<in> set (merge_loop T merged rs). scalar_ranges (Element r)"
proof (induction T merged rs rule: merge_loop.induct)
  case (2 T merged r rs)
  show ?case
  proof (cases "merged \<noteq> [] \<and> isSingle r \<and> isSingle (last merged)")
    case False
    then show ?thesis unfolding merge_loop.simps if_not_P [OF False] using 2(3) [OF False] 2(4) by simp
  next
    case True
    show ?thesis
    proof (cases "mergeElements (Element (last merged)) (Element r)")
      case None
      then show ?thesis using 2(1) [OF True None] 2(4) True by simp
    next
      case (Some e)
      define e' where "e' = (case e of
        NumValElement base status vs \<Rightarrow> if enabled T TransformNumVal then simplifyNumVal base status vs else e
        | _ \<Rightarrow> e)"
      have "scalar_ranges e" using mergeElements_scalar [OF Some] .
      then have "scalar_ranges e'" by (auto simp: e'_def simplifyNumVal_scalar split: element.split)
      then show ?thesis using 2(2) [OF True Some e'_def] 2(4) True Some
        by (auto simp: e'_def Let_def dest: in_set_butlastD)
    qed
  qed
qed simp

lemma inline_group_scalar:
  "scalar_ranges (Element r) \<Longrightarrow> \<forall>q \<in> set (inline_group T r). scalar_ranges (Element q)"
  by (auto simp: inline_group_def split: element.splits list.splits)

lemma soleElement_scalar: "soleElement a = Some e \<Longrightarrow> scalar_ranges_alt a \<Longrightarrow> scalar_ranges e"
  by (auto simp: soleElement_def split: list.splits if_splits)

lemma soleGroup_scalar: "soleGroup T c = Some a \<Longrightarrow> scalar_ranges_cat c \<Longrightarrow> scalar_ranges_alt a"
  by (auto simp: soleGroup_def split: list.splits if_splits element.splits)

lemma simplify_scalar:
  "scalar_ranges_alt a \<Longrightarrow> scalar_ranges_alt (simplifyAlternation T a)"
  "scalar_ranges_cat c \<Longrightarrow> scalar_ranges_cat (simplifyConcatenation T c)"
  "scalar_ranges_rep r \<Longrightarrow> scalar_ranges_rep (simplifyRepetition T r)"
proof (induction T a and T c and T r rule: simplifyAlternation_simplifyConcatenation_simplifyRepetition.induct)
  case (1 T cs)
  have "scalar_ranges_cat d" if "c \<in> set cs" "d \<in> set (case soleGroup T (simplifyConcatenation T c) of
        Some a \<Rightarrow> Concatenations a | None \<Rightarrow> [simplifyConcatenation T c])" for c d
    using that 1 soleGroup_scalar [of T "simplifyConcatenation T c"] by (auto split: option.splits)
  then show ?case by (fastforce simp: Let_def)
next
  case (2 T rs)
  have "\<forall>q \<in> set (inline_group T (simplifyRepetition T r)). scalar_ranges (Element q)" if "r \<in> set rs" for r
    using 2 that by (intro inline_group_scalar) auto
  then have "\<forall>r \<in> set [] \<union> set (concat (map (\<lambda>r. inline_group T (simplifyRepetition T r)) rs)). scalar_ranges (Element r)"
    by auto
  from merge_loop_scalar [OF this, of T] this show ?case by (simp add: mergeLiterals_def)
next
  case (3 T mn mx e)
  show ?case
  proof (cases e)
    case (GroupElement a)
    have IH: "scalar_ranges_alt (simplifyAlternation T a)" using 3 GroupElement by simp
    then show ?thesis using soleElement_scalar [OF _ IH]
      by (auto simp: GroupElement Let_def simp del: scalar_ranges_alt_all split: option.split)
  next
    case (OptionElement a)
    then show ?thesis using 3 by (simp del: scalar_ranges_alt_all)
  next
    case (NumValElement base status vs)
    then show ?thesis using 3 by (simp add: simplifyNumVal_scalar)
  qed simp_all
qed

section \<open>Grammars\<close>

text \<open>Two grammars whose rules mean the same in every grammar.\<close>

definition same_rules :: "grammar \<Rightarrow> grammar \<Rightarrow> bool" where
  "same_rules g h \<longleftrightarrow>
     (\<forall>name r. getRule name g = Some r \<longrightarrow>
        (\<exists>q. getRule name h = Some q \<and>
           (\<forall>f w. alt_lang (derives f) (rule_alternation r) w \<longrightarrow> alt_lang (derives f) (rule_alternation q) w)))"

lemma same_rules_derives: "derives g e w \<Longrightarrow> same_rules g h \<Longrightarrow> derives h e w"
proof (induction rule: derives.induct)
  case (rulename name r w)
  then obtain q where q: "getRule name h = Some q"
    "\<forall>f w. alt_lang (derives f) (rule_alternation r) w \<longrightarrow> alt_lang (derives f) (rule_alternation q) w"
    unfolding same_rules_def by blast
  have "alt_lang (derives h) (rule_alternation r) w"
    using alt_lang_mono [of _ "derives h", THEN mp, OF _ rulename(2)] rulename(3) by blast
  then show ?case using q by (auto intro: derives.rulename)
next
  case (group a w)
  then show ?case using alt_lang_mono [of _ "derives h", THEN mp, OF _ group(1)] by (auto intro: derives.group)
next
  case (option_some a w)
  then show ?case using alt_lang_mono [of _ "derives h", THEN mp, OF _ option_some(1)] by (auto intro: derives.option_some)
next
  case (list mn mx e x w)
  then show ?case using alt_lang_mono [of _ "derives h", THEN mp, OF _ list(1)] by (auto intro: derives.list)
qed (auto intro: derives.intros)

definition indexed :: "grammar \<Rightarrow> bool" where
  "indexed g \<longleftrightarrow> (\<forall>key i. Rulemap g key = Some i \<longrightarrow> i < length (Rules g))"

text \<open>Rewriting the right-hand side of every rule to one that means the same in every grammar.\<close>

lemma rewrite_words:
  assumes "indexed g"
    and F: "\<And>r f w. r \<in> set (Rules g) \<Longrightarrow>
      alt_lang (derives f) (F (rule_alternation r)) w \<longleftrightarrow> alt_lang (derives f) (rule_alternation r) w"
  shows "derives (g\<lparr>Rules := map (\<lambda>r. r\<lparr>rule_alternation := F (rule_alternation r)\<rparr>) (Rules g)\<rparr>) e w \<longleftrightarrow> derives g e w"
proof -
  let ?h = "g\<lparr>Rules := map (\<lambda>r. r\<lparr>rule_alternation := F (rule_alternation r)\<rparr>) (Rules g)\<rparr>"
  have rules: "rel_option (\<lambda>r q. \<forall>f w. alt_lang (derives f) (rule_alternation q) w \<longleftrightarrow> alt_lang (derives f) (rule_alternation r) w)
      (getRule name g) (getRule name ?h)" for name
  proof (cases "Rulemap g (ToLower name)")
    case None
    then show ?thesis by (auto simp: getRule_def option.rel_refl)
  next
    case (Some i)
    then have "i < length (Rules g)" using assms(1) by (simp add: indexed_def)
    then show ?thesis using Some F [OF nth_mem] by (simp add: getRule_def)
  qed
  have "same_rules g ?h"
    unfolding same_rules_def
  proof (intro allI impI)
    fix name r assume "getRule name g = Some r"
    with rules [of name] obtain q where q: "getRule name ?h = Some q"
      "\<forall>f w. alt_lang (derives f) (rule_alternation q) w \<longleftrightarrow> alt_lang (derives f) (rule_alternation r) w"
      by (auto simp only: option_rel_Some1)
    then show "\<exists>q. getRule name ?h = Some q \<and>
      (\<forall>f w. alt_lang (derives f) (rule_alternation r) w \<longrightarrow> alt_lang (derives f) (rule_alternation q) w)"
      by blast
  qed
  moreover have "same_rules ?h g"
    unfolding same_rules_def
  proof (intro allI impI)
    fix name q assume "getRule name ?h = Some q"
    with rules [of name] obtain r where "getRule name g = Some r"
      "\<forall>f w. alt_lang (derives f) (rule_alternation q) w \<longleftrightarrow> alt_lang (derives f) (rule_alternation r) w"
      by (auto simp only: option_rel_Some2)
    then show "\<exists>r. getRule name g = Some r \<and>
      (\<forall>f w. alt_lang (derives f) (rule_alternation q) w \<longrightarrow> alt_lang (derives f) (rule_alternation r) w)"
      by blast
  qed
  ultimately show ?thesis using same_rules_derives by blast
qed

definition scalar_grammar :: "grammar \<Rightarrow> bool" where
  "scalar_grammar g \<longleftrightarrow> list_all (\<lambda>r. scalar_ranges_alt (rule_alternation r)) (Rules g)"

lemma simplifyGrammar_ok:
  "scalar_grammar g \<Longrightarrow> scalar_grammar (simplifyGrammar T g)"
  "indexed g \<Longrightarrow> indexed (simplifyGrammar T g)"
  by (auto simp: scalar_grammar_def list_all_iff simplifyGrammar_def simplifyRule_def indexed_def
    simplify_scalar simp del: scalar_ranges_alt_all)

lemma simplifyGrammar_words:
  assumes "scalar_grammar g" "indexed g"
  shows "derives (simplifyGrammar T g) e w \<longleftrightarrow> derives g e w"
proof -
  have "scalar_ranges_alt (rule_alternation r)" if "r \<in> set (Rules g)" for r
    using assms(1) that by (simp add: scalar_grammar_def list_all_iff del: scalar_ranges_alt_all)
  then have "derives (g\<lparr>Rules := map (\<lambda>r. r\<lparr>rule_alternation := simplifyAlternation T (rule_alternation r)\<rparr>) (Rules g)\<rparr>) e w
      \<longleftrightarrow> derives g e w"
    by (intro rewrite_words assms(2) simplify_words(1))
  then show ?thesis by (simp add: simplifyGrammar_def simplifyRule_def [abs_def])
qed

lemma simplify_passes_words:
  assumes "scalar_grammar g" "indexed g"
  shows "derives (simplify_passes n (simplifyGrammar T) render previous g) e w \<longleftrightarrow> derives g e w"
  using assms
proof (induction n arbitrary: g previous)
  case (Suc n)
  then show ?case using simplifyGrammar_ok simplifyGrammar_words by (simp add: Let_def)
qed simp

end
