(* ===== verification/Abnf_Minify_Properties.thy ===== *)
theory Abnf_Minify_Properties
  imports Abnf_Minify_Correct
begin

text \<open>
  What the minification of \<open>src/pkg/abnf/minify\<close> promises, that the simplified grammar matches what
  the original one matches, and the two cases in which the definition it writes does not.
\<close>

lemma simplified_language:
  assumes "scalar_grammar g" "indexed g"
  shows "derives (simplified simplify g) e w \<longleftrightarrow> derives g e w"
  by (simp add: simplified_def simplifyToFixedPoint_def simplify_passes_words assms)

text \<open>A range of one surrogate matches nothing, but the series that the simplification makes of
  it matches the encoding of U+FFFD.\<close>

lemma minify_surrogate_range:
  "(\<nexists>w. derives g (numRange ''x'' ''D800'' ''D800'') w) \<and>
   derives g (simplifyNumVal (str ''x'') NumValStatusRange [str ''D800'', str ''D800'']) [0xEF, 0xBF, 0xBD]"
proof
  have v: "ParseNumVal (str ''D800'') (str ''x'') = Some 0xD800"
    by (simp add: ParseNumVal_def ParseUint32_def digit_of_def digit_byte_def lower_byte_def ascii_lower_def
      upper_byte_def MaxRune_def)
  show "\<nexists>w. derives g (numRange ''x'' ''D800'' ''D800'') w"
    using v by (auto simp: numRange_def scalar_def elim!: derives_rangeE)
  have "parse_values (str ''x'') [str ''D800'', str ''D800''] = Some [0xD800, 0xD800]"
    unfolding parse_values.simps v by simp
  then have "simplifyNumVal (str ''x'') NumValStatusRange [str ''D800'', str ''D800''] =
      NumValElement (str ''x'') NumValStatusSeries [str ''D800'']"
    by (simp add: simplifyNumVal_def)
  moreover have "series_lang (str ''x'') [str ''D800''] (rune_string 0xD800)"
    unfolding series_lang_simps v by simp
  moreover have "rune_string 0xD800 = [0xEF, 0xBF, 0xBD]"
    by (simp add: rune_string_def scalar_def MaxRune_def RuneError_def encode_rune_def encode_nats_def)
  ultimately show "derives g (simplifyNumVal (str ''x'') NumValStatusRange [str ''D800'', str ''D800''])
      [0xEF, 0xBF, 0xBD]" by (simp only: derives_series)
qed

text \<open>A list operator of \<open>"b"\<close>, as parsed.\<close>

definition b_list :: "int \<Rightarrow> element" where
  "b_list n = ListElement n Inf (str_val ''b'') (Some (expandList n Inf (str_val ''b'')))"

lemma separated_comma:
  assumes "copies (derives g (grp [cat [one (ref ruleNameOws), one (str_val '',''), one (ref ruleNameOws), one e]])) k w"
    and "0 < k"
  shows "0x2C \<in> set w"
proof -
  have comma: "derives g (str_val '','') u \<Longrightarrow> u = [0x2C]" for u
    using char_val_exact [of False "str '',''" u]
    by (simp add: str_val_def derives_char has_letter_def isAsciiLetter_def)
  from assms obtain u v where "w = u @ v" "derives g (grp [cat [one (ref ruleNameOws), one (str_val '',''),
      one (ref ruleNameOws), one e]]) u" by (cases k) auto
  then obtain x y z where w: "w = x @ y @ z" and y: "derives g (str_val '','') y"
    by (auto simp: grp_def alt_def cat_def one_def rep_def derives_group alt_lang_def rep_lang_single isSingle_def)
  from comma [OF y] show ?thesis unfolding w by simp
qed

text \<open>The parentheses around a list operator are dropped, so its minimum merges with the count in
  front: \<open>a=2(1#"b")\<close> and \<open>a=21#"b"\<close> are both written \<open>a=21#"b"\<close>, although only the first
  matches \<open>bb\<close>.\<close>

lemma minify_list_count:
  "RenderRule (newRule ''a'' [cat [rep 2 2 (grp [cat [one (b_list 1)]])]]) AllTransforms =
     RenderRule (newRule ''a'' [cat [one (b_list 21)]]) AllTransforms \<and>
   alt_lang (derives g) (rule_alternation (newRule ''a'' [cat [rep 2 2 (grp [cat [one (b_list 1)]])]])) (str ''bb'') \<and>
   \<not> alt_lang (derives g) (rule_alternation (newRule ''a'' [cat [one (b_list 21)]])) (str ''bb'')"
proof (intro conjI)
  let ?b = "str_val ''b''"
  show "RenderRule (newRule ''a'' [cat [rep 2 2 (grp [cat [one (b_list 1)]])]]) AllTransforms =
     RenderRule (newRule ''a'' [cat [one (b_list 21)]]) AllTransforms" by code_simp
  have zero: "rep_lang (derives g) (rep 0 Inf e) []" for e
    by (auto simp: rep_lang_def rep_def intro: exI [of _ 0])
  have one: "rep_lang (derives g) (one e) w \<longleftrightarrow> derives g e w" for e w
    by (simp add: one_def rep_def rep_lang_single isSingle_def)
  have "derives g ?b (str ''b'')" by (auto simp: str_val_def derives_char same_char_def)
  then have b1: "rep_lang (derives g) (one ?b) (str ''b'')" by (simp only: one)
  have cons: "seq_lang L (r # rs) (u @ v)" if "rep_lang L r u" "seq_lang L rs v" for L r rs u v
    using that by auto
  have "seq_lang (derives g) [rep 0 Inf x, one ?b, rep 0 Inf y] (str ''b'')" for x y
    using cons [OF zero cons [OF b1 cons [OF zero seq_lang.simps(1) [THEN iffD2, OF refl]]]] by simp
  then have b: "derives g (b_list 1) (str ''b'')"
    by (auto simp: b_list_def list_alternation_def expandList_def Inf_def alt_def cat_def alt_lang_def intro!: derives.list)
  then have "derives g (grp [cat [one (b_list 1)]]) (str ''b'')"
    by (simp add: grp_def alt_def cat_def derives_group alt_lang_def one)
  moreover have "copies L 2 (u @ v)" if "L u" "L v" for L u v
    unfolding numeral_2_eq_2 copies.simps using that by (intro exI [of _ u] exI [of _ v] exI [of _ "[]"]) simp
  ultimately have "copies (derives g (grp [cat [one (b_list 1)]])) 2 (str ''b'' @ str ''b'')" by blast
  then have "rep_lang (derives g) (rep 2 2 (grp [cat [one (b_list 1)]])) (str ''bb'')"
    by (auto simp: rep_lang_def rep_def intro: exI [of _ 2])
  then show "alt_lang (derives g) (rule_alternation (newRule ''a'' [cat [rep 2 2 (grp [cat [one (b_list 1)]])]])) (str ''bb'')"
    by (simp add: newRule_def alt_def cat_def alt_lang_def)
  show "\<not> alt_lang (derives g) (rule_alternation (newRule ''a'' [cat [one (b_list 21)]])) (str ''bb'')"
  proof
    let ?s = "grp [cat [one (ref ruleNameOws), one (str_val '',''), one (ref ruleNameOws), one ?b]]"
    assume "alt_lang (derives g) (rule_alternation (newRule ''a'' [cat [one (b_list 21)]])) (str ''bb'')"
    then have "alt_lang (derives g) (expandList 21 Inf ?b) (str ''bb'')"
      by (auto simp: newRule_def alt_def cat_def alt_lang_def [of _ "Alternation _"] one b_list_def list_alternation_def
        elim!: derives_listE)
    then obtain u v where uv: "str ''bb'' = u @ v" "rep_lang (derives g) (rep 20 Inf ?s) v"
      by (auto simp: expandList_def Inf_def alt_def cat_def alt_lang_def Let_def)
    then obtain k where "20 \<le> int k" "copies (derives g ?s) k v" by (auto simp: rep_lang_def rep_def)
    with separated_comma [of g ?b k v] have "0x2C \<in> set v" by simp
    then have "0x2C \<in> set (str ''bb'')" using uv(1) by (metis Un_iff set_append)
    then show False by simp
  qed
qed

end
