(* ===== verification/Abnf_Expand.thy ===== *)
theory Abnf_Expand
  imports Abnf_Minify_Properties Abnf_Definitions
begin

text \<open>
  \<open>ExpandLists\<close> of \<open>src/pkg/abnf/minify/transform.go\<close>, which replaces list operators by what they
  stand for, and \<open>Minify\<close> of \<open>minify.go\<close>, which parses a definition, rewrites it and renders it. The
  code expands the element of a list in place, and the expansion of the list, which
  \<open>evaluateListRepeat\<close> made of the same element, changes with it; here the expansion is made again.
\<close>

section \<open>The code\<close>

fun expandAlternation :: "alternation \<Rightarrow> alternation"
  and expand_concatenation :: "concatenation \<Rightarrow> concatenation"
  and expand_repetition :: "repetition \<Rightarrow> repetition list"
  and expandElement :: "element \<Rightarrow> element"
where
  "expandAlternation (Alternation cs) = Alternation (map expand_concatenation cs)"
| "expand_concatenation (Concatenation rs) = Concatenation (concat (map expand_repetition rs))"
| "expand_repetition (Repetition mn mx e) =
     (let e = expandElement e
      in case e of
           ListElement listMin listMax x (Some expansion) \<Rightarrow>
             if mn = 1 \<and> mx = 1 then
               (case Concatenations expansion of [c] \<Rightarrow> Repetitions c | _ \<Rightarrow> [Repetition mn mx e])
             else [Repetition mn mx e]
         | _ \<Rightarrow> [Repetition mn mx e])"
| "expandElement (GroupElement a) = GroupElement (expandAlternation a)"
| "expandElement (OptionElement a) = OptionElement (expandAlternation a)"
| "expandElement (ListElement mn mx e expansion) =
     (let e = expandElement e
      in ListElement mn mx e (map_option (\<lambda>a. expandList mn mx e) expansion))"
| "expandElement e = e"

declare expand_repetition.simps [simp del]

definition ExpandLists :: "grammar \<Rightarrow> grammar" where
  "ExpandLists g = g\<lparr>Rules := map (\<lambda>r. r\<lparr>rule_alternation := expandAlternation (rule_alternation r)\<rparr>) (Rules g)\<rparr>"

record options =
  Simplify :: bool
  Expand_Lists :: bool

text \<open>The grammar that \<open>makeDefinition\<close> renders; nil options are \<open>None\<close>.\<close>

definition prepared :: "grammar \<Rightarrow> options option \<Rightarrow> grammar" where
  "prepared g opts =
     (case opts of
        None \<Rightarrow> g
      | Some options \<Rightarrow> simplified (Simplify options) (if Expand_Lists options then ExpandLists g else g))"

definition makeDefinition :: "grammar \<Rightarrow> options option \<Rightarrow> bytes" where
  "makeDefinition g opts = writeGrammar (prepared g opts)"

text \<open>The two uses of \<open>bytes.ReplaceAll\<close>.\<close>

fun crlf_to_lf :: "bytes \<Rightarrow> bytes" where
  "crlf_to_lf [] = []"
| "crlf_to_lf (b # s) =
     (if b = 0x0D \<and> s \<noteq> [] \<and> hd s = 0x0A then 0x0A # crlf_to_lf (tl s) else b # crlf_to_lf s)"

definition lf_to_crlf :: "bytes \<Rightarrow> bytes" where
  "lf_to_crlf s = concat (map (\<lambda>b. if b = 0x0A then [0x0D, 0x0A] else [b]) s)"

definition normalizeLineEndings :: "bytes \<Rightarrow> bytes" where
  "normalizeLineEndings input =
     (let normalized = lf_to_crlf (crlf_to_lf input)
      in if length normalized \<noteq> 0 \<and> \<not> has_suffix normalized [0x0D, 0x0A] then normalized @ [0x0D, 0x0A]
         else normalized)"

datatype minify_error = Minify_Parse parse_error | Verification_Parse parse_error | Verification_Mismatch

definition Minify :: "nat \<Rightarrow> bytes \<Rightarrow> options option \<Rightarrow> stop + (minify_error + bytes)" where
  "Minify fuel input opts =
     bind (ParseABNF fuel (normalizeLineEndings input)) (\<lambda>result.
       case result of
         Inl e \<Rightarrow> Inr (Inl (Minify_Parse e))
       | Inr g \<Rightarrow>
           let output = makeDefinition g opts
           in bind (ParseABNF fuel output) (\<lambda>result.
              case result of
                Inl e \<Rightarrow> Inr (Inl (Verification_Parse e))
              | Inr verificationGrammar \<Rightarrow>
                  Inr (if makeDefinition verificationGrammar None \<noteq> output then Inl Verification_Mismatch
                    else Inr output)))"

section \<open>Expansions\<close>

lemma expandList_single: "\<exists>c. Concatenations (expandList mn mx e) = [c]"
  by (simp add: expandList_def alt_def Let_def)

text \<open>Repetitions and lists of them that mean the same.\<close>

definition same_rep :: "grammar \<Rightarrow> repetition \<Rightarrow> repetition \<Rightarrow> bool" where
  "same_rep f r s \<longleftrightarrow> rep_lang (derives f) r = rep_lang (derives f) s"

definition same_alts :: "grammar \<Rightarrow> concatenation list \<Rightarrow> concatenation list \<Rightarrow> bool" where
  "same_alts f = list_all2 (\<lambda>c d. list_all2 (same_rep f) (Repetitions c) (Repetitions d))"

lemma same_rep_refl [simp]: "same_rep f r r"
  by (simp add: same_rep_def)

lemma same_rep_element: "derives f x = derives f y \<Longrightarrow> same_rep f (rep i j x) (rep i j y)"
  by (simp add: same_rep_def rep_def rep_lang_def [abs_def])

lemma same_alts_words: "same_alts f cs ds \<Longrightarrow> alt_lang (derives f) (alt cs) = alt_lang (derives f) (alt ds)"
proof -
  have seq: "list_all2 (same_rep f) rs ss \<Longrightarrow> seq_lang (derives f) rs = seq_lang (derives f) ss" for rs ss
    by (induction rule: list_all2_induct) (auto simp: same_rep_def fun_eq_iff)
  assume "same_alts f cs ds"
  then show ?thesis unfolding same_alts_def
  proof (induction rule: list_all2_induct)
    case (Cons c cs d ds)
    then show ?case using seq [OF Cons(1)] by (auto simp: alt_lang_def alt_def fun_eq_iff)
  qed simp
qed

lemma same_group: "same_alts f cs ds \<Longrightarrow> derives f (grp cs) = derives f (grp ds)"
  using same_alts_words by (auto simp: fun_eq_iff grp_def derives_group)

lemma same_option: "same_alts f cs ds \<Longrightarrow> derives f (opt cs) = derives f (opt ds)"
  using same_alts_words by (auto simp: fun_eq_iff opt_def derives_option)

lemma expandList_words:
  assumes "derives f x = derives f y"
  shows "alt_lang (derives f) (expandList mn mx x) = alt_lang (derives f) (expandList mn mx y)"
proof -
  have one: "same_rep f (one x) (one y)" using assms by (simp add: one_def same_rep_element)
  have group: "same_rep f (rep i j (grp cs)) (rep i j (grp ds))" "same_rep f (one (grp cs)) (one (grp ds))"
    "same_rep f (one (opt cs)) (one (opt ds))" if "same_alts f cs ds" for i j cs ds
    using that by (simp_all add: one_def same_rep_element same_group same_option)
  show ?thesis unfolding expandList_def Let_def
    by (auto intro!: same_alts_words group one simp: same_alts_def cat_def split: if_splits)
qed

section \<open>Words\<close>

lemma derives_list: "derives f (ListElement mn mx e x) w \<longleftrightarrow> alt_lang (derives f) (list_alternation mn mx e x) w"
  by (auto elim: derives_listE intro: derives.list)

lemma seq_lang_single: "seq_lang L [r] = rep_lang L r"
  by (simp add: fun_eq_iff seq_lang_one)

lemma expand_list:
  assumes "expandElement e = ListElement listMin listMax x (Some (expandList listMin listMax x))"
  shows "seq_lang (derives f) (expand_repetition (Repetition 1 1 e)) = derives f (expandElement e)"
proof -
  obtain c where "Concatenations (expandList listMin listMax x) = [c]" using expandList_single by blast
  then show ?thesis
    by (simp add: expand_repetition.simps assms fun_eq_iff derives_list list_alternation_def alt_lang_def)
qed

lemma expand_other:
  assumes "evaluated e"
  shows "expand_repetition (Repetition mn mx e) = [Repetition mn mx (expandElement e)]"
  using assms by (cases e) (auto simp: expand_repetition.simps)

lemma expand_words:
  "evaluated e \<Longrightarrow> derives f (expandElement e) = derives f e"
  "evaluated_list e \<Longrightarrow> derives f (expandElement e) = derives f e"
  "evaluated_alt a \<Longrightarrow> alt_lang (derives f) (expandAlternation a) = alt_lang (derives f) a"
  "evaluated_cat c \<Longrightarrow> seq_lang (derives f) (Repetitions (expand_concatenation c)) = seq_lang (derives f) (Repetitions c)"
  "evaluated_rep r \<Longrightarrow> seq_lang (derives f) (expand_repetition r) = rep_lang (derives f) r"
proof (induction e and e and a and c and r rule: evaluated_induct)
  case (2 a)
  then show ?case by (simp add: fun_eq_iff derives_group)
next
  case (3 a)
  then show ?case by (simp add: fun_eq_iff derives_option)
next
  case (8 mn mx e x)
  then have "derives f (expandElement e) = derives f e" by simp
  from expandList_words [OF this] show ?case using 8(2)
    by (auto simp: fun_eq_iff Let_def derives_list list_alternation_def)
next
  case (10 cs)
  then show ?case by (auto simp: fun_eq_iff alt_lang_def)
next
  case (11 rs)
  then show ?case by (simp add: seq_lang_concat_map)
next
  case (12 mn mx e)
  then have e: "derives f (expandElement e) = derives f e" by auto
  from 12(3) consider "evaluated e" | "mn = 1" "mx = 1" "evaluated_list e" by auto
  then show ?case
  proof cases
    case 1
    then show ?thesis using same_rep_element [OF e, of mn mx]
      by (simp add: expand_other seq_lang_single same_rep_def rep_def)
  next
    case 2
    then obtain listMin listMax x where
      "expandElement e = ListElement listMin listMax x (Some (expandList listMin listMax x))"
      by (cases e) (auto simp: Let_def)
    from expand_list [OF this, of f] show ?thesis using 2(1,2) e
      by (simp add: fun_eq_iff rep_lang_single isSingle_def)
  qed
qed simp_all

section \<open>No list operators\<close>

lemma expandList_evaluated:
  assumes "evaluated e" "\<not> has_list e" "counts mn mx"
  shows "evaluated_alt (expandList mn mx e) \<and> \<not> has_list_alt (expandList mn mx e)"
  using assms by (auto simp: expandList_def builder_defs counts_def Let_def Inf_def)

lemma expand_evaluated:
  "evaluated e \<Longrightarrow> evaluated (expandElement e) \<and> \<not> has_list (expandElement e)"
  "evaluated_list (e :: element) \<Longrightarrow> \<exists>mn mx x. counts mn mx \<and> evaluated x \<and> \<not> has_list x \<and>
     expandElement e = ListElement mn mx x (Some (expandList mn mx x))"
  "evaluated_alt a \<Longrightarrow> evaluated_alt (expandAlternation a) \<and> \<not> has_list_alt (expandAlternation a)"
  "evaluated_cat c \<Longrightarrow> evaluated_cat (expand_concatenation c) \<and> \<not> has_list_cat (expand_concatenation c)"
  "evaluated_rep r \<Longrightarrow> expand_repetition r \<noteq> [] \<and> (\<forall>q \<in> set (expand_repetition r). evaluated_rep q \<and> \<not> has_list_rep q)"
proof (induction e and e and a and c and r rule: evaluated_induct)
  case (12 mn mx e)
  from 12(3) consider "evaluated e" | "mn = 1" "mx = 1" "evaluated_list e" by auto
  then show ?case
  proof cases
    case 1
    then show ?thesis using 12 by (simp add: expand_other)
  next
    case 2
    then obtain listMin listMax x where x: "counts listMin listMax" "evaluated x" "\<not> has_list x"
      "expandElement e = ListElement listMin listMax x (Some (expandList listMin listMax x))"
      using 12(2) by blast
    obtain c where c: "Concatenations (expandList listMin listMax x) = [c]" using expandList_single by blast
    have "evaluated_alt (expandList listMin listMax x)" "\<not> has_list_alt (expandList listMin listMax x)"
      using expandList_evaluated [OF x(2,3,1)] by auto
    then have "evaluated_cat c" "\<not> has_list_cat c"
      using c by (cases "expandList listMin listMax x"; simp)+
    then show ?thesis using 2(1,2) by (cases c) (auto simp: expand_repetition.simps x(4) c)
  qed
qed (auto simp: Let_def)

text \<open>C34: Expanding the list operators of a grammar, as \<open>ParseABNF\<close> returns it, keeps what every element
  derives, and leaves a well-formed grammar without a list operator.\<close>

theorem expand_lists_language:
  assumes "evaluated_grammar g"
  shows "(derives (ExpandLists g) e w \<longleftrightarrow> derives g e w) \<and> evaluated_grammar (ExpandLists g) \<and>
    \<not> list_ex (\<lambda>r. has_list_alt (rule_alternation r)) (Rules (ExpandLists g))"
proof (intro conjI)
  have r: "evaluated_alt (rule_alternation r)" if "r \<in> set (Rules g)" for r
    using assms that by (auto simp: evaluated_grammar_def list_all_iff)
  have "indexed g" using assms by (auto simp: evaluated_grammar_def indexed_def)
  then show "derives (ExpandLists g) e w \<longleftrightarrow> derives g e w"
    unfolding ExpandLists_def by (rule rewrite_words) (use r expand_words(3) in \<open>simp add: fun_eq_iff\<close>)
  show "evaluated_grammar (ExpandLists g)"
    using assms expand_evaluated(3) by (auto simp: evaluated_grammar_def ExpandLists_def list_all_iff)
  show "\<not> list_ex (\<lambda>r. has_list_alt (rule_alternation r)) (Rules (ExpandLists g))"
    using r expand_evaluated(3) by (auto simp: ExpandLists_def list_ex_iff)
qed

text \<open>The list operator \<open>a = 1#SP\<close>.\<close>

definition space_list :: grammar where
  "space_list =
     \<lparr>Rules = [newRule ''a'' [cat [one (ListElement 1 Inf (ref ruleNameSp) (Some (expandList 1 Inf (ref ruleNameSp))))]]],
      Rulemap = [str ''a'' \<mapsto> 0]\<rparr>"

lemma expand_lists_language_witness:
  "derives (ExpandLists space_list) (RulenameElement (str ''a'')) [0x20] \<longleftrightarrow>
   derives space_list (RulenameElement (str ''a'')) [0x20]"
proof -
  have "map_of coreRules (ToLower (str ''a'')) = None"
    by (simp add: coreRules_def ToLower_def ascii_lower_def upper_byte_def)
  then have "evaluated_grammar space_list"
    by (auto simp: evaluated_grammar_def space_list_def newRule_def alt_def cat_def one_def rep_def ref_def counts_def
      Inf_def ToLower_def ascii_lower_def upper_byte_def)
  from expand_lists_language [OF this] show ?thesis by simp
qed

section \<open>Minify\<close>

lemma prepared_None [simp]: "prepared g None = g"
  by (simp add: prepared_def)

text \<open>What is simplified holds no range of a single surrogate, such as \<open>%xD800-D800\<close>; without
  \<open>Simplify\<close> nothing is asked.\<close>

definition simplifiable :: "grammar \<Rightarrow> options option \<Rightarrow> bool" where
  "simplifiable g opts \<longleftrightarrow>
     (case opts of
        None \<Rightarrow> True
      | Some options \<Rightarrow>
          Simplify options \<longrightarrow> scalar_grammar (if Expand_Lists options then ExpandLists g else g))"

lemma prepared_language:
  assumes "evaluated_grammar g" "simplifiable g opts"
  shows "derives (prepared g opts) e w \<longleftrightarrow> derives g e w"
proof -
  have i: "indexed g" "indexed (ExpandLists g)"
    using assms(1) by (auto simp: evaluated_grammar_def indexed_def ExpandLists_def)
  have r: "evaluated_alt (rule_alternation r)" if "r \<in> set (Rules g)" for r
    using assms(1) that by (auto simp: evaluated_grammar_def list_all_iff)
  have expand: "derives (ExpandLists g) e w \<longleftrightarrow> derives g e w"
    unfolding ExpandLists_def by (rule rewrite_words [OF i(1)]) (use r expand_words(3) in \<open>simp add: fun_eq_iff\<close>)
  show ?thesis
  proof (cases opts)
    case (Some options)
    define h where "h = (if Expand_Lists options then ExpandLists g else g)"
    have h: "indexed h" "derives h e w \<longleftrightarrow> derives g e w" using i expand by (simp_all add: h_def)
    have "derives (simplified (Simplify options) h) e w \<longleftrightarrow> derives h e w"
    proof (cases "Simplify options")
      case True
      then have "scalar_grammar h" using assms(2) by (simp add: Some simplifiable_def h_def)
      then show ?thesis using h(1) by (rule simplified_language)
    qed (simp add: simplified_def)
    then show ?thesis using h(2) by (simp add: Some prepared_def h_def)
  qed simp
qed

text \<open>C35: What \<open>Minify\<close> returns is the rendering of a grammar that derives what the grammar of the input
  derives, through the expansion of its lists and all passes of the simplification. With \<open>Simplify\<close>,
  grammars with a range of a single surrogate are left out, which the simplification makes match; without
  it there is no condition. The output is a definition that parses to a valid grammar rendered the same:
  \<open>Minify\<close> itself checks this and fails otherwise. That the grammar so parsed derives the same again is
  not stated, and with the option \<open>Simplify\<close> it need not.\<close>

theorem minify_result:
  assumes "Minify fuel input opts = Inr (Inr output)" "ParseABNF fuel (normalizeLineEndings input) = Inr (Inr g)"
    and "simplifiable g opts"
  shows "output = writeGrammar (prepared g opts) \<and> (derives (prepared g opts) e w \<longleftrightarrow> derives g e w) \<and>
    (\<exists>h. ParseABNF fuel output = Inr (Inr h) \<and> validateGrammar h = None \<and> writeGrammar h = output)"
proof -
  have g: "evaluated_grammar g" using parsed_evaluated [OF assms(2)] by simp
  obtain r where r: "ParseABNF fuel (makeDefinition g opts) = Inr r"
    using assms(1) by (auto simp: Minify_def assms(2) Let_def bind_Inr)
  then obtain h where h: "r = Inr h" using assms(1) by (cases r) (auto simp: Minify_def assms(2))
  then have out: "output = writeGrammar (prepared g opts)" and "ParseABNF fuel output = Inr (Inr h)"
    and "writeGrammar h = output"
    using assms(1) r by (auto simp: Minify_def assms(2) makeDefinition_def Let_def split: if_splits)
  then show ?thesis using out prepared_language [OF g assms(3)] parsed_evaluated by blast
qed

lemma minify_result_witness:
  "Minify 40 (str ''a=SP'') (Some \<lparr>Simplify = True, Expand_Lists = True\<rparr>) = Inr (Inr space_definition) \<and>
   (derives (prepared space_grammar (Some \<lparr>Simplify = True, Expand_Lists = True\<rparr>)) (RulenameElement (str ''a'')) [0x20] \<longleftrightarrow>
    derives space_grammar (RulenameElement (str ''a'')) [0x20])"
proof -
  let ?o = "Some \<lparr>Simplify = True, Expand_Lists = True\<rparr>"
  have n: "normalizeLineEndings (str ''a=SP'') = space_definition" by code_simp
  have "makeDefinition space_grammar ?o = space_definition" "makeDefinition space_grammar None = space_definition"
    by code_simp+
  then have m: "Minify 40 (str ''a=SP'') ?o = Inr (Inr space_definition)"
    unfolding Minify_def n by (simp add: space_parsed)
  have "simplifiable space_grammar ?o" by code_simp
  from minify_result [OF m space_parsed [folded n] this] m show ?thesis by blast
qed

end
