(* ===== verification/Abnf_Utils.thy ===== *)
theory Abnf_Utils
  imports Abnf_Parse "HOL-Library.Multiset"
begin

text \<open>
  The path searches of \<open>src/pkg/abnf/utils/utils.go\<close>: a breadth-first traversal with a queue. Its
  depth counters are integers; \<open>remainingNodesAtDepth\<close> is counted up by the code where it should
  be counted down, so a depth is never completed.
\<close>

section \<open>The code\<close>

text \<open>A nil path is \<open>None\<close> and a nil slice the empty one. A slice out of range panics; the capacity of the
  input is taken to be its length.\<close>

definition ExtractPathValue :: "bytes \<Rightarrow> path option \<Rightarrow> stop + bytes" where
  "ExtractPathValue input path =
     (case path of
        None \<Rightarrow> Inr []
      | Some p \<Rightarrow>
          if Start p \<le> End p \<and> End p \<le> length input
          then Inr (take (End p - Start p) (drop (Start p) input)) else Inl Panic)"

record search_state =
  currentDepth :: int
  remainingNodesAtDepth :: int
  nextDepthCount :: int
  found :: "path list"

function search_loop ::
  "bytes list \<Rightarrow> int \<Rightarrow> bool \<Rightarrow> int \<Rightarrow> path list \<Rightarrow> search_state \<Rightarrow> path list" where
  "search_loop names maxDepth searchMatch maxPaths queue s =
     (if length queue = 0 then found s
      else
        let currentNode = hd queue;
            queue = tl queue;
            nameMatches = (MatchRule currentNode \<in> set names);
            s = (if nameMatches then s\<lparr>found := found s @ [currentNode]\<rparr> else s)
        in if nameMatches \<and> int (length (found s)) = maxPaths then found s
           else
             let s = s\<lparr>remainingNodesAtDepth := remainingNodesAtDepth s - (- 1)\<rparr>;
                 queue =
                   (if (maxDepth = - 1 \<or> currentDepth s \<noteq> maxDepth) \<and> (\<not> nameMatches \<or> searchMatch)
                    then queue @ Subpaths currentNode else queue);
                 s = (if remainingNodesAtDepth s = 0
                      then s\<lparr>currentDepth := currentDepth s + 1, remainingNodesAtDepth := nextDepthCount s,
                             nextDepthCount := 0\<rparr>
                      else s)
             in search_loop names maxDepth searchMatch maxPaths queue s)"
  by auto
termination
  by (relation "measure (\<lambda>(names, maxDepth, searchMatch, maxPaths, queue, s). sum_list (map path_nodes queue))")
    (auto simp: neq_Nil_conv path_nodes_subpaths)

declare search_loop.simps [simp del]

definition searchPath :: "path \<Rightarrow> bytes list \<Rightarrow> int \<Rightarrow> bool \<Rightarrow> int \<Rightarrow> path list" where
  "searchPath p names maxDepth searchMatch maxPaths =
     search_loop names maxDepth searchMatch maxPaths [p]
       \<lparr>currentDepth = 0, remainingNodesAtDepth = 1, nextDepthCount = int (length (Subpaths p)), found = []\<rparr>"

definition SearchPath :: "path \<Rightarrow> bytes list \<Rightarrow> int \<Rightarrow> bool \<Rightarrow> path list" where
  "SearchPath p names maxDepth searchMatch = searchPath p names maxDepth searchMatch (- 1)"

definition SearchPathSingle :: "path \<Rightarrow> bytes list \<Rightarrow> int \<Rightarrow> bool \<Rightarrow> path option" where
  "SearchPathSingle p names maxDepth searchMatch =
     (let paths = searchPath p names maxDepth searchMatch 1
      in if length paths = 1 then Some (paths ! 0) else None)"

definition SearchPathSingleName :: "path \<Rightarrow> bytes \<Rightarrow> int \<Rightarrow> bool \<Rightarrow> path option" where
  "SearchPathSingleName p name maxDepth searchMatch = SearchPathSingle p [name] maxDepth searchMatch"

text \<open>\<open>GetParsedDataPaths\<close>; a nil grammar is \<open>None\<close>.\<close>

datatype get_error = Nil_Grammar | Empty_Data | Empty_Root | Rule_Not_Found

definition GetParsedDataPaths ::
  "nat \<Rightarrow> grammar option \<Rightarrow> bytes \<Rightarrow> bytes \<Rightarrow> stop + (get_error + path list)" where
  "GetParsedDataPaths fuel grammar data rootRulename =
     (case grammar of
        None \<Rightarrow> Inr (Inl Nil_Grammar)
      | Some g \<Rightarrow>
          if length data = 0 then Inr (Inl Empty_Data)
          else if rootRulename = [] then Inr (Inl Empty_Root)
          else bind (Parse fuel data g rootRulename)
            (\<lambda>result. Inr (case result of None \<Rightarrow> Inl Rule_Not_Found | Some paths \<Rightarrow> Inr paths)))"

section \<open>What is searched\<close>

text \<open>The nodes of a path tree.\<close>

fun all_nodes :: "path \<Rightarrow> path list" where
  "all_nodes (Path ps name i j) = Path ps name i j # concat (map all_nodes ps)"

text \<open>Those a search comes to: it goes below a match only if it is told to.\<close>

definition below :: "bytes list \<Rightarrow> bool \<Rightarrow> path \<Rightarrow> path list" where
  "below names searchMatch p = (if MatchRule p \<in> set names \<and> \<not> searchMatch then [] else Subpaths p)"

fun visited :: "bytes list \<Rightarrow> bool \<Rightarrow> path \<Rightarrow> path list" where
  "visited names searchMatch (Path ps name i j) =
     Path ps name i j #
       (if name \<in> set names \<and> \<not> searchMatch then [] else concat (map (visited names searchMatch) ps))"

lemma visited_below: "visited names searchMatch p = p # concat (map (visited names searchMatch) (below names searchMatch p))"
  by (cases p) (simp add: below_def)

lemma visited_all: "visited names True p = all_nodes p"
  by (induction p) (simp cong: map_cong)

lemma below_nodes: "sum_list (map path_nodes (below names searchMatch p)) < path_nodes p"
  by (simp add: below_def path_nodes_subpaths [of p])

lemma level_nodes:
  "sum_list (map path_nodes (concat (map (below names searchMatch) ps))) \<le> sum_list (map path_nodes ps)"
proof (induction ps)
  case (Cons p ps)
  then show ?case using below_nodes [of names searchMatch p] by simp
qed simp

text \<open>The same nodes level by level, from left to right.\<close>

function levels :: "bytes list \<Rightarrow> bool \<Rightarrow> path list \<Rightarrow> path list" where
  "levels names searchMatch [] = []"
| "levels names searchMatch (p # ps) =
     (p # ps) @ levels names searchMatch (concat (map (below names searchMatch) (p # ps)))"
  by pat_completeness auto
termination
  by (relation "measure (\<lambda>(names, searchMatch, ps). sum_list (map path_nodes ps))")
    (use below_nodes level_nodes in \<open>auto intro: add_less_le_mono\<close>)

lemma levels_next:
  "levels names searchMatch ps = ps @ levels names searchMatch (concat (map (below names searchMatch) ps))"
  by (cases ps) simp_all

lemma mset_levels: "mset (levels names searchMatch ps) = mset (concat (map (visited names searchMatch) ps))"
proof (induction names searchMatch ps rule: levels.induct)
  case (2 names searchMatch p ps)
  have split: "mset (concat (map (visited names searchMatch) qs)) =
      mset qs + mset (concat (map (visited names searchMatch) (concat (map (below names searchMatch) qs))))" for qs
  proof (induction qs)
    case (Cons q qs)
    then show ?case by (simp only: list.map concat.simps visited_below [of names searchMatch q] mset_append mset.simps
        map_append concat_append union_mset_add_mset_left union_mset_add_mset_right add.assoc add.left_commute)
  qed simp
  show ?case unfolding levels.simps mset_append 2 by (rule split [symmetric])
qed simp

text \<open>What a queue of nodes comes to: each node, and its children behind those that wait.\<close>

function queued :: "bytes list \<Rightarrow> bool \<Rightarrow> path list \<Rightarrow> path list" where
  "queued names searchMatch [] = []"
| "queued names searchMatch (p # ps) = p # queued names searchMatch (ps @ below names searchMatch p)"
  by pat_completeness auto
termination
  by (relation "measure (\<lambda>(names, searchMatch, ps). sum_list (map path_nodes ps))") (auto intro: below_nodes)

lemma queued_append:
  "queued names searchMatch (ps @ qs) =
     ps @ queued names searchMatch (qs @ concat (map (below names searchMatch) ps))"
  by (induction ps arbitrary: qs) simp_all

lemma queued_levels: "queued names searchMatch ps = levels names searchMatch ps"
proof (induction names searchMatch ps rule: levels.induct)
  case (2 names searchMatch p ps)
  then show ?case using queued_append [of names searchMatch "p # ps" "[]"] by (simp only: levels.simps append_Nil append_Nil2)
qed simp

lemma search_step:
  assumes "0 < remainingNodesAtDepth s"
  shows "search_loop names maxDepth searchMatch maxPaths (p # queue) s =
    (let nameMatches = (MatchRule p \<in> set names);
         s = (if nameMatches then s\<lparr>found := found s @ [p]\<rparr> else s)
     in if nameMatches \<and> int (length (found s)) = maxPaths then found s
        else search_loop names maxDepth searchMatch maxPaths
          (if (maxDepth = - 1 \<or> currentDepth s \<noteq> maxDepth) \<and> (\<not> nameMatches \<or> searchMatch)
           then queue @ Subpaths p else queue)
          (s\<lparr>remainingNodesAtDepth := remainingNodesAtDepth s + 1\<rparr>))"
  using assms by (subst search_loop.simps) (simp add: Let_def)

text \<open>No depth is ever completed, so a maximum other than 0 is none.\<close>

lemma search_depth:
  assumes "0 < remainingNodesAtDepth s" "currentDepth s = 0" "maxDepth \<noteq> 0"
  shows "search_loop names maxDepth searchMatch maxPaths queue s =
    search_loop names (- 1) searchMatch maxPaths queue s"
  using assms
proof (induction "sum_list (map path_nodes queue)" arbitrary: queue s rule: less_induct)
  case less
  show ?case
  proof (cases queue)
    case Nil
    then show ?thesis by (simp add: search_loop.simps)
  next
    case (Cons p ps)
    have IH: "search_loop names maxDepth searchMatch maxPaths
        (if \<not> m \<or> searchMatch then ps @ Subpaths p else ps) (t\<lparr>remainingNodesAtDepth := remainingNodesAtDepth t + 1\<rparr>) =
      search_loop names (- 1) searchMatch maxPaths
        (if \<not> m \<or> searchMatch then ps @ Subpaths p else ps) (t\<lparr>remainingNodesAtDepth := remainingNodesAtDepth t + 1\<rparr>)"
      if "0 < remainingNodesAtDepth t" "currentDepth t = 0" for m t
      by (rule less.hyps) (use that less.prems(3) in \<open>simp_all add: Cons path_nodes_subpaths [of p]\<close>)
    show ?thesis unfolding Cons search_step [OF less.prems(1)]
      using less.prems IH [of s False] IH [of "s\<lparr>found := found s @ [p]\<rparr>" True] by (cases searchMatch) (simp_all add: Let_def)
  qed
qed

lemma search_queued:
  assumes "0 < remainingNodesAtDepth s"
  shows "search_loop names (- 1) searchMatch (- 1) queue s =
    found s @ filter (\<lambda>p. MatchRule p \<in> set names) (queued names searchMatch queue)"
  using assms
proof (induction names searchMatch queue arbitrary: s rule: queued.induct)
  case (1 names searchMatch)
  then show ?case by (simp add: search_loop.simps)
next
  case (2 names searchMatch p ps)
  have IH: "search_loop names (- 1) searchMatch (- 1) (ps @ below names searchMatch p)
        (t\<lparr>remainingNodesAtDepth := remainingNodesAtDepth t + 1\<rparr>) =
      found t @ filter (\<lambda>p. MatchRule p \<in> set names) (queued names searchMatch (ps @ below names searchMatch p))"
    if "0 < remainingNodesAtDepth t" for t
    using 2(1) [of "t\<lparr>remainingNodesAtDepth := remainingNodesAtDepth t + 1\<rparr>"] that by simp
  show ?case unfolding search_step [OF 2(2)]
    using 2(2) IH [of s, unfolded below_def] IH [of "s\<lparr>found := found s @ [p]\<rparr>", unfolded below_def]
    by (cases "MatchRule p \<in> set names"; cases searchMatch) (simp_all add: Let_def below_def)
qed

lemma search_levels:
  "SearchPath p names (- 1) searchMatch = filter (\<lambda>q. MatchRule q \<in> set names) (levels names searchMatch [p])"
  by (simp add: SearchPath_def searchPath_def search_queued queued_levels)

lemma search_any_depth:
  "maxDepth \<noteq> 0 \<Longrightarrow> SearchPath p names maxDepth searchMatch = SearchPath p names (- 1) searchMatch"
  by (simp add: SearchPath_def searchPath_def search_depth [of _ maxDepth])

lemma search_only_root:
  "SearchPath p names 0 searchMatch = (if MatchRule p \<in> set names then [p] else [])"
  by (simp add: SearchPath_def searchPath_def search_step Let_def) (simp add: search_loop.simps)

text \<open>The search for a single path stops at the first match of the full search.\<close>

lemma search_prefix: "\<exists>ys. search_loop names maxDepth searchMatch (- 1) queue s = found s @ ys"
proof (induction names maxDepth searchMatch "- 1 :: int" queue s rule: search_loop.induct)
  case (1 names maxDepth searchMatch queue s)
  show ?case
  proof (cases "length queue = 0")
    case True
    then show ?thesis by (subst search_loop.simps) simp
  next
    case False
    then show ?thesis
      using 1 [OF False refl refl refl refl _ refl refl refl] by (subst search_loop.simps) (auto simp: Let_def)
  qed
qed

lemma search_head: "found s = [q] \<Longrightarrow> \<exists>ys. search_loop names maxDepth searchMatch (- 1) queue s = q # ys"
  using search_prefix [of names maxDepth searchMatch queue s] by auto

lemma search_first:
  "found s = [] \<Longrightarrow> search_loop names maxDepth searchMatch 1 queue s =
     take 1 (search_loop names maxDepth searchMatch (- 1) queue s)"
proof (induction "sum_list (map path_nodes queue)" arbitrary: queue s rule: less_induct)
  case less
  show ?case
  proof (cases queue)
    case Nil
    then show ?thesis using less.prems by (simp add: search_loop.simps)
  next
    case (Cons p ps)
    have IH: "search_loop names maxDepth searchMatch 1 (ps @ Subpaths p) t =
        take 1 (search_loop names maxDepth searchMatch (- 1) (ps @ Subpaths p) t)"
      "search_loop names maxDepth searchMatch 1 ps t =
        take 1 (search_loop names maxDepth searchMatch (- 1) ps t)" if "found t = []" for t
      by (rule less.hyps, simp add: Cons path_nodes_subpaths [of p], fact that)+
    show ?thesis
    proof (cases "MatchRule p \<in> set names")
      case True
      have "\<exists>ys. search_loop names maxDepth searchMatch (- 1) queue s = p # ys"
        using Cons True less.prems by (subst search_loop.simps) (auto simp: Let_def intro!: search_head)
      then obtain ys where "search_loop names maxDepth searchMatch (- 1) queue s = p # ys" ..
      then show ?thesis using Cons True less.prems by (subst search_loop.simps) (simp add: Let_def)
    next
      case False
      then show ?thesis
        using Cons less.prems by (subst (1 2) search_loop.simps) (simp add: Let_def IH)
    qed
  qed
qed

lemma search_single:
  "SearchPathSingle p names maxDepth searchMatch =
     (case SearchPath p names maxDepth searchMatch of [] \<Rightarrow> None | q # qs \<Rightarrow> Some q)"
  by (simp add: SearchPathSingle_def SearchPath_def searchPath_def search_first split: list.split)

text \<open>C36: A search without a maximal depth comes to the nodes of the path, each once, level by level and
  from left to right, and answers those with one of the names in this order. It comes to all of them,
  if it is told to look into its matches; otherwise the nodes below a match are left out. Any maximal
  depth but 0, negative ones included, is ignored, and 0 looks at the root alone. The search for a
  single path returns the first match of the full search.\<close>

theorem search_path_nodes:
  "SearchPath p names (- 1) searchMatch = filter (\<lambda>q. MatchRule q \<in> set names) (levels names searchMatch [p]) \<and>
   mset (levels names searchMatch [p]) = mset (visited names searchMatch p) \<and>
   visited names True p = all_nodes p \<and>
   SearchPath p names maxDepth searchMatch =
     (if maxDepth = 0 then if MatchRule p \<in> set names then [p] else []
      else SearchPath p names (- 1) searchMatch) \<and>
   SearchPathSingle p names maxDepth searchMatch =
     (case SearchPath p names maxDepth searchMatch of [] \<Rightarrow> None | q # qs \<Rightarrow> Some q)"
  using mset_levels [of names searchMatch "[p]"]
  by (intro conjI search_levels visited_all search_single)
    (simp_all add: search_only_root search_any_depth [of maxDepth] del: levels.simps)

end
