(* ===== verification/Packet.thy ===== *)
theory Packet
  imports Prelude
begin

text \<open>
  The packet encoder and decoder of \<open>src/pkg/net/packet\<close> (\<open>packet.go\<close>, \<open>ip.go\<close>, \<open>tcp.go\<close>). A byte
  slice is the list of its bytes, and an encoder that appends to a slice returns the longer list. The
  running checksum is a 32-bit word, so its wrap-around is Go's. Of an error the sentinel it wraps is
  kept, and a pointer that may be nil is an option.

  The decoders index and cut the bytes of a peer. Each index and each slice expression of theirs is
  an operation that may fail (\<open>go_index\<close>, \<open>go_slice\<close>): out of range, it answers \<open>Out_Of_Range\<close>, where the
  code panics. The capacity of a slice is taken to be its length, so that a slice expression that ends
  behind the length, which Go allows within the capacity, counts as out of range too.

  Of the standard library: \<open>binary.BigEndian\<close> reads and writes a number as its bytes, most significant
  first (\<open>be\<close>, \<open>number\<close>); \<open>netip.Addr\<close> is the zero address, an IPv4 address or an IPv6 address
  with its zone, as 32- and 128-bit words.
\<close>

section \<open>Big-endian numbers\<close>

fun be :: "nat \<Rightarrow> nat \<Rightarrow> bytes" where
  "be 0 x = []"
| "be (Suc n) x = be n (x div 256) @ [of_nat x]"

definition number :: "bytes \<Rightarrow> nat" where
  "number bs = foldl (\<lambda>x b. x * 256 + unat b) 0 bs"

definition Uint16 :: "bytes \<Rightarrow> 16 word" where "Uint16 bs = of_nat (number (take 2 bs))"
definition Uint32 :: "bytes \<Rightarrow> 32 word" where "Uint32 bs = of_nat (number (take 4 bs))"
definition AppendUint16 :: "bytes \<Rightarrow> 16 word \<Rightarrow> bytes" where "AppendUint16 b v = b @ be 2 (unat v)"
definition AppendUint32 :: "bytes \<Rightarrow> 32 word \<Rightarrow> bytes" where "AppendUint32 b v = b @ be 4 (unat v)"

text \<open>\<open>PutUint16\<close> on the slice from \<open>k\<close> on; the code's slices are long enough.\<close>

definition PutUint16 :: "bytes \<Rightarrow> nat \<Rightarrow> 16 word \<Rightarrow> bytes" where
  "PutUint16 b k v = take k b @ be 2 (unat v) @ drop (k + 2) b"

section \<open>Addresses\<close>

datatype addr = ZeroAddr | Addr4 "32 word" | Addr16 "128 word" string

fun Is4 :: "addr \<Rightarrow> bool" where
  "Is4 (Addr4 a) = True"
| "Is4 _ = False"

fun Is6 :: "addr \<Rightarrow> bool" where
  "Is6 (Addr16 a zone) = True"
| "Is6 _ = False"

definition IsValid :: "addr \<Rightarrow> bool" where "IsValid a \<longleftrightarrow> a \<noteq> ZeroAddr"

fun Is4In6 :: "addr \<Rightarrow> bool" where
  "Is4In6 (Addr16 a zone) = (drop_bit 32 a = 0xFFFF)"
| "Is4In6 _ = False"

text \<open>\<open>As4\<close> of an IPv4 address and \<open>As16\<close> of any other; the zero address gives sixteen zeros.\<close>

fun address_bytes :: "addr \<Rightarrow> bytes" where
  "address_bytes ZeroAddr = be 16 0"
| "address_bytes (Addr4 a) = be 4 (unat a)"
| "address_bytes (Addr16 a zone) = be 16 (unat a)"

definition AddrFrom4 :: "bytes \<Rightarrow> addr" where "AddrFrom4 bs = Addr4 (of_nat (number bs))"
definition AddrFrom16 :: "bytes \<Rightarrow> addr" where "AddrFrom16 bs = Addr16 (of_nat (number bs)) []"

section \<open>Errors, protocols and checksums\<close>

text \<open>The three sentinels, and the panic of an index or a slice out of range.\<close>

datatype packet_error = ErrMalformed | ErrUnsupported | ErrInvalidArgument | Out_Of_Range

text \<open>The element \<open>data[i]\<close> and the slice \<open>data[i:j]\<close>.\<close>

definition go_index :: "bytes \<Rightarrow> nat \<Rightarrow> packet_error + byte" where
  "go_index data i = (if i < length data then Inr (data ! i) else Inl Out_Of_Range)"

definition go_slice :: "bytes \<Rightarrow> nat \<Rightarrow> nat \<Rightarrow> packet_error + bytes" where
  "go_slice data i j =
     (if i \<le> j \<and> j \<le> length data then Inr (take (j - i) (drop i data)) else Inl Out_Of_Range)"

definition ProtocolHopByHop :: byte where "ProtocolHopByHop = 0"
definition ProtocolTcp :: byte where "ProtocolTcp = 6"
definition ProtocolIpv6Routing :: byte where "ProtocolIpv6Routing = 43"
definition ProtocolIpv6Fragment :: byte where "ProtocolIpv6Fragment = 44"
definition ProtocolAh :: byte where "ProtocolAh = 51"
definition ProtocolIpv6DestinationOptions :: byte where "ProtocolIpv6DestinationOptions = 60"
definition ProtocolMobility :: byte where "ProtocolMobility = 135"
definition ProtocolHip :: byte where "ProtocolHip = 139"
definition ProtocolShim6 :: byte where "ProtocolShim6 = 140"
definition ProtocolExperimental1 :: byte where "ProtocolExperimental1 = 253"
definition ProtocolExperimental2 :: byte where "ProtocolExperimental2 = 254"

lemmas protocol_defs = ProtocolHopByHop_def ProtocolTcp_def ProtocolIpv6Routing_def ProtocolIpv6Fragment_def
  ProtocolAh_def ProtocolIpv6DestinationOptions_def ProtocolMobility_def ProtocolHip_def ProtocolShim6_def
  ProtocolExperimental1_def ProtocolExperimental2_def

fun checksumAdd :: "32 word \<Rightarrow> bytes \<Rightarrow> 32 word" where
  "checksumAdd s (a # b # data) = checksumAdd (s + (push_bit 8 (ucast a) OR ucast b)) data"
| "checksumAdd s [a] = s + push_bit 8 (ucast a)"
| "checksumAdd s [] = s"

text \<open>The loop of \<open>checksumFinish\<close>: a carry folded back makes the sum smaller.\<close>

lemma fold_carry_value:
  "unat ((sum AND 0xFFFF) + drop_bit 16 sum) = unat sum mod 65536 + unat sum div 65536" for sum :: "32 word"
proof -
  have low: "unat (sum AND 0xFFFF) = unat sum mod 65536"
  proof -
    have "(0xFFFF :: 32 word) = mask 16" by (simp add: mask_eq_exp_minus_1)
    then have "unat (sum AND 0xFFFF) = take_bit 16 (unat sum)"
      by (simp only: take_bit_eq_mask [symmetric] unsigned_take_bit_eq)
    then show ?thesis by (simp add: take_bit_eq_mod)
  qed
  have bound: "unat sum < 4294967296" using unsigned_less [of sum] by simp
  then have "take_bit 32 (unat sum) = unat sum" by (intro take_bit_nat_eq_self) simp
  then have high: "unat (drop_bit 16 sum) = unat sum div 65536"
    by (simp only: unsigned_drop_bit_eq) (simp add: drop_bit_eq_div)
  have "unat sum div 65536 < 65536" using bound by (simp add: div_less_iff_less_mult)
  moreover have "unat sum mod 65536 < 65536" by simp
  ultimately have "unat sum mod 65536 + unat sum div 65536 < 4294967296" by linarith
  then show ?thesis by (simp add: unat_word_ariths low high)
qed

function fold_carries :: "32 word \<Rightarrow> 32 word" where
  "fold_carries s = (if s > 0xFFFF then fold_carries ((s AND 0xFFFF) + drop_bit 16 s) else s)"
  by auto
termination
proof (relation "measure unat")
  fix sum :: "32 word"
  assume "sum > 0xFFFF"
  then have "65536 \<le> unat sum" by (simp add: word_less_nat_alt)
  then have "unat sum div 65536 * 1 < unat sum div 65536 * 65536"
    by (intro mult_strict_left_mono) (simp_all add: div_greater_zero_iff)
  then have "unat sum mod 65536 + unat sum div 65536 < unat sum"
    using div_mult_mod_eq [of "unat sum" 65536] by linarith
  then show "(((sum AND 0xFFFF) + drop_bit 16 sum), sum) \<in> measure unat"
    by (simp only: in_measure fold_carry_value)
qed simp

declare fold_carries.simps [simp del]

definition checksumFinish :: "32 word \<Rightarrow> 16 word" where
  "checksumFinish s = NOT (ucast (fold_carries s))"

definition addressSum :: "32 word \<Rightarrow> addr \<Rightarrow> 32 word" where
  "addressSum s address = checksumAdd s (address_bytes address)"

definition appendAddress :: "bytes \<Rightarrow> addr \<Rightarrow> bytes" where
  "appendAddress b address = b @ address_bytes address"

definition pseudoHeaderSum :: "addr \<Rightarrow> addr \<Rightarrow> byte \<Rightarrow> 32 word \<Rightarrow> 32 word" where
  "pseudoHeaderSum source destination protocol len =
     addressSum (addressSum 0 source) destination + ucast protocol + drop_bit 16 len + (len AND 0xFFFF)"

section \<open>IP headers\<close>

definition ipv4MinimumHeaderLength :: nat where "ipv4MinimumHeaderLength = 20"
definition ipv6HeaderLength :: nat where "ipv6HeaderLength = 40"
definition ipv4MoreFragmentsFlag :: "16 word" where "ipv4MoreFragmentsFlag = 0x2000"
definition ipv4FragmentOffsetMask :: "16 word" where "ipv4FragmentOffsetMask = 0x1FFF"
definition ipv6MoreFragmentsFlag :: "16 word" where "ipv6MoreFragmentsFlag = 1"
definition ipv6FragmentHeaderSize :: nat where "ipv6FragmentHeaderSize = 8"
definition defaultHopLimit :: byte where "defaultHopLimit = 64"
definition maxIpv6ExtensionHeaders :: nat where "maxIpv6ExtensionHeaders = 32"

record ip =
  Version :: int
  Source :: addr
  Destination :: addr
  Protocol :: byte
  HopLimit :: byte
  FragmentOffset :: int
  MoreFragments :: bool
  Payload :: bytes

definition Fragmented :: "ip \<Rightarrow> bool" where
  "Fragmented i \<longleftrightarrow> FragmentOffset i \<noteq> 0 \<or> MoreFragments i"

definition parseIpv4 :: "bytes \<Rightarrow> packet_error + ip" where
  "parseIpv4 data =
     (if length data < ipv4MinimumHeaderLength then Inl ErrMalformed
      else
        bind (go_index data 0) (\<lambda>first.
        let headerLength = unat (first AND 0x0F) * 4
        in if headerLength < ipv4MinimumHeaderLength then Inl ErrMalformed
           else
             bind (go_slice data 2 4) (\<lambda>lengthBytes.
             let totalLength = unat (Uint16 lengthBytes)
             in if totalLength < headerLength then Inl ErrMalformed
                else if totalLength > length data then Inl ErrMalformed
                else
                  bind (go_slice data 6 8) (\<lambda>offsetBytes.
                  let flagsAndOffset = Uint16 offsetBytes
                  in bind (go_slice data 12 16) (\<lambda>source.
                     bind (go_slice data 16 20) (\<lambda>destination.
                     bind (go_index data 9) (\<lambda>protocol.
                     bind (go_index data 8) (\<lambda>hopLimit.
                     bind (go_slice data headerLength totalLength) (\<lambda>payload.
                     Inr \<lparr>Version = 4, Source = AddrFrom4 source, Destination = AddrFrom4 destination,
                       Protocol = protocol, HopLimit = hopLimit,
                       FragmentOffset = int (unat (flagsAndOffset AND ipv4FragmentOffsetMask)) * 8,
                       MoreFragments = (flagsAndOffset AND ipv4MoreFragmentsFlag \<noteq> 0),
                       Payload = payload\<rparr>)))))))))"

text \<open>The headers with a length in eight-byte units.\<close>

definition generic_extension :: "byte \<Rightarrow> bool" where
  "generic_extension p \<longleftrightarrow>
     p \<in> set [ProtocolHopByHop, ProtocolIpv6Routing, ProtocolIpv6DestinationOptions, ProtocolMobility,
       ProtocolHip, ProtocolShim6, ProtocolExperimental1, ProtocolExperimental2]"

definition extension_header :: "byte \<Rightarrow> bool" where
  "extension_header p \<longleftrightarrow> generic_extension p \<or> p = ProtocolAh \<or> p = ProtocolIpv6Fragment"

text \<open>The walk over the extension headers, with the number of rounds left. What follows the switch is
  \<open>skip_header\<close>: the next header and the rest of the payload.\<close>

definition skip_header :: "bytes \<Rightarrow> nat \<Rightarrow> packet_error + byte \<times> bytes" where
  "skip_header payload headerLength =
     (if length payload < headerLength then Inl ErrMalformed
      else
        bind (go_index payload 0) (\<lambda>nextHeader.
        bind (go_slice payload headerLength (length payload)) (\<lambda>payload.
        Inr (nextHeader, payload))))"

definition fragment_info :: "ip \<Rightarrow> bytes \<Rightarrow> packet_error + ip" where
  "fragment_info i payload =
     bind (go_slice payload 2 4) (\<lambda>offsetBytes.
     let offsetAndFlags = Uint16 offsetBytes
     in Inr (i\<lparr>FragmentOffset := int (unat (drop_bit 3 offsetAndFlags)) * 8,
           MoreFragments := (offsetAndFlags AND ipv6MoreFragmentsFlag \<noteq> 0)\<rparr>))"

fun walk_headers :: "nat \<Rightarrow> ip \<Rightarrow> byte \<Rightarrow> bytes \<Rightarrow> packet_error + ip" where
  "walk_headers 0 i nextHeader payload = Inl ErrUnsupported"
| "walk_headers (Suc k) i nextHeader payload =
     (if generic_extension nextHeader then
        if length payload < 2 then Inl ErrMalformed
        else
          bind (go_index payload 1) (\<lambda>units.
          bind (skip_header payload ((unat units + 1) * 8)) (\<lambda>(nextHeader, payload).
          walk_headers k i nextHeader payload))
      else if nextHeader = ProtocolAh then
        if length payload < 2 then Inl ErrMalformed
        else
          bind (go_index payload 1) (\<lambda>units.
          bind (skip_header payload ((unat units + 2) * 4)) (\<lambda>(nextHeader, payload).
          walk_headers k i nextHeader payload))
      else if nextHeader = ProtocolIpv6Fragment then
        if length payload < ipv6FragmentHeaderSize then Inl ErrMalformed
        else
          bind (fragment_info i payload) (\<lambda>i.
          if FragmentOffset i \<noteq> 0 then
            bind (go_index payload 0) (\<lambda>protocol.
            bind (go_slice payload ipv6FragmentHeaderSize (length payload)) (\<lambda>payload.
            Inr (i\<lparr>Protocol := protocol, Payload := payload\<rparr>)))
          else
            bind (skip_header payload ipv6FragmentHeaderSize) (\<lambda>(nextHeader, payload).
            walk_headers k i nextHeader payload))
      else Inr (i\<lparr>Protocol := nextHeader, Payload := payload\<rparr>))"

definition parseIpv6 :: "bytes \<Rightarrow> packet_error + ip" where
  "parseIpv6 data =
     (if length data < ipv6HeaderLength then Inl ErrMalformed
      else
        bind (go_slice data 4 6) (\<lambda>lengthBytes.
        let payloadLength = unat (Uint16 lengthBytes)
        in bind (go_index data 6) (\<lambda>nextHeader.
           if payloadLength = 0 \<and> nextHeader = ProtocolHopByHop then Inl ErrUnsupported
           else if ipv6HeaderLength + payloadLength > length data then Inl ErrMalformed
           else
             bind (go_slice data 8 24) (\<lambda>source.
             bind (go_slice data 24 40) (\<lambda>destination.
             bind (go_index data 7) (\<lambda>hopLimit.
             bind (go_slice data ipv6HeaderLength (ipv6HeaderLength + payloadLength)) (\<lambda>payload.
             walk_headers maxIpv6ExtensionHeaders
               \<lparr>Version = 6, Source = AddrFrom16 source, Destination = AddrFrom16 destination, Protocol = 0,
                HopLimit = hopLimit, FragmentOffset = 0, MoreFragments = False, Payload = []\<rparr>
               nextHeader payload)))))))"

definition ParseIp :: "bytes \<Rightarrow> packet_error + ip" where
  "ParseIp data =
     (if length data = 0 then Inl ErrMalformed
      else
        bind (go_index data 0) (\<lambda>first.
        let version = drop_bit 4 first
        in if version = 4 then parseIpv4 data
           else if version = 6 then parseIpv6 data
           else Inl ErrMalformed))"

text \<open>The header of an IPv4 packet before its checksum is filled in, and the fixed header of IPv6.\<close>

definition ipv4_header :: "bytes \<Rightarrow> ip \<Rightarrow> byte \<Rightarrow> 16 word \<Rightarrow> 16 word \<Rightarrow> bytes" where
  "ipv4_header b i hopLimit totalLength flagsAndOffset =
     (let b = b @ [0x45, 0];
          b = AppendUint16 b totalLength;
          b = b @ [0, 0];
          b = AppendUint16 b flagsAndOffset;
          b = b @ [hopLimit, Protocol i, 0, 0];
          b = appendAddress b (Source i)
      in appendAddress b (Destination i))"

definition ipv6_header :: "bytes \<Rightarrow> ip \<Rightarrow> byte \<Rightarrow> bytes" where
  "ipv6_header b i hopLimit =
     (let b = b @ [0x60, 0, 0, 0];
          b = AppendUint16 b (of_nat (length (Payload i)));
          b = b @ [Protocol i, hopLimit];
          b = appendAddress b (Source i)
      in appendAddress b (Destination i))"

definition AppendIp :: "bytes \<Rightarrow> ip option \<Rightarrow> packet_error + bytes" where
  "AppendIp b ip =
     (case ip of
        None \<Rightarrow> Inl ErrInvalidArgument
      | Some i \<Rightarrow>
          let hopLimit = (if HopLimit i = 0 then defaultHopLimit else HopLimit i)
          in if Version i = 4 then
               if \<not> Is4 (Source i) \<or> \<not> Is4 (Destination i) then Inl ErrInvalidArgument
               else
                 let totalLength = ipv4MinimumHeaderLength + length (Payload i)
                 in if totalLength > 0xFFFF then Inl ErrInvalidArgument
                    else if FragmentOffset i < 0 \<or> FragmentOffset i mod 8 \<noteq> 0 \<or>
                      FragmentOffset i div 8 > int (unat ipv4FragmentOffsetMask)
                    then Inl ErrInvalidArgument
                    else
                      let flagsAndOffset = of_int (FragmentOffset i div 8);
                          flagsAndOffset =
                            (if MoreFragments i then flagsAndOffset OR ipv4MoreFragmentsFlag else flagsAndOffset);
                          start = length b;
                          b = ipv4_header b i hopLimit (of_nat totalLength) flagsAndOffset;
                          b = PutUint16 b (start + 10) (checksumFinish (checksumAdd 0 (drop start b)))
                      in Inr (b @ Payload i)
             else if Version i = 6 then
               if \<not> Is6 (Source i) \<or> \<not> Is6 (Destination i) then Inl ErrInvalidArgument
               else if length (Payload i) > 0xFFFF then Inl ErrInvalidArgument
               else Inr (ipv6_header b i hopLimit @ Payload i)
             else Inl ErrInvalidArgument)"

section \<open>TCP segments\<close>

definition tcpMinimumHeaderLength :: nat where "tcpMinimumHeaderLength = 20"
definition tcpMaximumHeaderLength :: nat where "tcpMaximumHeaderLength = 60"

type_synonym TcpFlags = byte

definition TcpFlagFin :: TcpFlags where "TcpFlagFin = 1"
definition TcpFlagSyn :: TcpFlags where "TcpFlagSyn = 2"
definition TcpFlagRst :: TcpFlags where "TcpFlagRst = 4"
definition TcpFlagPsh :: TcpFlags where "TcpFlagPsh = 8"
definition TcpFlagAck :: TcpFlags where "TcpFlagAck = 16"
definition TcpFlagUrg :: TcpFlags where "TcpFlagUrg = 32"
definition TcpFlagEce :: TcpFlags where "TcpFlagEce = 64"
definition TcpFlagCwr :: TcpFlags where "TcpFlagCwr = 128"

definition Has :: "TcpFlags \<Rightarrow> TcpFlags \<Rightarrow> bool" where
  "Has tcpFlags flags \<longleftrightarrow> tcpFlags AND flags = flags"

record tcp =
  SourcePort :: "16 word"
  DestinationPort :: "16 word"
  Sequence :: "32 word"
  Acknowledgement :: "32 word"
  Flags :: TcpFlags
  Window :: "16 word"
  UrgentPointer :: "16 word"
  Options :: bytes
  TcpPayload :: bytes

definition ParseTcp :: "bytes \<Rightarrow> packet_error + tcp" where
  "ParseTcp data =
     (if length data < tcpMinimumHeaderLength then Inl ErrMalformed
      else
        bind (go_index data 12) (\<lambda>offset.
        let headerLength = unat (drop_bit 4 offset) * 4
        in if headerLength < tcpMinimumHeaderLength then Inl ErrMalformed
           else if headerLength > length data then Inl ErrMalformed
           else
             bind (go_slice data 0 2) (\<lambda>sourcePort.
             bind (go_slice data 2 4) (\<lambda>destinationPort.
             bind (go_slice data 4 8) (\<lambda>sequence.
             bind (go_slice data 8 12) (\<lambda>acknowledgement.
             bind (go_index data 13) (\<lambda>flags.
             bind (go_slice data 14 16) (\<lambda>window.
             bind (go_slice data 18 20) (\<lambda>urgentPointer.
             bind (go_slice data tcpMinimumHeaderLength headerLength) (\<lambda>options.
             bind (go_slice data headerLength (length data)) (\<lambda>payload.
             Inr \<lparr>SourcePort = Uint16 sourcePort, DestinationPort = Uint16 destinationPort,
               Sequence = Uint32 sequence, Acknowledgement = Uint32 acknowledgement, Flags = flags,
               Window = Uint16 window, UrgentPointer = Uint16 urgentPointer, Options = options,
               TcpPayload = payload\<rparr>)))))))))))"

definition tcp_segment :: "bytes \<Rightarrow> tcp \<Rightarrow> nat \<Rightarrow> nat \<Rightarrow> bytes" where
  "tcp_segment b t paddedOptionsLength headerLength =
     (let b = AppendUint16 b (SourcePort t);
          b = AppendUint16 b (DestinationPort t);
          b = AppendUint32 b (Sequence t);
          b = AppendUint32 b (Acknowledgement t);
          b = b @ [push_bit 4 (of_nat (headerLength div 4)), Flags t];
          b = AppendUint16 b (Window t);
          b = b @ [0, 0];
          b = AppendUint16 b (UrgentPointer t);
          b = b @ Options t;
          b = b @ replicate (paddedOptionsLength - length (Options t)) 0
      in b @ TcpPayload t)"

text \<open>Go's \<open>(n + 3) &^ 3\<close> on lengths.\<close>

definition padded :: "nat \<Rightarrow> nat" where
  "padded n = (n + 3) div 4 * 4"

definition AppendTcp :: "bytes \<Rightarrow> tcp option \<Rightarrow> addr \<Rightarrow> addr \<Rightarrow> packet_error + bytes" where
  "AppendTcp b tcp source destination =
     (case tcp of
        None \<Rightarrow> Inl ErrInvalidArgument
      | Some t \<Rightarrow>
          if \<not> IsValid source \<or> \<not> IsValid destination \<or> Is4 source \<noteq> Is4 destination
          then Inl ErrInvalidArgument
          else if Is4In6 source \<or> Is4In6 destination then Inl ErrInvalidArgument
          else
            let paddedOptionsLength = padded (length (Options t));
                headerLength = tcpMinimumHeaderLength + paddedOptionsLength
            in if headerLength > tcpMaximumHeaderLength then Inl ErrInvalidArgument
               else
                 let start = length b;
                     b = tcp_segment b t paddedOptionsLength headerLength;
                     segment = drop start b;
                     sum = pseudoHeaderSum source destination ProtocolTcp (of_nat (length segment))
                 in Inr (PutUint16 b (start + 16) (checksumFinish (checksumAdd sum segment))))"

end
