(* ===== verification/Packet_Checksum.thy ===== *)
theory Packet_Checksum
  imports Packet
begin

text \<open>
  The numbers and the checksum of the packet headers, as natural numbers: \<open>word_sum\<close> is the sum of
  the 16-bit words of a slice, and \<open>checksumFinish\<close> takes the complement of its residue modulo 65535.
  A slice with its own checksum in it verifies: its sum is a multiple of 65535 (\<open>checksum_verifies\<close>).
\<close>

section \<open>Big-endian numbers\<close>

lemma unat_bound: "unat w < 2 ^ LENGTH('a)" for w :: "'a::len word"
  by (rule unsigned_less)

lemma length_be [simp]: "length (be n x) = n"
  by (induction n arbitrary: x) auto

lemma number_Nil [simp]: "number [] = 0"
  by (simp add: number_def)

lemma number_snoc: "number (bs @ [b]) = number bs * 256 + unat b"
  by (simp add: number_def)

lemma number_be [simp]: "number (be n x) = x mod 256 ^ n"
proof (induction n arbitrary: x)
  case (Suc n)
  have "number (be (Suc n) x) = x div 256 mod 256 ^ n * 256 + x mod 256"
    by (simp add: number_snoc Suc.IH unat_of_nat)
  also have "\<dots> = x mod (256 * 256 ^ n)" by (subst mod_mult2_eq) simp
  finally show ?case by (simp add: mult.commute)
qed simp

lemma Uint16_be [simp]: "Uint16 (be 2 (unat v) @ r) = v"
  using unat_bound [of v] by (simp add: Uint16_def)

lemma Uint32_be [simp]: "Uint32 (be 4 (unat v) @ r) = v"
  using unat_bound [of v] by (simp add: Uint32_def)

lemmas Uint_be = Uint16_be [where r = "[]", simplified] Uint32_be [where r = "[]", simplified]

declare Uint_be [simp]

lemma length_address_bytes [simp]: "length (address_bytes a) = (if Is4 a then 4 else 16)"
  by (cases a) auto

lemma AddrFrom4_bytes: "Is4 a \<Longrightarrow> AddrFrom4 (address_bytes a) = a"
proof (cases a)
  case (Addr4 v)
  then show ?thesis using unat_bound [of v] by (simp add: AddrFrom4_def)
qed simp_all

fun without_zone :: "addr \<Rightarrow> addr" where
  "without_zone (Addr16 a zone) = Addr16 a []"
| "without_zone a = a"

lemma AddrFrom16_bytes: "Is6 a \<Longrightarrow> AddrFrom16 (address_bytes a) = without_zone a"
proof (cases a)
  case (Addr16 v zone)
  then show ?thesis using unat_bound [of v] by (simp add: AddrFrom16_def)
qed simp_all

section \<open>Sums of 16-bit words\<close>

fun word_sum :: "bytes \<Rightarrow> nat" where
  "word_sum (a # b # data) = unat a * 256 + unat b + word_sum data"
| "word_sum [a] = unat a * 256"
| "word_sum [] = 0"

lemma unat_byte_le: "unat (b :: byte) \<le> 255"
  using unat_bound [of b] by simp

lemma word_sum_le: "word_sum data \<le> 65535 * ((length data + 1) div 2)"
proof (induction data rule: word_sum.induct)
  case (1 a b data)
  then show ?case using unat_byte_le [of a] unat_byte_le [of b] by simp
next
  case (2 a)
  then show ?case using unat_byte_le [of a] by simp
qed simp

lemma word_sum_append: "even (length xs) \<Longrightarrow> word_sum (xs @ ys) = word_sum xs + word_sum ys"
  by (induction xs rule: word_sum.induct) auto

lemma unat_head_word: "unat (push_bit 8 (ucast a) OR ucast b :: 32 word) = unat a * 256 + unat b" for a b :: byte
proof -
  have "bit (ucast b :: 32 word) n \<Longrightarrow> n < 8" for n
    using bit_imp_le_length [of b n] by (simp add: bit_unsigned_iff)
  then have high: "8 \<le> n \<Longrightarrow> \<not> bit (ucast b :: 32 word) n" for n by (meson not_le)
  have "push_bit 8 (ucast a) AND ucast b = (0 :: 32 word)"
    by (intro bit_word_eqI) (auto simp: bit_and_iff bit_push_bit_iff dest: high)
  then have "push_bit 8 (ucast a) OR ucast b = (push_bit 8 (ucast a) + ucast b :: 32 word)"
    by (rule disjunctive_add_eq_or [symmetric])
  also have "push_bit 8 (ucast a) = (of_nat (unat a * 256) :: 32 word)"
    by (simp add: push_bit_eq_mult)
  finally have "push_bit 8 (ucast a) OR ucast b = (of_nat (unat a * 256 + unat b) :: 32 word)"
    by (simp add: push_bit_eq_mult)
  then have "unat (push_bit 8 (ucast a) OR ucast b :: 32 word) = unat (of_nat (unat a * 256 + unat b) :: 32 word)"
    by (rule arg_cong)
  also have "\<dots> = unat a * 256 + unat b"
    using unat_byte_le [of a] unat_byte_le [of b] by (subst unat_of_nat) (simp add: take_bit_nat_eq_self)
  finally show ?thesis .
qed

lemma unat_checksumAdd:
  "unat s + word_sum data < 2 ^ 32 \<Longrightarrow> unat (checksumAdd s data) = unat s + word_sum data"
proof (induction s data rule: checksumAdd.induct)
  case (1 s a b data)
  have "unat (s + (push_bit 8 (ucast a) OR ucast b)) = unat s + (unat a * 256 + unat b)"
    using 1(2) by (subst unat_add_lem [THEN iffD1]) (simp_all add: unat_head_word)
  then show ?case using 1 by simp
next
  case (2 s a)
  have "push_bit 8 (ucast a) = (push_bit 8 (ucast a) OR ucast (0 :: byte) :: 32 word)" by simp
  then have "unat (push_bit 8 (ucast a) :: 32 word) = unat a * 256"
    using unat_head_word [of a 0] by simp
  then show ?case using 2 by (simp add: unat_add_lem [THEN iffD1])
qed simp

section \<open>The complement of the sum\<close>

lemma fold_carries_residue:
  "0 < unat s \<Longrightarrow> unat (fold_carries s) mod 65535 = unat s mod 65535 \<and> 0 < unat (fold_carries s) \<and>
    unat (fold_carries s) \<le> 65535"
proof (induction s rule: fold_carries.induct)
  case (1 s)
  show ?case
  proof (cases "s > 0xFFFF")
    case True
    let ?s = "(s AND 0xFFFF) + drop_bit 16 s"
    have big: "65536 \<le> unat s" using True by (simp add: word_less_nat_alt)
    have carry: "unat ?s = unat s mod 65536 + unat s div 65536" by (rule fold_carry_value)
    then have "0 < unat ?s" using big by (simp only: carry)
    moreover have "unat s mod 65535 = unat ?s mod 65535"
    proof -
      have "unat s = unat ?s + unat s div 65536 * 65535"
        using carry div_mult_mod_eq [of "unat s" 65536] by linarith
      then show ?thesis by (metis mod_mult_self1)
    qed
    ultimately show ?thesis using 1 True by (simp add: fold_carries.simps [of s])
  next
    case False
    then show ?thesis using 1(2) by (simp add: fold_carries.simps [of s] word_less_nat_alt)
  qed
qed

lemma unat_not16: "unat (NOT w) = 65535 - unat w" for w :: "16 word"
proof -
  have "NOT w = - 1 - w" by (simp add: not_eq_complement)
  then show ?thesis by (simp add: unat_sub unsigned_minus_1_eq_mask mask_eq_exp_minus_1)
qed

lemma unat_checksumFinish: "unat (checksumFinish s) = 65535 - unat (fold_carries s) mod 65536"
  by (simp add: checksumFinish_def unat_not16 unsigned_ucast_eq take_bit_eq_mod)

lemma checksumFinish_zero:
  assumes "0 < unat s" "unat s mod 65535 = 0"
  shows "checksumFinish s = 0"
proof -
  have r: "unat (fold_carries s) mod 65535 = 0" "0 < unat (fold_carries s)" "unat (fold_carries s) \<le> 65535"
    using fold_carries_residue [OF assms(1)] assms(2) by simp_all
  then have "unat (fold_carries s) = 65535"
    by (metis le_neq_implies_less mod_less neq0_conv)
  then have "unat (checksumFinish s) = 0" by (simp add: unat_checksumFinish)
  then show ?thesis by (simp add: unsigned_eq_0_iff)
qed

text \<open>A slice with two zero bytes at an even place, and the checksum put there.\<close>

lemma checksum_verifies:
  assumes "even (length xs)" "0 < unat s + word_sum (xs @ [0, 0] @ ys)"
    "unat s + word_sum (xs @ [0, 0] @ ys) + 65535 < 2 ^ 32"
  defines "c \<equiv> checksumFinish (checksumAdd s (xs @ [0, 0] @ ys))"
  shows "checksumFinish (checksumAdd s (xs @ be 2 (unat c) @ ys)) = 0"
proof -
  let ?n = "unat s + word_sum (xs @ [0, 0] @ ys)"
  let ?f = "fold_carries (checksumAdd s (xs @ [0, 0] @ ys))"
  have n: "unat (checksumAdd s (xs @ [0, 0] @ ys)) = ?n" using assms(3) by (intro unat_checksumAdd) linarith
  have f: "unat ?f mod 65535 = ?n mod 65535" "0 < unat ?f" "unat ?f \<le> 65535"
    using fold_carries_residue [of "checksumAdd s (xs @ [0, 0] @ ys)"] assms(2) by (simp_all only: n)
  have c: "unat c = 65535 - unat ?f" using f(3) by (simp add: c_def unat_checksumFinish)
  have "word_sum (be 2 (unat c)) = unat c"
  proof -
    have "unat c < 65536" using c by linarith
    then have "unat c div 256 mod 256 = unat c div 256" by (simp add: div_less_iff_less_mult)
    then show ?thesis by (simp add: numeral_2_eq_2 unat_of_nat del: of_nat_unat)
  qed
  then have sum: "unat s + word_sum (xs @ be 2 (unat c) @ ys) = ?n + unat c"
    using assms(1) by (simp add: word_sum_append)
  have m: "unat (checksumAdd s (xs @ be 2 (unat c) @ ys)) = ?n + unat c"
  proof -
    have "unat s + word_sum (xs @ be 2 (unat c) @ ys) < 2 ^ 32" unfolding sum using assms(3) c by linarith
    then show ?thesis using unat_checksumAdd [of s "xs @ be 2 (unat c) @ ys"] sum by linarith
  qed
  have "(?n + unat c) mod 65535 = (unat ?f + unat c) mod 65535" by (intro mod_add_cong f(1) [symmetric] refl)
  also have "\<dots> = 0" using c f(3) by simp
  finally show ?thesis using assms(2) by (intro checksumFinish_zero; simp only: m)
qed

end
