(* ===== verification/Packet_Properties.thy ===== *)
theory Packet_Properties
  imports Packet_Checksum
begin

text \<open>
  What the encoders of \<open>src/pkg/net/packet\<close> write is what its decoders read, with checksums that
  verify; and what a decoder answers is well formed, whatever the bytes.
\<close>

section \<open>The guards make every read safe\<close>

text \<open>What is read when it is in range; the decoders below read nothing else.\<close>

definition part :: "bytes \<Rightarrow> nat \<Rightarrow> nat \<Rightarrow> bytes" where
  "part data i j = take (j - i) (drop i data)"

lemma go_index_ok [simp]: "i < length data \<Longrightarrow> go_index data i = Inr (data ! i)"
  by (simp add: go_index_def)

lemma go_slice_ok [simp]: "i \<le> j \<Longrightarrow> j \<le> length data \<Longrightarrow> go_slice data i j = Inr (part data i j)"
  by (simp add: go_slice_def part_def)

lemma first_ok: "0 < n \<Longrightarrow> \<not> length data < n \<Longrightarrow> go_index data 0 = Inr (data ! 0)"
  by (rule go_index_ok) linarith

lemma part_to_end [simp]: "part data i (length data) = drop i data"
  by (simp add: part_def)

lemma parseIpv4_reads:
  "parseIpv4 data =
     (if length data < ipv4MinimumHeaderLength then Inl ErrMalformed
      else
        let headerLength = unat (data ! 0 AND 0x0F) * 4
        in if headerLength < ipv4MinimumHeaderLength then Inl ErrMalformed
           else
             let totalLength = unat (Uint16 (part data 2 4))
             in if totalLength < headerLength then Inl ErrMalformed
                else if totalLength > length data then Inl ErrMalformed
                else
                  let flagsAndOffset = Uint16 (part data 6 8)
                  in Inr \<lparr>Version = 4, Source = AddrFrom4 (part data 12 16),
                       Destination = AddrFrom4 (part data 16 20), Protocol = data ! 9, HopLimit = data ! 8,
                       FragmentOffset = int (unat (flagsAndOffset AND ipv4FragmentOffsetMask)) * 8,
                       MoreFragments = (flagsAndOffset AND ipv4MoreFragmentsFlag \<noteq> 0),
                       Payload = part data headerLength totalLength\<rparr>)"
  using first_ok [of ipv4MinimumHeaderLength data]
  by (simp add: parseIpv4_def Let_def ipv4MinimumHeaderLength_def cong: if_cong)

lemma skip_header_reads:
  "0 < n \<Longrightarrow> skip_header payload n =
     (if length payload < n then Inl ErrMalformed else Inr (payload ! 0, drop n payload))"
  using first_ok [of n payload] by (simp add: skip_header_def cong: if_cong)

definition fragmented :: "ip \<Rightarrow> bytes \<Rightarrow> ip" where
  "fragmented i payload =
     (let offsetAndFlags = Uint16 (part payload 2 4)
      in i\<lparr>FragmentOffset := int (unat (drop_bit 3 offsetAndFlags)) * 8,
           MoreFragments := (offsetAndFlags AND ipv6MoreFragmentsFlag \<noteq> 0)\<rparr>)"

lemma fragment_info_reads: "4 \<le> length payload \<Longrightarrow> fragment_info i payload = Inr (fragmented i payload)"
  by (simp add: fragment_info_def fragmented_def Let_def)

lemma walk_headers_reads:
  "walk_headers (Suc k) i nextHeader payload =
     (if generic_extension nextHeader then
        if length payload < 2 then Inl ErrMalformed
        else
          (case skip_header payload ((unat (payload ! 1) + 1) * 8) of
             Inl e \<Rightarrow> Inl e | Inr (nextHeader, payload) \<Rightarrow> walk_headers k i nextHeader payload)
      else if nextHeader = ProtocolAh then
        if length payload < 2 then Inl ErrMalformed
        else
          (case skip_header payload ((unat (payload ! 1) + 2) * 4) of
             Inl e \<Rightarrow> Inl e | Inr (nextHeader, payload) \<Rightarrow> walk_headers k i nextHeader payload)
      else if nextHeader = ProtocolIpv6Fragment then
        if length payload < ipv6FragmentHeaderSize then Inl ErrMalformed
        else
          let i = fragmented i payload
          in if FragmentOffset i \<noteq> 0 then
               Inr (i\<lparr>Protocol := payload ! 0, Payload := drop ipv6FragmentHeaderSize payload\<rparr>)
             else
               (case skip_header payload ipv6FragmentHeaderSize of
                  Inl e \<Rightarrow> Inl e | Inr (nextHeader, payload) \<Rightarrow> walk_headers k i nextHeader payload)
      else Inr (i\<lparr>Protocol := nextHeader, Payload := payload\<rparr>))"
  using first_ok [of ipv6FragmentHeaderSize payload]
  by (simp add: skip_header_reads fragment_info_reads Let_def ipv6FragmentHeaderSize_def cong: if_cong)

declare walk_headers.simps(2) [simp del] walk_headers_reads [simp]

lemma parseIpv6_reads:
  "parseIpv6 data =
     (if length data < ipv6HeaderLength then Inl ErrMalformed
      else
        let payloadLength = unat (Uint16 (part data 4 6))
        in if payloadLength = 0 \<and> data ! 6 = ProtocolHopByHop then Inl ErrUnsupported
           else if ipv6HeaderLength + payloadLength > length data then Inl ErrMalformed
           else
             walk_headers maxIpv6ExtensionHeaders
               \<lparr>Version = 6, Source = AddrFrom16 (part data 8 24), Destination = AddrFrom16 (part data 24 40),
                Protocol = 0, HopLimit = data ! 7, FragmentOffset = 0, MoreFragments = False, Payload = []\<rparr>
               (data ! 6) (part data ipv6HeaderLength (ipv6HeaderLength + payloadLength)))"
  by (simp add: parseIpv6_def Let_def ipv6HeaderLength_def cong: if_cong)

lemma ParseIp_reads:
  "ParseIp data =
     (if length data = 0 then Inl ErrMalformed
      else
        let version = drop_bit 4 (data ! 0)
        in if version = 4 then parseIpv4 data
           else if version = 6 then parseIpv6 data
           else Inl ErrMalformed)"
  by (simp add: ParseIp_def cong: if_cong)

lemma ParseTcp_reads:
  "ParseTcp data =
     (if length data < tcpMinimumHeaderLength then Inl ErrMalformed
      else
        let headerLength = unat (drop_bit 4 (data ! 12)) * 4
        in if headerLength < tcpMinimumHeaderLength then Inl ErrMalformed
           else if headerLength > length data then Inl ErrMalformed
           else
             Inr \<lparr>SourcePort = Uint16 (part data 0 2), DestinationPort = Uint16 (part data 2 4),
               Sequence = Uint32 (part data 4 8), Acknowledgement = Uint32 (part data 8 12),
               Flags = data ! 13, Window = Uint16 (part data 14 16), UrgentPointer = Uint16 (part data 18 20),
               Options = part data tcpMinimumHeaderLength headerLength, TcpPayload = drop headerLength data\<rparr>)"
  by (simp add: ParseTcp_def Let_def tcpMinimumHeaderLength_def cong: if_cong)

lemmas parser_reads = ParseIp_reads parseIpv4_reads parseIpv6_reads

section \<open>The IPv4 header\<close>

lemma part_append: "length xs = i \<Longrightarrow> length ys = j - i \<Longrightarrow> part (xs @ ys @ zs) i j = ys"
  by (simp add: part_def)

definition ipv4_front :: "ip \<Rightarrow> byte \<Rightarrow> 16 word \<Rightarrow> 16 word \<Rightarrow> bytes" where
  "ipv4_front i hop len fo = [0x45, 0] @ be 2 (unat len) @ [0, 0] @ be 2 (unat fo) @ [hop, Protocol i]"

definition ipv4_back :: "ip \<Rightarrow> bytes" where
  "ipv4_back i = address_bytes (Source i) @ address_bytes (Destination i)"

lemma length_ipv4_front [simp]: "length (ipv4_front i hop len fo) = 10"
  by (simp add: ipv4_front_def)

lemma ipv4_header_split: "ipv4_header b i hop len fo = b @ ipv4_front i hop len fo @ [0, 0] @ ipv4_back i"
  by (simp add: ipv4_header_def ipv4_front_def ipv4_back_def AppendUint16_def appendAddress_def)

lemma PutUint16_at: "length xs = k \<Longrightarrow> PutUint16 (b @ xs @ [x, y] @ ys) (length b + k) v = b @ xs @ be 2 (unat v) @ ys"
  by (simp add: PutUint16_def)

text \<open>The fragment offset and the flag share a word.\<close>

lemma fragment_word:
  assumes "unat w \<le> 0x1FFF"
  shows "w AND ipv4FragmentOffsetMask = w" "(w OR ipv4MoreFragmentsFlag) AND ipv4FragmentOffsetMask = w"
    "w AND ipv4MoreFragmentsFlag = 0" "(w OR ipv4MoreFragmentsFlag) AND ipv4MoreFragmentsFlag \<noteq> 0"
proof -
  have m: "ipv4FragmentOffsetMask = mask 13" by (simp add: ipv4FragmentOffsetMask_def mask_eq_exp_minus_1)
  have "take_bit 13 w = w"
    by (rule word_unat_eq_iff [THEN iffD2]) (use assms in \<open>simp add: unsigned_take_bit_eq take_bit_nat_eq_self\<close>)
  then show w: "w AND ipv4FragmentOffsetMask = w" by (simp only: m take_bit_eq_mask)
  have apart: "ipv4MoreFragmentsFlag AND ipv4FragmentOffsetMask = 0" "ipv4FragmentOffsetMask AND ipv4MoreFragmentsFlag = 0"
    by (simp_all add: ipv4MoreFragmentsFlag_def ipv4FragmentOffsetMask_def)
  show "(w OR ipv4MoreFragmentsFlag) AND ipv4FragmentOffsetMask = w"
    by (simp only: bit.conj_disj_distrib2 w apart or.right_neutral)
  have "w AND ipv4MoreFragmentsFlag = (w AND ipv4FragmentOffsetMask) AND ipv4MoreFragmentsFlag" by (simp only: w)
  then show "w AND ipv4MoreFragmentsFlag = 0" by (simp only: and.assoc apart) simp
  have "(w OR ipv4MoreFragmentsFlag) AND ipv4MoreFragmentsFlag = ipv4MoreFragmentsFlag"
    by (simp only: bit.conj_disj_distrib2 \<open>w AND ipv4MoreFragmentsFlag = 0\<close>) (simp add: ipv4MoreFragmentsFlag_def)
  then show "(w OR ipv4MoreFragmentsFlag) AND ipv4MoreFragmentsFlag \<noteq> 0" by (simp add: ipv4MoreFragmentsFlag_def)
qed

lemma parse_ipv4:
  assumes "Is4 (Source i)" "Is4 (Destination i)" "unat len = 20 + length payload" "length c = 2"
  shows "ParseIp (ipv4_front i hop len fo @ c @ ipv4_back i @ payload @ padding) =
    Inr \<lparr>Version = 4, Source = Source i, Destination = Destination i, Protocol = Protocol i, HopLimit = hop,
      FragmentOffset = int (unat (fo AND ipv4FragmentOffsetMask)) * 8,
      MoreFragments = (fo AND ipv4MoreFragmentsFlag \<noteq> 0), Payload = payload\<rparr>"
proof -
  define data where "data = ipv4_front i hop len fo @ c @ ipv4_back i @ payload @ padding"
  have first: "data ! 0 = 0x45" "data ! 8 = hop" "data ! 9 = Protocol i"
    by (simp_all add: data_def ipv4_front_def nth_append)
  have slices: "Uint16 (part data 2 4) = len" "Uint16 (part data 6 8) = fo"
    "part data 12 16 = address_bytes (Source i)" "part data 16 20 = address_bytes (Destination i)"
    "part data 20 (20 + length payload) = payload"
    using assms(1,2,4) by (simp_all add: data_def ipv4_front_def ipv4_back_def part_def)
  have length_data: "length data = 20 + length payload + length padding"
    using assms by (simp add: data_def ipv4_back_def)
  show ?thesis unfolding data_def [symmetric]
    using assms slices first length_data
    by (simp add: parser_reads AddrFrom4_bytes ipv4MinimumHeaderLength_def)
qed

section \<open>The IPv6 header\<close>

definition ipv6_front :: "ip \<Rightarrow> byte \<Rightarrow> 16 word \<Rightarrow> bytes" where
  "ipv6_front i hop len = [0x60, 0, 0, 0] @ be 2 (unat len) @ [Protocol i, hop]"

lemma ipv6_header_split:
  "ipv6_header b i hop =
     b @ ipv6_front i hop (of_nat (length (Payload i))) @ address_bytes (Source i) @ address_bytes (Destination i)"
  by (simp add: ipv6_header_def ipv6_front_def AppendUint16_def appendAddress_def)

lemma walk_headers_done:
  assumes "\<not> extension_header p"
  shows "walk_headers maxIpv6ExtensionHeaders i p payload = Inr (i\<lparr>Protocol := p, Payload := payload\<rparr>)"
proof -
  have rounds: "maxIpv6ExtensionHeaders = Suc 31" by (simp add: maxIpv6ExtensionHeaders_def)
  have "\<not> generic_extension p" "p \<noteq> ProtocolAh" "p \<noteq> ProtocolIpv6Fragment"
    using assms by (auto simp: extension_header_def)
  then show ?thesis unfolding rounds walk_headers_reads by (simp only: if_False)
qed

lemma parse_ipv6:
  assumes "Is6 (Source i)" "Is6 (Destination i)" "unat len = length payload" "\<not> extension_header (Protocol i)"
  shows "ParseIp (ipv6_front i hop len @ address_bytes (Source i) @ address_bytes (Destination i) @ payload @ padding) =
    Inr \<lparr>Version = 6, Source = without_zone (Source i), Destination = without_zone (Destination i),
      Protocol = Protocol i, HopLimit = hop, FragmentOffset = 0, MoreFragments = False, Payload = payload\<rparr>"
proof -
  define data where
    "data = ipv6_front i hop len @ address_bytes (Source i) @ address_bytes (Destination i) @ payload @ padding"
  have not4: "\<not> Is4 (Source i)" "\<not> Is4 (Destination i)" using assms(1,2) by (cases "Source i"; cases "Destination i"; simp)+
  have first: "data ! 0 = 0x60" "data ! 6 = Protocol i" "data ! 7 = hop"
    by (simp_all add: data_def ipv6_front_def nth_append)
  have slices: "Uint16 (part data 4 6) = len"
    "part data 8 24 = address_bytes (Source i)" "part data 24 40 = address_bytes (Destination i)"
    "part data 40 (40 + length payload) = payload"
    using not4 by (simp_all add: data_def ipv6_front_def part_def)
  have length_data: "length data = 40 + length payload + length padding"
    using not4 by (simp add: data_def ipv6_front_def)
  have "Protocol i \<noteq> ProtocolHopByHop" using assms(4) by (auto simp: extension_header_def generic_extension_def)
  then show ?thesis unfolding data_def [symmetric]
    using assms slices first length_data walk_headers_done [OF assms(4)]
    by (simp add: parser_reads AddrFrom16_bytes ipv6HeaderLength_def)
qed

section \<open>IP packets\<close>

text \<open>What a packet keeps on the wire: a hop limit of zero is 64, and the IPv6 header has no zones and
  no fragment fields.\<close>

definition on_wire :: "ip \<Rightarrow> ip" where
  "on_wire i =
     (let i = i\<lparr>HopLimit := (if HopLimit i = 0 then defaultHopLimit else HopLimit i)\<rparr>
      in if Version i = 4 then i
         else i\<lparr>Source := without_zone (Source i), Destination := without_zone (Destination i),
                FragmentOffset := 0, MoreFragments := False\<rparr>)"

lemma append_ipv4:
  assumes "AppendIp b (Some i) = Inr out" "Version i = 4"
  obtains h where "out = b @ h @ Payload i" "length h = 20" "checksumFinish (checksumAdd 0 h) = 0"
    "\<And>padding. ParseIp (h @ Payload i @ padding) = Inr (on_wire i)"
proof -
  let ?hop = "if HopLimit i = 0 then defaultHopLimit else HopLimit i"
  let ?len = "of_nat (20 + length (Payload i)) :: 16 word"
  let ?w = "of_int (FragmentOffset i div 8) :: 16 word"
  let ?fo = "if MoreFragments i then ?w OR ipv4MoreFragmentsFlag else ?w"
  let ?front = "ipv4_front i ?hop ?len ?fo"
  define c where "c = checksumFinish (checksumAdd 0 (?front @ [0, 0] @ ipv4_back i))"
  let ?h = "?front @ be 2 (unat c) @ ipv4_back i"
  have ok: "Is4 (Source i)" "Is4 (Destination i)" "20 + length (Payload i) \<le> 0xFFFF" "0 \<le> FragmentOffset i"
    "FragmentOffset i mod 8 = 0" "FragmentOffset i div 8 \<le> 0x1FFF"
    and out: "out = PutUint16 (ipv4_header b i ?hop ?len ?fo) (length b + 10)
        (checksumFinish (checksumAdd 0 (drop (length b) (ipv4_header b i ?hop ?len ?fo)))) @ Payload i"
    using assms by (auto simp: AppendIp_def Let_def ipv4MinimumHeaderLength_def ipv4FragmentOffsetMask_def split: if_splits)
  have length_back: "length (ipv4_back i) = 8" using ok by (simp add: ipv4_back_def)
  have "out = b @ ?h @ Payload i"
    by (simp add: out ipv4_header_split c_def PutUint16_at [of ?front 10, simplified])
  moreover have "length ?h = 20" using length_back by simp
  moreover have "checksumFinish (checksumAdd 0 ?h) = 0"
    unfolding c_def
  proof (rule checksum_verifies)
    have "0x4500 \<le> word_sum (?front @ [0, 0] @ ipv4_back i)" by (simp add: ipv4_front_def)
    then show "0 < unat (0 :: 32 word) + word_sum (?front @ [0, 0] @ ipv4_back i)" by linarith
    have "word_sum (?front @ [0, 0] @ ipv4_back i) \<le> 65535 * 10"
      using word_sum_le [of "?front @ [0, 0] @ ipv4_back i"] length_back by simp
    then show "unat (0 :: 32 word) + word_sum (?front @ [0, 0] @ ipv4_back i) + 65535 < 2 ^ 32" by simp
  qed simp
  moreover have "ParseIp (?h @ Payload i @ padding) = Inr (on_wire i)" for padding
  proof -
    have len: "unat ?len = 20 + length (Payload i)"
      using ok(3) by (simp only: unat_of_nat) (simp add: take_bit_nat_eq_self)
    have "0 \<le> FragmentOffset i div 8" using ok(4) by simp
    then have w: "int (unat ?w) = FragmentOffset i div 8"
      using ok(6) by (simp add: unsigned_of_int take_bit_int_eq_self)
    then have "unat ?w \<le> 0x1FFF" using ok(6) by linarith
    note fo = fragment_word [OF this]
    have "int (unat (?fo AND ipv4FragmentOffsetMask)) * 8 = FragmentOffset i"
      using w ok(5) fo(1,2) by (simp, presburger)
    moreover have "?fo AND ipv4MoreFragmentsFlag \<noteq> 0 \<longleftrightarrow> MoreFragments i" using fo(3,4) by simp
    ultimately show ?thesis
      using parse_ipv4 [OF ok(1,2) len, of "be 2 (unat c)" ?hop ?fo padding] assms(2)
      by (simp add: on_wire_def)
  qed
  ultimately show ?thesis by (rule that)
qed

lemma append_ipv6:
  assumes "AppendIp b (Some i) = Inr out" "Version i = 6" "\<not> extension_header (Protocol i)"
  obtains h where "out = b @ h @ Payload i" "length h = 40"
    "\<And>padding. ParseIp (h @ Payload i @ padding) = Inr (on_wire i)"
proof -
  let ?hop = "if HopLimit i = 0 then defaultHopLimit else HopLimit i"
  let ?len = "of_nat (length (Payload i)) :: 16 word"
  let ?h = "ipv6_front i ?hop ?len @ address_bytes (Source i) @ address_bytes (Destination i)"
  have ok: "Is6 (Source i)" "Is6 (Destination i)" "length (Payload i) \<le> 0xFFFF"
    and out: "out = b @ ?h @ Payload i"
    using assms(1,2) by (auto simp: AppendIp_def ipv6_header_split split: if_splits)
  have not4: "\<not> Is4 (Source i)" "\<not> Is4 (Destination i)" using ok(1,2) by (cases "Source i"; cases "Destination i"; simp)+
  have len: "unat ?len = length (Payload i)"
    using ok(3) by (simp only: unat_of_nat) (simp add: take_bit_nat_eq_self)
  note out
  moreover have "length ?h = 40" using not4 by (simp add: ipv6_front_def)
  moreover have "ParseIp (?h @ Payload i @ padding) = Inr (on_wire i)" for padding
    using parse_ipv6 [OF ok(1,2) len assms(3), of ?hop padding] assms(2)
    by (simp add: on_wire_def)
  ultimately show ?thesis by (rule that)
qed

text \<open>C37: What \<open>AppendIp\<close> appends, \<open>ParseIp\<close> reads back, whatever link padding follows: the packet with
  the hop limit that was written and, for IPv6, without zones and fragment fields. The header checksum
  that an IPv4 packet carries verifies. An IPv6 packet whose protocol is itself an extension header is
  left out: its payload is read as that header.\<close>

theorem ip_roundtrip:
  assumes "AppendIp b (Some i) = Inr out" "Version i = 4 \<or> \<not> extension_header (Protocol i)"
  shows "\<exists>d. out = b @ d \<and> ParseIp (d @ padding) = Inr (on_wire i) \<and>
    (Version i = 4 \<longrightarrow> checksumFinish (checksumAdd 0 (take 20 d)) = 0)"
proof (cases "Version i = 4")
  case True
  from append_ipv4 [OF assms(1) True] obtain h where "out = b @ h @ Payload i" "length h = 20"
    "checksumFinish (checksumAdd 0 h) = 0" "\<And>padding. ParseIp (h @ Payload i @ padding) = Inr (on_wire i)" by metis
  then show ?thesis by (intro exI [of _ "h @ Payload i"]) simp
next
  case False
  then have six: "Version i = 6" using assms(1) by (auto simp: AppendIp_def Let_def split: if_splits)
  have "\<not> extension_header (Protocol i)" using assms(2) False by blast
  from append_ipv6 [OF assms(1) six this] obtain h where "out = b @ h @ Payload i"
    "\<And>padding. ParseIp (h @ Payload i @ padding) = Inr (on_wire i)" by metis
  then show ?thesis using False by (intro exI [of _ "h @ Payload i"]) simp
qed

definition example_ip :: ip where
  "example_ip = \<lparr>Version = 4, Source = Addr4 0xC0000201, Destination = Addr4 0xC6336407, Protocol = 6,
     HopLimit = 0, FragmentOffset = 16, MoreFragments = True, Payload = [104, 105, 33]\<rparr>"

theorem ip_roundtrip_witness:
  "\<exists>d. AppendIp [1] (Some example_ip) = Inr ([1] @ d) \<and>
    ParseIp (d @ [0, 0]) = Inr (example_ip\<lparr>HopLimit := 64\<rparr>)"
proof -
  obtain out where out: "AppendIp [1] (Some example_ip) = Inr out"
    by (simp add: AppendIp_def Let_def example_ip_def ipv4MinimumHeaderLength_def ipv4FragmentOffsetMask_def)
  moreover have "on_wire example_ip = example_ip\<lparr>HopLimit := 64\<rparr>"
    by (simp add: on_wire_def example_ip_def defaultHopLimit_def)
  ultimately show ?thesis using ip_roundtrip [OF out, of "[0, 0]"] by (auto simp: example_ip_def)
qed

section \<open>TCP segments\<close>

definition tcp_front :: "tcp \<Rightarrow> nat \<Rightarrow> bytes" where
  "tcp_front t headerLength =
     be 2 (unat (SourcePort t)) @ be 2 (unat (DestinationPort t)) @ be 4 (unat (Sequence t)) @
     be 4 (unat (Acknowledgement t)) @ [push_bit 4 (of_nat (headerLength div 4)), Flags t] @ be 2 (unat (Window t))"

definition tcp_options :: "tcp \<Rightarrow> bytes" where
  "tcp_options t = Options t @ replicate (padded (length (Options t)) - length (Options t)) 0"

definition tcp_back :: "tcp \<Rightarrow> bytes" where
  "tcp_back t = be 2 (unat (UrgentPointer t)) @ tcp_options t @ TcpPayload t"

lemma length_tcp_front [simp]: "length (tcp_front t n) = 16"
  by (simp add: tcp_front_def)

lemma padded_bounds: "n \<le> padded n" "padded n mod 4 = 0"
  unfolding padded_def by presburger+

lemma length_tcp_options [simp]: "length (tcp_options t) = padded (length (Options t))"
  using padded_bounds(1) [of "length (Options t)"] by (simp add: tcp_options_def)

lemma tcp_segment_split:
  "tcp_segment b t (padded (length (Options t))) n = b @ tcp_front t n @ [0, 0] @ tcp_back t"
  by (simp add: tcp_segment_def tcp_front_def tcp_back_def tcp_options_def AppendUint16_def AppendUint32_def)

lemma data_offset:
  assumes "n \<le> 15"
  shows "unat (drop_bit 4 (push_bit 4 (of_nat n) :: byte)) = n"
proof -
  have all: "\<forall>n \<in> set [0..<16]. unat (drop_bit 4 (push_bit 4 (of_nat n) :: byte)) = n" by code_simp
  show ?thesis using all assms by simp
qed

lemma parse_tcp:
  assumes "n = 20 + padded (length (Options t))" "n \<le> 60" "length c = 2"
  shows "ParseTcp (tcp_front t n @ c @ tcp_back t) = Inr (t\<lparr>Options := tcp_options t\<rparr>)"
proof -
  define data where "data = tcp_front t n @ c @ tcp_back t"
  have n: "n div 4 * 4 = n" "n div 4 \<le> 15" "20 \<le> n" using assms(1,2) padded_bounds(2) [of "length (Options t)"] by presburger+
  have first: "unat (drop_bit 4 (data ! 12)) = n div 4" "data ! 13 = Flags t"
    using data_offset [OF n(2)] by (simp_all add: data_def tcp_front_def nth_append)
  have length_data: "length data = n + length (TcpPayload t)"
    using assms(1,3) by (simp add: data_def tcp_back_def)
  have slices: "Uint16 (part data 0 2) = SourcePort t" "Uint16 (part data 2 4) = DestinationPort t"
    "Uint32 (part data 4 8) = Sequence t" "Uint32 (part data 8 12) = Acknowledgement t"
    "Uint16 (part data 14 16) = Window t" "Uint16 (part data 18 20) = UrgentPointer t"
    using assms(3) by (simp_all add: data_def tcp_front_def tcp_back_def part_def)
  have rest: "part data 20 n = tcp_options t" "drop n data = TcpPayload t"
    using assms by (simp_all add: data_def tcp_back_def part_def)
  show ?thesis unfolding data_def [symmetric]
    using n first length_data slices rest
    by (simp add: ParseTcp_reads Let_def tcpMinimumHeaderLength_def)
qed

lemma append_tcp:
  assumes "AppendTcp b (Some t) source destination = Inr out"
  defines "n \<equiv> 20 + padded (length (Options t))"
  defines "d \<equiv> tcp_front t n @ [0, 0] @ tcp_back t"
  defines "s \<equiv> pseudoHeaderSum source destination ProtocolTcp (of_nat (length d))"
  shows "n \<le> 60" "out = b @ tcp_front t n @ be 2 (unat (checksumFinish (checksumAdd s d))) @ tcp_back t"
  using assms(1) PutUint16_at [of "tcp_front t n" 16 b 0 0 "tcp_back t"]
  by (auto simp: AppendTcp_def Let_def tcpMinimumHeaderLength_def tcpMaximumHeaderLength_def tcp_segment_split
      n_def d_def s_def split: if_splits)

lemma appended_segment:
  assumes "AppendTcp b (Some t) source destination = Inr out"
  shows "out = b @ drop (length b) out" "ParseTcp (drop (length b) out) = Inr (t\<lparr>Options := tcp_options t\<rparr>)"
  using append_tcp [OF assms] parse_tcp [OF refl append_tcp(1) [OF assms]] by simp_all

definition example_tcp :: tcp where
  "example_tcp = \<lparr>SourcePort = 40000, DestinationPort = 443, Sequence = 0x01020304, Acknowledgement = 0x0A0B0C0D,
     Flags = 18, Window = 1024, UrgentPointer = 0, Options = [2, 4, 5], TcpPayload = [104, 105, 33]\<rparr>"

lemma example_tcp_appended:
  "\<exists>out. AppendTcp [7] (Some example_tcp) (Addr4 0xC0000201) (Addr4 0xC6336407) = Inr out \<and> length out = 28"
  by (simp add: AppendTcp_def Let_def example_tcp_def IsValid_def tcpMinimumHeaderLength_def
      tcpMaximumHeaderLength_def padded_def PutUint16_def tcp_segment_def AppendUint16_def AppendUint32_def)

text \<open>The pseudo header adds at most 19 words, so the 32-bit sum holds segments up to 131000 bytes.\<close>

lemma unat_plus_le: "unat (a + b) \<le> unat a + unat b" for a b :: "32 word"
  by (simp add: unat_word_ariths)

lemma unat_addressSum_le: "unat s \<le> 65535 * 8 \<Longrightarrow> unat (addressSum s a) \<le> unat s + 65535 * 8"
proof -
  assume s: "unat s \<le> 65535 * 8"
  have "word_sum (address_bytes a) \<le> 65535 * 8" using word_sum_le [of "address_bytes a"] by (simp split: if_splits)
  then show ?thesis using s by (simp add: addressSum_def unat_checksumAdd)
qed

lemma pseudoHeaderSum_le: "unat (pseudoHeaderSum source destination ProtocolTcp len) \<le> 65535 * 19"
proof -
  let ?a = "addressSum (addressSum 0 source) destination"
  have "unat (addressSum 0 source) \<le> 65535 * 8" using unat_addressSum_le [of 0 source] by simp
  then have "unat ?a \<le> 65535 * 16" using unat_addressSum_le [of "addressSum 0 source" destination] by simp
  moreover have "unat (ucast ProtocolTcp :: 32 word) = 6" by (simp add: ProtocolTcp_def)
  moreover have "unat ((len AND 0xFFFF) + drop_bit 16 len) \<le> 65535 * 2"
  proof -
    have "unat len div 65536 < 65536" using unat_bound [of len] by (simp add: div_less_iff_less_mult)
    moreover have "unat len mod 65536 < 65536" by simp
    ultimately show ?thesis unfolding fold_carry_value by linarith
  qed
  moreover have "pseudoHeaderSum source destination ProtocolTcp len =
      (?a + ucast ProtocolTcp) + ((len AND 0xFFFF) + drop_bit 16 len)"
    by (simp add: pseudoHeaderSum_def add_ac)
  ultimately show ?thesis
    using unat_plus_le [of "?a + ucast ProtocolTcp" "(len AND 0xFFFF) + drop_bit 16 len"]
      unat_plus_le [of ?a "ucast ProtocolTcp"] by simp
qed

text \<open>A segment of at most 131000 bytes, which is twice what an IP packet carries, verifies.\<close>

lemma tcp_checksum:
  assumes "AppendTcp b (Some t) source destination = Inr out" "length out \<le> length b + 131000"
  shows "checksumFinish (checksumAdd
      (pseudoHeaderSum source destination ProtocolTcp (of_nat (length out - length b))) (drop (length b) out)) = 0"
proof -
  let ?n = "20 + padded (length (Options t))"
  let ?d = "tcp_front t ?n @ [0, 0] @ tcp_back t"
  let ?s = "pseudoHeaderSum source destination ProtocolTcp (of_nat (length ?d))"
  note out = append_tcp [OF assms(1)]
  have len: "length out - length b = length ?d" by (simp add: out(2))
  have n: "?n div 4 \<le> 15" "5 \<le> ?n div 4" using out(1) by presburger+
  have "(length ?d + 1) div 2 \<le> 65500" using assms(2) len by linarith
  then have "word_sum ?d \<le> 65535 * 65500" by (intro order_trans [OF word_sum_le] mult_le_mono2)
  then have "unat ?s + word_sum ?d + 65535 < 4294967296"
    using pseudoHeaderSum_le [of source destination "of_nat (length ?d)"] by linarith
  moreover have "0 < word_sum ?d"
  proof (rule ccontr)
    assume "\<not> 0 < word_sum ?d"
    then have "word_sum [push_bit 4 (of_nat (?n div 4)), Flags t] = 0" by (simp add: tcp_front_def word_sum_append)
    then have "push_bit 4 (of_nat (?n div 4)) = (0 :: byte)" by (simp add: unsigned_eq_0_iff)
    then show False using data_offset [OF n(1)] n(2) by simp
  qed
  ultimately have "checksumFinish (checksumAdd ?s
      (tcp_front t ?n @ be 2 (unat (checksumFinish (checksumAdd ?s ?d))) @ tcp_back t)) = 0"
    by (intro checksum_verifies) simp_all
  then show ?thesis unfolding len by (simp add: out(2))
qed

text \<open>C38: What \<open>AppendTcp\<close> appends, \<open>ParseTcp\<close> reads back: the segment with its options padded with zeros
  to a multiple of four. The checksum it carries verifies against the pseudo header of the two
  addresses, unless the segment is longer than 131000 bytes, twice what an IP packet can carry.\<close>

theorem tcp_roundtrip:
  assumes "AppendTcp b (Some t) source destination = Inr out"
  shows "\<exists>d. out = b @ d \<and> ParseTcp d = Inr (t\<lparr>Options := tcp_options t\<rparr>) \<and>
    (length d \<le> 131000 \<longrightarrow>
      checksumFinish (checksumAdd (pseudoHeaderSum source destination ProtocolTcp (of_nat (length d))) d) = 0)"
  using appended_segment [OF assms] tcp_checksum [OF assms]
  by (intro exI [of _ "drop (length b) out"]) simp

theorem tcp_roundtrip_witness:
  "\<exists>d. AppendTcp [7] (Some example_tcp) (Addr4 0xC0000201) (Addr4 0xC6336407) = Inr ([7] @ d) \<and>
    ParseTcp d = Inr (example_tcp\<lparr>Options := [2, 4, 5, 0]\<rparr>) \<and>
    checksumFinish (checksumAdd (pseudoHeaderSum (Addr4 0xC0000201) (Addr4 0xC6336407) ProtocolTcp 27) d) = 0"
proof -
  obtain out where out: "AppendTcp [7] (Some example_tcp) (Addr4 0xC0000201) (Addr4 0xC6336407) = Inr out"
    "length out = 28" using example_tcp_appended by blast
  from tcp_roundtrip [OF out(1)] obtain d where d: "out = [7] @ d"
    "ParseTcp d = Inr (example_tcp\<lparr>Options := tcp_options example_tcp\<rparr>)"
    "length d \<le> 131000 \<longrightarrow> checksumFinish (checksumAdd (pseudoHeaderSum (Addr4 0xC0000201) (Addr4 0xC6336407)
       ProtocolTcp (of_nat (length d))) d) = 0" by auto
  have "length d = 27" using out(2) d(1) by simp
  moreover have "tcp_options example_tcp = [2, 4, 5, 0]" by (simp add: tcp_options_def example_tcp_def padded_def)
  ultimately show ?thesis using out(1) d by (intro exI [of _ d]) simp
qed

section \<open>What the decoder answers\<close>

text \<open>The packets \<open>AppendIp\<close> encodes, stated on the packet alone.\<close>

definition wf_ip :: "ip \<Rightarrow> bool" where
  "wf_ip i \<longleftrightarrow>
     (if Version i = 4 then Is4 (Source i) \<and> Is4 (Destination i) \<and> length (Payload i) \<le> 0xFFFF - 20
      else Version i = 6 \<and> Is6 (Source i) \<and> Is6 (Destination i) \<and> length (Payload i) \<le> 0xFFFF) \<and>
     0 \<le> FragmentOffset i \<and> FragmentOffset i \<le> 0xFFF8 \<and> FragmentOffset i mod 8 = 0"

lemma wf_ip_encodes: "wf_ip i \<Longrightarrow> \<exists>out. AppendIp b (Some i) = Inr out"
  by (auto simp: wf_ip_def AppendIp_def Let_def ipv4MinimumHeaderLength_def ipv4FragmentOffsetMask_def
      split: if_splits)

text \<open>The payload of an answer is the piece of the bytes that begins behind \<open>n\<close> bytes at least and ends
  where the length field of the header says.\<close>

definition datagram_length :: "bytes \<Rightarrow> nat" where
  "datagram_length data =
     (if drop_bit 4 (data ! 0) = 4 then unat (Uint16 (part data 2 4)) else 40 + unat (Uint16 (part data 4 6)))"

definition payload_in :: "nat \<Rightarrow> nat \<Rightarrow> bytes \<Rightarrow> ip \<Rightarrow> bool" where
  "payload_in n l data i \<longleftrightarrow>
     (\<exists>front rest. data = front @ Payload i @ rest \<and> n \<le> length front \<and> length (front @ Payload i) = l)"

lemma part_in: "i \<le> j \<Longrightarrow> j \<le> length data \<Longrightarrow> \<exists>rest. data = take i data @ part data i j @ rest"
  by (intro exI [of _ "drop j data"])
    (simp add: part_def flip: drop_drop, metis append_take_drop_id drop_drop le_add_diff_inverse2)

lemma unat_and_le: "unat (a AND b) \<le> unat b" for a b :: "'a::len word"
  by (rule word_and_le1 [THEN word_le_nat_alt [THEN iffD1]])

lemma parse_ipv4_wf:
  assumes "parseIpv4 data = Inr i"
  shows "wf_ip i" "payload_in 20 (unat (Uint16 (part data 2 4))) data i" "Version i = 4"
proof -
  let ?h = "unat (data ! 0 AND 0x0F) * 4"
  let ?t = "unat (Uint16 (part data 2 4))"
  let ?fo = "unat (Uint16 (part data 6 8) AND ipv4FragmentOffsetMask)"
  have h: "20 \<le> ?h" "?h \<le> ?t" "?t \<le> length data"
    and i: "Version i = 4" "Is4 (Source i)" "Is4 (Destination i)" "FragmentOffset i = int ?fo * 8"
      "Payload i = part data ?h ?t"
    using assms by (auto simp: parseIpv4_reads Let_def ipv4MinimumHeaderLength_def AddrFrom4_def split: if_splits)
  have "?t \<le> 0xFFFF" using unat_bound [of "Uint16 (part data 2 4)"] by simp
  then have "length (Payload i) \<le> 0xFFFF - 20" using h by (simp add: i part_def)
  moreover have "?fo \<le> 0x1FFF"
    using unat_and_le [of "Uint16 (part data 6 8)" ipv4FragmentOffsetMask] by (simp add: ipv4FragmentOffsetMask_def)
  then have "int ?fo \<le> 0x1FFF" by linarith
  ultimately show "wf_ip i" using i by (simp add: wf_ip_def)
  show "payload_in 20 ?t data i"
  proof -
    obtain rest where rest: "data = take ?h data @ part data ?h ?t @ rest" using part_in [OF h(2,3)] by blast
    have "length (take ?h data @ part data ?h ?t) = ?t" using h by (simp add: part_def)
    then show ?thesis
      using h rest unfolding payload_in_def i by (intro exI [of _ "take ?h data"] exI [of _ rest]) simp
  qed
  show "Version i = 4" by (rule i)
qed

lemma fragment_offset_le: "unat (drop_bit 3 w) \<le> 0x1FFF" for w :: "16 word"
proof -
  have "take_bit 16 (unat w) = unat w" using unat_bound [of w] by (intro take_bit_nat_eq_self) simp
  then have "unat (drop_bit 3 w) = unat w div 8" by (simp only: unsigned_drop_bit_eq) (simp add: drop_bit_eq_div)
  then show ?thesis using unat_bound [of w] by simp
qed

text \<open>What the walk from \<open>i\<close> over \<open>payload\<close> answers.\<close>

definition walked :: "ip \<Rightarrow> bytes \<Rightarrow> ip \<Rightarrow> bool" where
  "walked i payload j \<longleftrightarrow>
     Version j = Version i \<and> Source j = Source i \<and> Destination j = Destination i \<and> 0 \<le> FragmentOffset j \<and>
     FragmentOffset j \<le> 0xFFF8 \<and> FragmentOffset j mod 8 = 0 \<and> (\<exists>front. payload = front @ Payload j)"

definition offset_ok :: "ip \<Rightarrow> bool" where
  "offset_ok i \<longleftrightarrow> 0 \<le> FragmentOffset i \<and> FragmentOffset i \<le> 0xFFF8 \<and> FragmentOffset i mod 8 = 0"

lemma walked_drop: "walked i (drop n payload) j \<Longrightarrow> walked i payload j"
  unfolding walked_def by (metis append.assoc append_take_drop_id)

lemma fragmented_ok: "offset_ok (fragmented i payload)" "walked (fragmented i payload) q j \<longleftrightarrow> walked i q j"
  using fragment_offset_le [of "Uint16 (part payload 2 4)", THEN zle_int [THEN iffD2]]
  by (simp_all add: fragmented_def Let_def offset_ok_def walked_def)

lemma skip_header_rest: "skip_header payload n = Inr (q, r) \<Longrightarrow> r = drop n payload"
  by (auto simp: skip_header_def go_slice_def bind_Inr split: if_splits)

lemma walk_headers_wf: "walk_headers k i p payload = Inr j \<Longrightarrow> offset_ok i \<Longrightarrow> walked i payload j"
proof (induction k arbitrary: i p payload)
  case (Suc k)
  have step: "walked i payload j"
    if "skip_header payload n = Inr (q, r)" "walk_headers k i' q r = Inr j" "offset_ok i'"
      "walked i' r j \<Longrightarrow> walked i r j" for n q r i'
    using that(1) that(4) [OF Suc.IH [OF that(2,3)]] walked_drop skip_header_rest by blast
  let ?f = "fragmented i payload"
  have last: "walked i payload (g\<lparr>Protocol := x, Payload := drop n payload\<rparr>)" if "offset_ok g" "walked g y z \<longleftrightarrow> walked i y z"
    "Version g = Version i" "Source g = Source i" "Destination g = Destination i" for g x n y z
    using that by (auto simp: walked_def offset_ok_def intro: exI [of _ "take n payload"])
  have f: "Version ?f = Version i" "Source ?f = Source i" "Destination ?f = Destination i"
    by (simp_all add: fragmented_def Let_def)
  consider (generic) "generic_extension p" | (ah) "p = ProtocolAh" "\<not> generic_extension p"
    | (fragment) "p = ProtocolIpv6Fragment" "p \<noteq> ProtocolAh" "\<not> generic_extension p" | (other) "\<not> extension_header p"
    unfolding extension_header_def by blast
  then show ?case
  proof cases
    case generic
    then show ?thesis using Suc.prems by (auto split: if_splits sum.splits intro: step)
  next
    case ah
    then show ?thesis using Suc.prems by (auto split: if_splits sum.splits intro: step)
  next
    case fragment
    then show ?thesis using Suc.prems last [OF fragmented_ok f] fragmented_ok
      by (auto simp: Let_def split: if_splits sum.splits intro: step)
  next
    case other
    then have "walk_headers (Suc k) i p payload = Inr (i\<lparr>Protocol := p, Payload := payload\<rparr>)"
      by (simp add: extension_header_def)
    then show ?thesis using Suc.prems by (auto simp: walked_def offset_ok_def)
  qed
qed simp

lemma parse_ipv6_wf:
  assumes "parseIpv6 data = Inr i"
  shows "wf_ip i" "payload_in 40 (40 + unat (Uint16 (part data 4 6))) data i" "Version i = 6"
proof -
  let ?n = "unat (Uint16 (part data 4 6))"
  let ?i = "\<lparr>Version = 6, Source = AddrFrom16 (part data 8 24), Destination = AddrFrom16 (part data 24 40),
    Protocol = 0, HopLimit = data ! 7, FragmentOffset = 0, MoreFragments = False, Payload = []\<rparr>"
  have data: "40 + ?n \<le> length data"
    and walk: "walk_headers maxIpv6ExtensionHeaders ?i (data ! 6) (part data 40 (40 + ?n)) = Inr i"
    using assms by (auto simp: parseIpv6_reads Let_def ipv6HeaderLength_def split: if_splits)
  have w: "walked ?i (part data 40 (40 + ?n)) i"
    using walk by (rule walk_headers_wf) (simp add: offset_ok_def)
  then obtain front where front: "part data 40 (40 + ?n) = front @ Payload i" by (auto simp: walked_def)
  have "?n \<le> 0xFFFF" using unat_bound [of "Uint16 (part data 4 6)"] by simp
  moreover have l: "length (part data 40 (40 + ?n)) = ?n" using data by (simp add: part_def)
  ultimately have "length (Payload i) \<le> 0xFFFF" by (simp add: front)
  then show "wf_ip i" using w by (simp add: wf_ip_def walked_def AddrFrom16_def)
  obtain rest where "data = take 40 data @ part data 40 (40 + ?n) @ rest" using part_in [OF _ data, of 40] by auto
  then have "data = (take 40 data @ front) @ Payload i @ rest" by (simp add: front)
  moreover have "length front + length (Payload i) = ?n" using l by (simp add: front)
  ultimately show "payload_in 40 (40 + ?n) data i" using data unfolding payload_in_def
    by (intro exI [of _ "take 40 data @ front"] exI [of _ rest]) simp
  show "Version i = 6" using w by (simp add: walked_def)
qed

lemma skip_header_error: "0 < n \<Longrightarrow> skip_header payload n = Inl e \<Longrightarrow> e = ErrMalformed"
  by (auto simp: skip_header_reads split: if_splits)

lemma walk_headers_error: "walk_headers k i p payload = Inl e \<Longrightarrow> e = ErrMalformed \<or> e = ErrUnsupported"
  by (induction k arbitrary: i p payload)
    (auto simp: Let_def ipv6FragmentHeaderSize_def dest: skip_header_error [rotated] split: if_splits sum.splits)

lemma parse_ip_error: "ParseIp data = Inl e \<Longrightarrow> e = ErrMalformed \<or> e = ErrUnsupported"
  by (auto simp: parser_reads Let_def dest: walk_headers_error split: if_splits)

lemma parse_tcp_error: "ParseTcp data = Inl e \<Longrightarrow> e = ErrMalformed"
  by (auto simp: ParseTcp_reads Let_def split: if_splits)

lemma parse_tcp_parts:
  assumes "ParseTcp data = Inr t"
  shows "\<exists>front. data = front @ Options t @ TcpPayload t \<and> length front = 20"
proof -
  let ?n = "unat (drop_bit 4 (data ! 12)) * 4"
  have n: "20 \<le> ?n" "?n \<le> length data" and t: "Options t = part data 20 ?n" "TcpPayload t = drop ?n data"
    using assms by (auto simp: ParseTcp_reads Let_def tcpMinimumHeaderLength_def split: if_splits)
  have "drop 20 data = part data 20 ?n @ drop ?n data"
    using n append_take_drop_id [of "?n - 20" "drop 20 data"] by (simp add: part_def)
  then show ?thesis using n append_take_drop_id [of 20 data] by (intro exI [of _ "take 20 data"]) (simp add: t)
qed

text \<open>C39: Whatever the bytes, the decoders of a packet do not panic: each index and each slice expression
  they evaluate is in range. \<open>ParseIp\<close> answers a packet of the type \<open>AppendIp\<close> encodes: addresses of the
  packet's version, a fragment offset that is a multiple of eight in range, and a payload that is the
  piece of the bytes from behind the fixed header, or further, to where the length field says, so
  without link padding. Its errors are of the two kinds for captured data. \<open>ParseTcp\<close> cuts all that
  follows the twenty fixed bytes into options and payload, or finds the data malformed.\<close>

theorem parse_ip_wellformed:
  "(case ParseIp data of
      Inl e \<Rightarrow> e = ErrMalformed \<or> e = ErrUnsupported
    | Inr i \<Rightarrow> wf_ip i \<and> payload_in (if Version i = 4 then 20 else 40) (datagram_length data) data i \<and>
        (\<exists>out. AppendIp [] (Some i) = Inr out)) \<and>
   (case ParseTcp data of
      Inl e \<Rightarrow> e = ErrMalformed
    | Inr t \<Rightarrow> \<exists>front. data = front @ Options t @ TcpPayload t \<and> length front = 20)"
proof
  show "case ParseIp data of
      Inl e \<Rightarrow> e = ErrMalformed \<or> e = ErrUnsupported
    | Inr i \<Rightarrow> wf_ip i \<and> payload_in (if Version i = 4 then 20 else 40) (datagram_length data) data i \<and>
        (\<exists>out. AppendIp [] (Some i) = Inr out)"
  proof (cases "ParseIp data")
    case (Inl e)
    then show ?thesis using parse_ip_error by auto
  next
    case (Inr i)
    then consider "parseIpv4 data = Inr i" "drop_bit 4 (data ! 0) = 4" | "parseIpv6 data = Inr i" "drop_bit 4 (data ! 0) \<noteq> 4"
      by (auto simp: ParseIp_reads Let_def split: if_splits)
    then have "wf_ip i \<and> payload_in (if Version i = 4 then 20 else 40) (datagram_length data) data i"
      by cases (simp_all add: parse_ipv4_wf parse_ipv6_wf datagram_length_def)
    then show ?thesis using Inr wf_ip_encodes [of i "[]"] by simp
  qed
  show "case ParseTcp data of
      Inl e \<Rightarrow> e = ErrMalformed
    | Inr t \<Rightarrow> \<exists>front. data = front @ Options t @ TcpPayload t \<and> length front = 20"
    using parse_tcp_error parse_tcp_parts by (auto split: sum.splits)
qed

end
