(* ===== verification/Edit_Distance.thy ===== *)
theory Edit_Distance
  imports Prelude
begin

text \<open>
  The edit distance of \<open>src/pkg/strings/distance.go\<close>. \<open>Levenshtein\<close> keeps two rows of the matrix and
  swaps them after each rune of the first text, so the row that is written is the one read two rounds
  before. It is refined in two steps: the rows hold \<open>dist\<close>, the recursion over the last runes
  (\<open>row_written\<close>, \<open>rows_invariant\<close>), and \<open>dist\<close> is the least number of single edits that turn one list
  into the other (\<open>dist_least\<close>).
\<close>

section \<open>The two rows\<close>

definition cell :: "'a \<Rightarrow> 'a list \<Rightarrow> nat list \<Rightarrow> nat list \<Rightarrow> nat \<Rightarrow> nat list" where
  "cell x b previous current j =
     (let substitution = previous ! (j - 1);
          substitution = (if x \<noteq> b ! (j - 1) then substitution + 1 else substitution)
      in current[j := min (min (previous ! j + 1) (current ! (j - 1) + 1)) substitution])"

definition row :: "'a \<Rightarrow> nat \<Rightarrow> 'a list \<Rightarrow> nat list \<Rightarrow> nat list \<Rightarrow> nat list" where
  "row x i b previous current = foldl (cell x b previous) (current[0 := i]) [1..<length b + 1]"

definition rows :: "'a list \<Rightarrow> 'a list \<Rightarrow> nat list \<times> nat list \<Rightarrow> nat \<Rightarrow> nat list \<times> nat list" where
  "rows a b = (\<lambda>(previous, current) i. (row (a ! (i - 1)) i b previous current, previous))"

definition Levenshtein :: "'a list \<Rightarrow> 'a list \<Rightarrow> nat" where
  "Levenshtein a b =
     (if length a = 0 then length b
      else if length b = 0 then length a
      else
        let previous = [0..<length b + 1];
            current = replicate (length b + 1) 0;
            (previous, current) = foldl (rows a b) (previous, current) [1..<length a + 1]
        in previous ! length b)"

section \<open>The recursion\<close>

fun dist :: "'a list \<Rightarrow> 'a list \<Rightarrow> nat" where
  "dist [] ys = length ys"
| "dist (x # xs) [] = Suc (length xs)"
| "dist (x # xs) (y # ys) =
     min (min (dist xs (y # ys) + 1) (dist (x # xs) ys + 1)) (if x \<noteq> y then dist xs ys + 1 else dist xs ys)"

lemma dist_Nil2 [simp]: "dist xs [] = length xs"
  by (cases xs) simp_all

text \<open>The entry of the matrix for the first \<open>i\<close> and the first \<open>j\<close> runes.\<close>

definition entry :: "'a list \<Rightarrow> 'a list \<Rightarrow> nat \<Rightarrow> nat \<Rightarrow> nat" where
  "entry a b i j = dist (rev (take i a)) (rev (take j b))"

lemma entry_0 [simp]: "j \<le> length b \<Longrightarrow> entry a b 0 j = j" "i \<le> length a \<Longrightarrow> entry a b i 0 = i"
  by (simp_all add: entry_def)

lemma entry_Suc:
  assumes "i < length a" "j < length b"
  shows "entry a b (Suc i) (Suc j) =
    min (min (entry a b i (Suc j) + 1) (entry a b (Suc i) j + 1))
      (if a ! i \<noteq> b ! j then entry a b i j + 1 else entry a b i j)"
  using assms by (simp add: entry_def take_Suc_conv_app_nth)

definition holds_row :: "'a list \<Rightarrow> 'a list \<Rightarrow> nat \<Rightarrow> nat \<Rightarrow> nat list \<Rightarrow> bool" where
  "holds_row a b i n r \<longleftrightarrow> length r = length b + 1 \<and> (\<forall>j \<le> n. r ! j = entry a b i j)"

lemma row_written:
  assumes "i < length a" "holds_row a b i (length b) previous" "length current = length b + 1"
  shows "holds_row a b (Suc i) (length b) (row (a ! i) (Suc i) b previous current)"
proof -
  have "holds_row a b (Suc i) n (foldl (cell (a ! i) b previous) (current[0 := Suc i]) [1..<n + 1])"
    if "n \<le> length b" for n
    using that
  proof (induction n)
    case 0
    then show ?case using assms by (simp add: holds_row_def)
  next
    case (Suc n)
    let ?r = "foldl (cell (a ! i) b previous) (current[0 := Suc i]) [1..<n + 1]"
    have r: "holds_row a b (Suc i) n ?r" using Suc by simp
    have step: "foldl (cell (a ! i) b previous) (current[0 := Suc i]) [1..<Suc n + 1] =
        cell (a ! i) b previous ?r (Suc n)" by simp
    have "cell (a ! i) b previous ?r (Suc n) = ?r[Suc n := entry a b (Suc i) (Suc n)]"
      using r assms(2) Suc.prems
      by (simp add: cell_def Let_def holds_row_def entry_Suc [OF assms(1), of n])
    then show ?case using r Suc.prems unfolding step holds_row_def
      by (auto simp: nth_list_update le_Suc_eq)
  qed
  then show ?thesis by (simp add: row_def)
qed

lemma rows_invariant:
  assumes "i \<le> length a"
  shows "case foldl (rows a b) ([0..<length b + 1], replicate (length b + 1) 0) [1..<i + 1] of
    (previous, current) \<Rightarrow> holds_row a b i (length b) previous \<and> length current = length b + 1"
  using assms
proof (induction i)
  case 0
  then show ?case by (auto simp: holds_row_def nth_append simp del: upt_Suc)
next
  case (Suc i)
  obtain previous current where s:
    "foldl (rows a b) ([0..<length b + 1], replicate (length b + 1) 0) [1..<i + 1] = (previous, current)"
    by fastforce
  then have inv: "holds_row a b i (length b) previous" "length current = length b + 1" using Suc by simp_all
  moreover have "foldl (rows a b) ([0..<length b + 1], replicate (length b + 1) 0) [1..<Suc i + 1] =
      (row (a ! i) (Suc i) b previous current, previous)"
    using s by (simp add: rows_def del: upt_Suc) (simp add: upt_Suc_append rows_def)
  ultimately show ?case using row_written [of i a b previous current] Suc.prems
    by (simp add: holds_row_def)
qed

lemma Levenshtein_dist: "Levenshtein a b = dist (rev a) (rev b)"
proof (cases "a = [] \<or> b = []")
  case False
  obtain previous current where s:
    "foldl (rows a b) ([0..<length b + 1], replicate (length b + 1) 0) [1..<length a + 1] = (previous, current)"
    by fastforce
  then have "previous ! length b = entry a b (length a) (length b)"
    using rows_invariant [of "length a" a b] by (simp add: holds_row_def)
  then show ?thesis using False s by (simp add: Levenshtein_def Let_def entry_def)
qed (auto simp: Levenshtein_def)

section \<open>Single edits\<close>

text \<open>One insertion, deletion or substitution.\<close>

inductive edit :: "'a list \<Rightarrow> 'a list \<Rightarrow> bool" where
  insertion: "edit (p @ q) (p @ x # q)"
| deletion: "edit (p @ x # q) (p @ q)"
| substitution: "edit (p @ x # q) (p @ y # q)"

lemma edit_rev: "edit xs ys \<Longrightarrow> edit (rev xs) (rev ys)"
  by (induction rule: edit.induct) (use edit.intros in \<open>fastforce\<close>)+

lemma edit_Cons: "edit xs ys \<Longrightarrow> edit (z # xs) (z # ys)"
  by (induction rule: edit.induct) (metis append_Cons edit.intros)+

lemma edits_map:
  assumes "\<And>xs ys. edit xs ys \<Longrightarrow> edit (f xs) (f ys)"
  shows "(edit ^^ n) xs ys \<Longrightarrow> (edit ^^ n) (f xs) (f ys)"
proof (induction n arbitrary: ys)
  case (Suc n)
  then obtain zs where "(edit ^^ n) xs zs" "edit zs ys" by auto
  then show ?case using Suc.IH assms by auto
qed simp

lemma edits_rev: "(edit ^^ n) (rev xs) (rev ys) \<longleftrightarrow> (edit ^^ n) xs ys"
  using edits_map [of rev n xs ys, OF edit_rev] edits_map [of rev n "rev xs" "rev ys", OF edit_rev] by auto

lemma edits_first: "edit xs ys \<Longrightarrow> (edit ^^ n) ys zs \<Longrightarrow> (edit ^^ (n + 1)) xs zs"
  by (simp only: Suc_eq_plus1 [symmetric]) (rule relpowp_Suc_I2)

text \<open>\<open>dist\<close> edits suffice \<dots>\<close>

lemma dist_edits: "(edit ^^ dist xs ys) xs ys"
proof (induction xs ys rule: dist.induct)
  case (1 ys)
  show ?case
  proof (induction ys)
    case (Cons y ys)
    have "edit ys (y # ys)" using insertion [of "[]" ys y] by simp
    with Cons show ?case by auto
  qed simp
next
  case (2 x xs)
  have "(edit ^^ length xs) xs []" for xs :: "'a list"
  proof (induction xs)
    case (Cons x xs)
    have "edit (x # xs) xs" using deletion [of "[]" x xs] by simp
    with Cons show ?case using edits_first by fastforce
  qed simp
  from this [of "x # xs"] show ?case by simp
next
  case (3 x xs y ys)
  have del: "(edit ^^ (dist xs (y # ys) + 1)) (x # xs) (y # ys)"
    using edits_first [OF deletion [of "[]" x xs]] 3(1) by simp
  have "edit ys (y # ys)" using insertion [of "[]" ys y] by simp
  then have ins: "(edit ^^ (dist (x # xs) ys + 1)) (x # xs) (y # ys)" using 3(2) by auto
  have keep: "(edit ^^ dist xs ys) (y # xs) (y # ys)"
    using edits_map [where f = "(#) y", OF edit_Cons] 3(3,4) by blast
  then have sub: "(edit ^^ (dist xs ys + 1)) (x # xs) (y # ys)"
    using edits_first [OF substitution [of "[]" x xs y]] by simp
  show ?case using del ins keep sub by (cases "x = y") (auto simp: min_def simp del: relpowp.simps)
qed

text \<open>\<dots> and one edit changes the distance to a third list by one at most.\<close>

lemma dist_Cons2_le: "dist xs (w # ws) \<le> dist xs ws + 1"
  by (cases xs) simp_all

lemma dist_delete_le: "dist (x # xs) zs \<le> dist xs zs + 1"
  by (cases zs) simp_all

lemma dist_insert_le: "dist xs zs \<le> dist (x # xs) zs + 1"
proof (induction zs)
  case (Cons w ws)
  then show ?case using dist_Cons2_le [of xs w ws] by (cases "x = w"; simp; linarith)
qed simp

lemma dist_substitute_le: "dist (x # xs) zs \<le> dist (y # xs) zs + 1"
proof (induction zs)
  case (Cons w ws)
  then show ?case by (cases "x = w"; cases "y = w"; simp; linarith)
qed simp

lemma dist_Cons_le: "(\<And>zs. dist xs zs \<le> dist ys zs + 1) \<Longrightarrow> dist (z # xs) zs \<le> dist (z # ys) zs + 1"
proof (induction zs)
  case Nil
  show ?case using Nil [of "[]"] by simp
next
  case (Cons w ws)
  then show ?case using Cons.prems [of "w # ws"] Cons.prems [of ws] by (cases "z = w"; simp; linarith)
qed

lemma dist_append_le: "(\<And>zs. dist xs zs \<le> dist ys zs + 1) \<Longrightarrow> dist (p @ xs) zs \<le> dist (p @ ys) zs + 1"
proof (induction p arbitrary: zs)
  case (Cons z p)
  then show ?case using dist_Cons_le [of "p @ xs" "p @ ys" z zs] by simp
qed simp

lemma edit_dist_le: "edit xs ys \<Longrightarrow> dist xs zs \<le> dist ys zs + 1"
  by (induction rule: edit.induct)
    (intro dist_append_le dist_insert_le dist_delete_le dist_substitute_le)+

lemma dist_self [simp]: "dist xs xs = 0"
  by (induction xs) simp_all

lemma edits_dist_le: "(edit ^^ n) xs ys \<Longrightarrow> dist xs ys \<le> n"
proof (induction n arbitrary: xs)
  case (Suc n)
  then obtain zs where "edit xs zs" "(edit ^^ n) zs ys" by (meson relpowp_Suc_E2)
  then show ?case using Suc.IH edit_dist_le [of xs zs ys] by fastforce
qed simp

lemma Levenshtein_edits: "(edit ^^ Levenshtein a b) a b"
  using dist_edits [of "rev a" "rev b"] by (simp only: Levenshtein_dist edits_rev)

lemma Levenshtein_least: "(edit ^^ n) a b \<Longrightarrow> Levenshtein a b \<le> n"
  using edits_dist_le [of n "rev a" "rev b"] by (simp only: Levenshtein_dist edits_rev)

lemma Levenshtein_le_iff: "Levenshtein a b \<le> n \<longleftrightarrow> (\<exists>k \<le> n. (edit ^^ k) a b)"
  using Levenshtein_edits Levenshtein_least le_trans by blast

end
