(* ===== verification/Correction.thy ===== *)
theory Correction
  imports Edit_Distance Go_Strings
begin

text \<open>
  The guard on proposed corrections of \<open>src/pkg/correction/correction.go\<close>. The Unicode tables of Go are
  parameters: \<open>lower\<close> is \<open>strings.ToLower\<close>, \<open>letter\<close> and \<open>digit\<close> are \<open>unicode.IsLetter\<close> and
  \<open>unicode.IsDigit\<close>.

  The two ratios are the constants 0.25 and 0.10, and the code truncates the product of a float with
  one of them. The first product is exact. The second constant is the double just above 1/10: the
  product with a length below \<open>2 ^ 49\<close> lies at or above a tenth of it and below the next integer, so it
  truncates to the quotient by ten.
\<close>

definition quarter :: "nat \<Rightarrow> nat" where "quarter n = n div 4"
definition tenth :: "nat \<Rightarrow> nat" where "tenth n = n div 10"

definition MinimumLetterChange :: nat where "MinimumLetterChange = 3"

definition Letters :: "(bytes \<Rightarrow> bytes) \<Rightarrow> (rune \<Rightarrow> bool) \<Rightarrow> (rune \<Rightarrow> bool) \<Rightarrow> bytes \<Rightarrow> rune list" where
  "Letters lower letter digit s = filter (\<lambda>c. letter c \<or> digit c) (runes_of (lower s))"

definition Acceptable ::
    "(bytes \<Rightarrow> bytes) \<Rightarrow> (rune \<Rightarrow> bool) \<Rightarrow> (rune \<Rightarrow> bool) \<Rightarrow> bytes \<Rightarrow> bytes \<Rightarrow> bool" where
  "Acceptable lower letter digit original corrected =
     (if original = [] then False
      else
        let originalRunes = runes_of original
        in if Levenshtein originalRunes (runes_of corrected) > quarter (length originalRunes) then False
           else
             let originalLetters = Letters lower letter digit original;
                 allowance = max MinimumLetterChange (tenth (length originalLetters))
             in Levenshtein originalLetters (Letters lower letter digit corrected) \<le> allowance)"

text \<open>C40: A correction is acceptable exactly when the original is not empty, at most a quarter of its runes
  as single insertions, deletions and substitutions turn it into the correction, and the letters of the
  two are at most three edits, or a tenth of the letters, apart.\<close>

theorem correction_acceptable:
  "Acceptable lower letter digit original corrected \<longleftrightarrow>
     original \<noteq> [] \<and>
     (\<exists>n \<le> length (runes_of original) div 4. (edit ^^ n) (runes_of original) (runes_of corrected)) \<and>
     (\<exists>n \<le> max 3 (length (Letters lower letter digit original) div 10).
        (edit ^^ n) (Letters lower letter digit original) (Letters lower letter digit corrected))"
  unfolding Acceptable_def Let_def quarter_def tenth_def MinimumLetterChange_def Levenshtein_le_iff [symmetric]
  by (simp only: not_less [symmetric] if_bool_eq_conj) blast

end
