(* ===== verification/Spec2Isabelle.thy ===== *)
theory Spec2Isabelle
  imports QR_Properties Cbor_Properties Format_Properties Hostname_Properties Abnf_Properties Abnf_Definitions Abnf_Expand
    Abnf_Utils Packet_Properties Correction
begin

text \<open>
  A verification development for the Go utility library under \<open>src/\<close>.

  The library has no main program: it is a collection of packages. The development models the
  packages that carry algorithms of their own.

  \<^bold>\<open>Prelude\<close> holds the types shared by all parts (bytes as 8-bit words), the fact
  collections, the sequencing of runs that may stop early (\<open>bind\<close>) and the Hoare rules for loops written
  as folds.

  \<^bold>\<open>QR symbols\<close> (\<open>src/pkg/encoding/qr\<close>). \<open>Byte_Ring\<close> is the interface between the field
  arithmetic and the code built on it; \<open>QR_Field\<close> models the table-driven field of
  \<open>reed_solomon.go\<close> and interprets that interface on it; \<open>QR_Codewords\<close> models \<open>tables.go\<close>,
  the version choice, the bit writer, error correction and interleaving; \<open>QR_Symbol\<close> models the
  drawing of a symbol, the masks and the penalty score of \<open>qr.go\<close>; \<open>QR_Decode\<close> is an abstract
  reader of symbols, which the code does not have, and the proof that it reads back what was
  drawn; \<open>QR_Properties\<close> states what the package promises.

  \<^bold>\<open>CBOR\<close> (\<open>src/pkg/cbor/cbor.go\<close>). \<open>Utf8\<close> models Go's conversions between strings and
  runes; \<open>Cbor\<close> models the encoder and the decoder; \<open>Cbor_Grammar\<close> gives the encodings as an
  inductive relation, the locale of a reader that accepts exactly the words of a prefix-free
  relation, and its interpretation on the decoder; \<open>Cbor_Encoding\<close> relates the encoder to the
  grammar; \<open>Cbor_Properties\<close> states what the package promises.

  \<^bold>\<open>JSON schema formats\<close> (\<open>src/pkg/json/schema/format\<close>). \<open>Go_Strings\<close> holds what the
  string-processing packages use of Go's strings; \<open>Format_Time\<close> models \<open>time.go\<close> and
  \<open>Format_Time_Spec\<close> gives its dates, times and durations as grammars; \<open>Format_Syntax\<close> models
  \<open>jsonpointer.go\<close> and \<open>uuid.go\<close>; \<open>Format_Properties\<close> states what these formats accept. \<open>Punycode\<close>
  and \<open>Hostname\<close> model \<open>punycode.go\<close> and \<open>hostname.go\<close>; \<open>Punycode_Roundtrip\<close> follows the decoder
  along the passes of the encoder, and \<open>Hostname_Properties\<close> shows that the Unicode form and the ASCII
  form of a label are one label to the check.

  \<^bold>\<open>ABNF\<close> (\<open>src/pkg/abnf\<close>). \<open>Abnf_Syntax\<close> and \<open>Abnf_Rules\<close> model elements, builders, grammars and
  the grammar of ABNF itself (\<open>elements.go\<close>, \<open>builders.go\<close>, \<open>grammar.go\<close>, \<open>list.go\<close>, \<open>rules.go\<close>);
  \<open>Abnf_Parse\<close> models the backtracking parser of \<open>parse.go\<close>. \<open>Abnf_Semantics\<close> defines the words an
  element derives, and the locale of a solver whose answers are exactly those words, which the parser's
  solver interprets. \<open>Abnf_Termination\<close> gives a check of grammars under which the parser returns,
  \<open>Abnf_Self\<close> runs it on the grammar of ABNF, \<open>Abnf_Validate\<close> models \<open>validate.go\<close>, and
  \<open>Abnf_Properties\<close> states what parser and validation promise. A definition is read in three steps,
  parse, evaluate, validate: \<open>Abnf_Trees\<close> characterises the paths the parser answers, \<open>Abnf_Shapes\<close>
  those of the rules of ABNF, \<open>Abnf_Evaluate\<close> models \<open>evaluate.go\<close> and \<open>ParseABNF\<close>, \<open>Abnf_Evaluated\<close>
  shows that the evaluation of such paths succeeds, and \<open>Abnf_Definitions\<close> states what \<open>ParseABNF\<close>
  promises. \<open>Abnf_Minify\<close>, \<open>Abnf_Minify_Correct\<close> and \<open>Abnf_Minify_Properties\<close> model \<open>minify/\<close> and
  show that simplification keeps the language; \<open>Abnf_Expand\<close> adds the expansion of list operators and
  \<open>Minify\<close> as a whole. \<open>Abnf_Utils\<close> models \<open>utils/utils.go\<close> and shows which nodes of a path tree its
  searches find, and in which order.

  \<^bold>\<open>Packets\<close> (\<open>src/pkg/net/packet\<close>). \<open>Packet\<close> models the IPv4, IPv6 and TCP encoders and decoders;
  \<open>Packet_Checksum\<close> reads their checksum as a sum modulo 65535; \<open>Packet_Properties\<close> shows that the
  guards of the decoders keep each of their reads in range, that packets are read back, that the checksums
  verify, and that decoded packets are ones the encoder takes.

  \<^bold>\<open>Corrections\<close> (\<open>src/pkg/strings/distance.go\<close>, \<open>src/pkg/correction\<close>). \<open>Edit_Distance\<close> shows that the
  two-row computation gives the least number of single edits; \<open>Correction\<close> models the guard built on it.

  \<^bold>\<open>How the parts are stated.\<close> A Go function is a HOL function of the same name where HOL allows it; a
  loop with a name of its own in the model is a local definition that the manifest maps to the lines of
  the loop. Errors are values: \<open>Inl\<close> of a sum, or \<open>None\<close> for a result \<open>(_, false)\<close>. A panic is an error
  value, too, where the code reads by index or slices what it did not build: in the ABNF packages
  (\<open>Panic\<close>) and the packet decoders (\<open>Out_Of_Range\<close>); the properties show where it cannot occur. Elsewhere
  an index or a slice is the list operation under the guards of the code. Go's \<open>int\<close> is \<open>int\<close>, or \<open>nat\<close> for indices
  and lengths; bytes and sized integers are words.

  \<^bold>\<open>Fuel.\<close> The ABNF parser may not return at all, so its model takes fuel; \<open>abnf_parse_returns\<close> and
  \<open>parse_abnf_returns\<close> state that some fuel gives an answer which more fuel keeps, for every grammar
  that passes the check and for the grammar of ABNF, and \<open>abnf_nullable_loop\<close> that no fuel does for a
  validated grammar that fails it. The Punycode encoder has the number of runes as fuel, which suffices
  because each pass handles one (\<open>pass_progress\<close>). The walk over IPv6 headers has the bound of the code.

  \<^bold>\<open>Not modelled.\<close> Code that walks Go types by reflection (CBOR marshalling, the JSON schema validator,
  the command line parser, the generators); code that hands its work to the standard library or to
  services (cryptography, HTTP, DNS, cloud clients, the email, URI, IP and regex formats); the Brotli
  package, a transcription of C code around large tables; logging, I/O and the programs under \<open>src/cmd\<close>;
  the ABNF lint rules. The tables of Go's \<open>unicode\<close> package and \<open>netip.ParseAddr\<close> are parameters. The
  texts of error messages are left out, and so is sharing between slices, except where the CBOR decoder
  promises that a byte string aliases its input.
\<close>

end
